(* ===== verification/Prelude.thy ===== *)
theory Prelude
  imports Main "HOL-Library.Word" "HOL-Library.List_Lexorder" "HOL-Library.Product_Lexorder" "HOL-Library.Code_Target_Nat"
begin

text \<open>
  Shared vocabulary of the development: the machine integers of the Rust sources, results with
  explicit errors and panics, checked and wrapping arithmetic, and the generic facts on words and
  lists that the component theories use.

  A Rust \<open>Result\<close> is a sum whose left side is either the error value of the source (\<open>Err\<close>) or a
  panic (\<open>Panic\<close>: a failed assertion, an \<open>unwrap\<close> of nothing, an \<open>unreachable!\<close>).  Methods that take
  \<open>&mut self\<close> return the result together with the state they leave behind, so that what a failing
  call has already written is part of the model.  Plain \<open>+\<close> and \<open>-\<close> of the sources wrap around, as
  in a build without overflow checks (no profile of the repository enables them for release).
  Lengths and indices (\<open>usize\<close>) are natural numbers.
\<close>

section \<open>Collections of facts\<close>

named_theorems model_defs \<open>definitions that are unfolded when a component is opened\<close>
named_theorems wf_intros \<open>introduction rules for well-formedness\<close>
named_theorems encodes_fields \<open>a field of a structure that is written and read back\<close>

section \<open>Machine integers\<close>

type_synonym u8 = "8 word"
type_synonym u16 = "16 word"
type_synonym u32 = "32 word"
type_synonym u64 = "64 word"
type_synonym bytes = "u8 list"

text \<open>\<open>checked_add\<close>, \<open>checked_sub\<close> and \<open>checked_mul\<close> of the unsigned integer types.\<close>

definition word_checked_add :: "'n::len word \<Rightarrow> 'n word \<Rightarrow> 'n word option" where
  "word_checked_add a b = (if unat a + unat b < 2 ^ LENGTH('n) then Some (a + b) else None)"

definition word_checked_sub :: "'n::len word \<Rightarrow> 'n word \<Rightarrow> 'n word option" where
  "word_checked_sub a b = (if b \<le> a then Some (a - b) else None)"

definition word_checked_mul :: "'n::len word \<Rightarrow> 'n word \<Rightarrow> 'n word option" where
  "word_checked_mul a b = (if unat a * unat b < 2 ^ LENGTH('n) then Some (a * b) else None)"

lemma word_checked_add_Some:
  "word_checked_add a b = Some c \<longleftrightarrow> c = a + b \<and> unat c = unat a + unat b"
  by (auto simp: word_checked_add_def unat_word_ariths)
     (metis mod_less_divisor zero_less_numeral zero_less_power)

lemma word_checked_sub_Some:
  "word_checked_sub a b = Some c \<longleftrightarrow> unat b \<le> unat a \<and> unat c = unat a - unat b"
  by (auto simp: word_checked_sub_def word_le_nat_alt unat_sub_if')
     (simp add: word_unat_eq_iff unat_sub_if')

lemma word_checked_mul_Some:
  "word_checked_mul a b = Some c \<longleftrightarrow> c = a * b \<and> unat c = unat a * unat b"
  by (auto simp: word_checked_mul_def unat_word_ariths)
     (metis mod_less_divisor zero_less_numeral zero_less_power)

section \<open>Results\<close>

datatype 'e failure = Err 'e | Panic

type_synonym ('a, 'e) result = "'e failure + 'a"

text \<open>The \<open>?\<close> operator: go on with the value or return the failure.\<close>

definition rbind :: "('a, 'e) result \<Rightarrow> ('a \<Rightarrow> ('b, 'e) result) \<Rightarrow> ('b, 'e) result" where
  "rbind r f = (case r of Inl e \<Rightarrow> Inl e | Inr x \<Rightarrow> f x)"

lemma rbind_Inl [simp]: "rbind (Inl e) f = Inl e"
  by (simp add: rbind_def)

lemma rbind_Inr [simp]: "rbind (Inr x) f = f x"
  by (simp add: rbind_def)

lemma rbind_eq_Inr: "rbind r f = Inr y \<longleftrightarrow> (\<exists>x. r = Inr x \<and> f x = Inr y)"
  by (cases r) simp_all

lemma rbind_eq_Inl: "rbind r f = Inl e \<longleftrightarrow> r = Inl e \<or> (\<exists>x. r = Inr x \<and> f x = Inl e)"
  by (cases r) simp_all

lemma rbind_assoc: "rbind (rbind r f) g = rbind r (\<lambda>x. rbind (f x) g)"
  by (cases r) simp_all

text \<open>\<open>ok_or\<close> on an option, \<open>map_err\<close> on a result (the implicit \<open>From\<close> conversion of \<open>?\<close>), and
  \<open>unwrap\<close>, which turns an error into a panic.\<close>

definition ok_or :: "'e \<Rightarrow> 'a option \<Rightarrow> ('a, 'e) result" where
  "ok_or e x = (case x of None \<Rightarrow> Inl (Err e) | Some y \<Rightarrow> Inr y)"

fun map_failure :: "('e \<Rightarrow> 'f) \<Rightarrow> 'e failure \<Rightarrow> 'f failure" where
  "map_failure f (Err e) = Err (f e)"
| "map_failure f Panic = Panic"

definition map_err :: "('e \<Rightarrow> 'f) \<Rightarrow> ('a, 'e) result \<Rightarrow> ('a, 'f) result" where
  "map_err f r = (case r of Inl e \<Rightarrow> Inl (map_failure f e) | Inr x \<Rightarrow> Inr x)"

definition unwrap_result :: "('a, 'e) result \<Rightarrow> ('a, 'f) result" where
  "unwrap_result r = (case r of Inl e \<Rightarrow> Inl Panic | Inr x \<Rightarrow> Inr x)"

lemma ok_or_simps [simp]:
  "ok_or e None = Inl (Err e)" "ok_or e (Some x) = Inr x"
  by (simp_all add: ok_or_def)

lemma ok_or_eq_Inr [simp]: "ok_or e x = Inr y \<longleftrightarrow> x = Some y"
  by (cases x) simp_all

lemma map_err_simps [simp]:
  "map_err f (Inr x) = Inr x" "map_err f (Inl (Err e)) = Inl (Err (f e))" "map_err f (Inl Panic) = Inl Panic"
  by (simp_all add: map_err_def)

lemma map_err_eq_Inr [simp]: "map_err f r = Inr y \<longleftrightarrow> r = Inr y"
  by (cases r) (simp_all add: map_err_def)

lemma unwrap_result_simps [simp]:
  "unwrap_result (Inr x) = Inr x" "unwrap_result (Inl e) = Inl Panic"
  by (simp_all add: unwrap_result_def)

lemma unwrap_result_eq_Inr [simp]: "unwrap_result r = Inr y \<longleftrightarrow> r = Inr y"
  by (cases r) simp_all

text \<open>A method that takes \<open>&mut self\<close>: its result and the state it leaves behind.  \<open>sbind\<close> is \<open>?\<close> between two steps of
  such a method: a failing step ends the method in the state it has reached.\<close>

definition sbind :: "('a, 'e) result \<times> 's \<Rightarrow> ('a \<Rightarrow> 's \<Rightarrow> ('b, 'e) result \<times> 's) \<Rightarrow> ('b, 'e) result \<times> 's" where
  "sbind m f = (case m of (Inl e, s) \<Rightarrow> (Inl e, s) | (Inr x, s) \<Rightarrow> f x s)"

lemma sbind_simps [simp]: "sbind (Inl e, s) f = (Inl e, s)" "sbind (Inr x, s) f = f x s"
  by (simp_all add: sbind_def)

lemma sbind_eq_Inr: "sbind m f = (Inr y, s') \<longleftrightarrow> (\<exists>x s. m = (Inr x, s) \<and> f x s = (Inr y, s'))"
  by (auto simp: sbind_def split: prod.splits sum.splits)

lemma sbind_eq_Inl: "sbind m f = (Inl e, s') \<longleftrightarrow> m = (Inl e, s') \<or> (\<exists>x s. m = (Inr x, s) \<and> f x s = (Inl e, s'))"
  by (auto simp: sbind_def split: prod.splits sum.splits)

section \<open>Generic facts\<close>

lemma unat_of_nat_id [simp]: "n < 2 ^ LENGTH('n) \<Longrightarrow> unat (of_nat n :: 'n::len word) = n"
  by (simp add: unat_of_nat)

lemma sum_list_filter_split:
  "sum_list (map f xs) = sum_list (map f (filter P xs)) + sum_list (map f (filter (\<lambda>x. \<not> P x) xs))"
  for f :: "'a \<Rightarrow> nat"
  by (induction xs) auto

lemma member_le_sum_list_map: "x \<in> set xs \<Longrightarrow> f x \<le> sum_list (map f xs)" for f :: "'a \<Rightarrow> nat"
  by (induction xs) auto

end
