(* ===== verification/Std_Collections.thy ===== *)
theory Std_Collections
  imports Prelude
begin

text \<open>
  The containers of the Rust standard library that the modelled code uses.  A \<open>BTreeMap\<close> or
  \<open>HashMap\<close> is an association list that is strictly sorted by key, and a \<open>BTreeSet\<close> or \<open>HashSet\<close> a
  strictly sorted list: the representation is canonical, so two containers with the same entries are
  equal, it can be iterated in key order, and it evaluates.  Clients reason through the interfaces
  \<open>dict\<close>, \<open>dict_total\<close> and \<open>elem_set\<close>, which are interpreted on the operations below.
\<close>

section \<open>Interfaces\<close>

locale dict =
  fixes empty :: "'m"
    and get :: "'m \<Rightarrow> 'k \<Rightarrow> 'v option"
    and ins :: "'k \<Rightarrow> 'v \<Rightarrow> 'm \<Rightarrow> 'm"
    and rem :: "'k \<Rightarrow> 'm \<Rightarrow> 'm"
    and inv :: "'m \<Rightarrow> bool"
  assumes get_empty: "get empty k = None"
    and get_ins: "get (ins k v m) k' = (if k' = k then Some v else get m k')"
    and get_rem: "get (rem k m) k' = (if k' = k then None else get m k')"
    and inv_empty: "inv empty"
    and inv_ins: "inv m \<Longrightarrow> inv (ins k v m)"
    and inv_rem: "inv m \<Longrightarrow> inv (rem k m)"
    and extensional: "inv m \<Longrightarrow> inv m' \<Longrightarrow> (\<And>k. get m k = get m' k) \<Longrightarrow> m = m'"
begin

lemma ins_rem: "inv m \<Longrightarrow> ins k v (rem k m) = ins k v m"
  by (rule extensional) (simp_all add: get_ins get_rem inv_ins inv_rem)

lemma rem_ins: "inv m \<Longrightarrow> rem k (ins k v m) = rem k m"
  by (rule extensional) (simp_all add: get_ins get_rem inv_ins inv_rem)

lemma rem_rem: "inv m \<Longrightarrow> rem k (rem k m) = rem k m"
  by (rule extensional) (simp_all add: get_rem inv_rem)

lemma ins_ins: "inv m \<Longrightarrow> ins k v (ins k w m) = ins k v m"
  by (rule extensional) (simp_all add: get_ins inv_ins)

lemma rem_absent: "inv m \<Longrightarrow> get m k = None \<Longrightarrow> rem k m = m"
  by (rule extensional) (simp_all add: get_rem inv_rem)

lemma ins_present: "inv m \<Longrightarrow> get m k = Some v \<Longrightarrow> ins k v m = m"
  by (rule extensional) (simp_all add: get_ins inv_ins)

lemma rem_ins_other: "inv m \<Longrightarrow> k \<noteq> k' \<Longrightarrow> rem k (ins k' v m) = ins k' v (rem k m)"
  by (rule extensional) (auto simp: get_ins get_rem inv_ins inv_rem)

lemma ins_ins_other: "inv m \<Longrightarrow> k \<noteq> k' \<Longrightarrow> ins k v (ins k' w m) = ins k' w (ins k v m)"
  by (rule extensional) (auto simp: get_ins inv_ins)

end

text \<open>A dictionary whose values can be summed up by a measure.\<close>

locale dict_total = dict +
  fixes total :: "('v \<Rightarrow> nat) \<Rightarrow> 'm \<Rightarrow> nat"
  assumes total_empty: "total f empty = 0"
    and total_rem: "inv m \<Longrightarrow> get m k = Some v \<Longrightarrow> total f m = f v + total f (rem k m)"
begin

lemma total_ins_absent: "inv m \<Longrightarrow> get m k = None \<Longrightarrow> total f (ins k v m) = f v + total f m"
  using total_rem [of "ins k v m" k v f] by (simp add: inv_ins get_ins rem_ins rem_absent)

lemma total_ins_present:
  "inv m \<Longrightarrow> get m k = Some w \<Longrightarrow> total f (ins k v m) + f w = f v + total f m"
  using total_rem [of "ins k v m" k v f] total_rem [of m k w f]
  by (simp add: inv_ins get_ins rem_ins)

lemma total_ge: "inv m \<Longrightarrow> get m k = Some v \<Longrightarrow> f v \<le> total f m"
  using total_rem [of m k v f] by simp

end

locale elem_set =
  fixes empty :: "'s"
    and elem :: "'s \<Rightarrow> 'a \<Rightarrow> bool"
    and ins :: "'a \<Rightarrow> 's \<Rightarrow> 's"
    and rem :: "'a \<Rightarrow> 's \<Rightarrow> 's"
    and inv :: "'s \<Rightarrow> bool"
  assumes elem_empty: "\<not> elem empty x"
    and elem_ins: "elem (ins x s) y \<longleftrightarrow> y = x \<or> elem s y"
    and elem_rem: "elem (rem x s) y \<longleftrightarrow> y \<noteq> x \<and> elem s y"
    and inv_empty: "inv empty"
    and inv_ins: "inv s \<Longrightarrow> inv (ins x s)"
    and inv_rem: "inv s \<Longrightarrow> inv (rem x s)"
    and extensional: "inv s \<Longrightarrow> inv s' \<Longrightarrow> (\<And>x. elem s x = elem s' x) \<Longrightarrow> s = s'"
begin

lemma rem_ins_absent: "inv s \<Longrightarrow> \<not> elem s x \<Longrightarrow> rem x (ins x s) = s"
  by (rule extensional) (auto simp: elem_ins elem_rem inv_ins inv_rem)

lemma ins_rem_present: "inv s \<Longrightarrow> elem s x \<Longrightarrow> ins x (rem x s) = s"
  by (rule extensional) (auto simp: elem_ins elem_rem inv_ins inv_rem)

lemma rem_absent: "inv s \<Longrightarrow> \<not> elem s x \<Longrightarrow> rem x s = s"
  by (rule extensional) (auto simp: elem_rem inv_rem)

lemma ins_present: "inv s \<Longrightarrow> elem s x \<Longrightarrow> ins x s = s"
  by (rule extensional) (auto simp: elem_ins inv_ins)

end

section \<open>Ordered maps\<close>

type_synonym ('k, 'v) omap = "('k \<times> 'v) list"

definition om_get :: "('k, 'v) omap \<Rightarrow> 'k \<Rightarrow> 'v option" where
  "om_get m k = map_of m k"

definition om_contains :: "('k, 'v) omap \<Rightarrow> 'k \<Rightarrow> bool" where
  "om_contains m k = (om_get m k \<noteq> None)"

fun om_insert :: "'k::linorder \<Rightarrow> 'v \<Rightarrow> ('k, 'v) omap \<Rightarrow> ('k, 'v) omap" where
  "om_insert k v [] = [(k, v)]"
| "om_insert k v ((k', v') # m) =
     (if k < k' then (k, v) # (k', v') # m
      else if k = k' then (k, v) # m
      else (k', v') # om_insert k v m)"

definition om_remove :: "'k \<Rightarrow> ('k, 'v) omap \<Rightarrow> ('k, 'v) omap" where
  "om_remove k m = filter (\<lambda>p. fst p \<noteq> k) m"

definition om_inv :: "('k::linorder, 'v) omap \<Rightarrow> bool" where
  "om_inv m = sorted_wrt (<) (map fst m)"

definition om_total :: "('v \<Rightarrow> nat) \<Rightarrow> ('k, 'v) omap \<Rightarrow> nat" where
  "om_total f m = sum_list (map (\<lambda>p. f (snd p)) m)"

lemma om_insert_get: "om_get (om_insert k v m) k' = (if k' = k then Some v else om_get m k')"
  by (induction k v m rule: om_insert.induct) (auto simp: om_get_def)

lemma om_remove_get: "om_get (om_remove k m) k' = (if k' = k then None else om_get m k')"
  by (induction m) (auto simp: om_get_def om_remove_def)

lemma om_insert_keys: "fst ` set (om_insert k v m) = insert k (fst ` set m)"
  by (induction k v m rule: om_insert.induct) auto

lemma om_insert_inv: "om_inv m \<Longrightarrow> om_inv (om_insert k v m)"
proof (induction k v m rule: om_insert.induct)
  case (2 k v k' v' m)
  have "\<forall>x \<in> fst ` set (om_insert k v m). k' < x" if "\<not> k < k'" "k \<noteq> k'"
    using that "2.prems" by (auto simp: om_insert_keys om_inv_def)
  with 2 show ?case
    by (auto simp: om_inv_def)
qed (simp add: om_inv_def)

lemma om_remove_inv: "om_inv m \<Longrightarrow> om_inv (om_remove k m)"
  by (induction m) (auto simp: om_inv_def om_remove_def)

lemma om_get_in_set: "om_inv m \<Longrightarrow> om_get m k = Some v \<longleftrightarrow> (k, v) \<in> set m"
proof -
  assume "om_inv m"
  then have "distinct (map fst m)"
    by (simp add: om_inv_def strict_sorted_iff)
  then show ?thesis
    by (simp add: om_get_def)
qed

lemma om_get_SomeD: "om_get m k = Some v \<Longrightarrow> (k, v) \<in> set m"
  by (simp add: om_get_def map_of_SomeD)

lemma om_get_None: "om_get m k = None \<longleftrightarrow> k \<notin> fst ` set m"
  by (simp add: om_get_def map_of_eq_None_iff)

lemma om_inv_head_less: "om_inv ((k, v) # m) \<Longrightarrow> k' \<in> fst ` set m \<Longrightarrow> k < k'"
  by (auto simp: om_inv_def)

lemma om_extensional:
  assumes "om_inv m" "om_inv m'" "\<And>k. om_get m k = om_get m' k"
  shows "m = m'"
proof -
  have "set m = set m'"
    using om_get_in_set [OF assms(1)] om_get_in_set [OF assms(2)] assms(3) by auto
  then have fst: "map fst m = map fst m'"
    using assms(1,2) by (intro strict_sorted_equal) (auto simp: om_inv_def)
  have "inj_on fst (set m \<union> set m')"
    using \<open>set m = set m'\<close> assms(1) by (auto simp: om_inv_def strict_sorted_iff distinct_map)
  with fst show ?thesis
    by (rule map_inj_on)
qed

lemma om_total_remove:
  assumes "om_inv m" "om_get m k = Some v"
  shows "om_total f m = f v + om_total f (om_remove k m)"
  using assms
proof (induction m)
  case (Cons p m)
  obtain k' w where p: "p = (k', w)"
    by (cases p)
  show ?case
  proof (cases "k' = k")
    case True
    with Cons.prems p have "w = v" "k \<notin> fst ` set m"
      by (auto simp: om_get_def om_inv_def)
    then have "filter (\<lambda>p. fst p \<noteq> k) m = m"
      by (intro filter_True) auto
    with True p \<open>w = v\<close> show ?thesis
      by (simp add: om_total_def om_remove_def)
  next
    case False
    with Cons p show ?thesis
      by (auto simp: om_total_def om_remove_def om_get_def om_inv_def)
  qed
qed (simp add: om_get_def)

interpretation om: dict_total "[]" om_get om_insert om_remove om_inv om_total
proof unfold_locales
  fix m m' :: "('a, 'b) omap"
  assume "om_inv m" "om_inv m'" "\<And>k. om_get m k = om_get m' k"
  then show "m = m'" by (rule om_extensional)
qed (simp_all add: om_insert_get om_remove_get om_insert_inv om_remove_inv om_total_remove,
     simp_all add: om_get_def om_inv_def om_total_def)

lemmas om_simps [simp] = om.get_empty om.get_ins om.get_rem

lemmas om_invs [wf_intros, simp, intro] = om.inv_empty om.inv_ins om.inv_rem

lemma om_contains_simps [simp]:
  "om_contains [] k = False"
  "om_contains (om_insert k' v m) k = (k = k' \<or> om_contains m k)"
  "om_contains (om_remove k' m) k = (k \<noteq> k' \<and> om_contains m k)"
  by (simp_all add: om_contains_def)

lemma om_contains_iff: "om_contains m k \<longleftrightarrow> (\<exists>v. om_get m k = Some v)"
  by (auto simp: om_contains_def)

section \<open>Ordered sets\<close>

type_synonym 'a oset = "'a list"

definition os_elem :: "'a oset \<Rightarrow> 'a \<Rightarrow> bool" where
  "os_elem s x = (x \<in> set s)"

fun os_insert :: "'a::linorder \<Rightarrow> 'a oset \<Rightarrow> 'a oset" where
  "os_insert x [] = [x]"
| "os_insert x (y # s) = (if x < y then x # y # s else if x = y then y # s else y # os_insert x s)"

definition os_remove :: "'a \<Rightarrow> 'a oset \<Rightarrow> 'a oset" where
  "os_remove x s = filter (\<lambda>y. y \<noteq> x) s"

definition os_inv :: "'a::linorder oset \<Rightarrow> bool" where
  "os_inv s = sorted_wrt (<) s"

lemma os_insert_elem: "os_elem (os_insert x s) y \<longleftrightarrow> y = x \<or> os_elem s y"
  by (induction x s rule: os_insert.induct) (auto simp: os_elem_def)

lemma os_insert_set [simp]: "set (os_insert x s) = insert x (set s)"
  by (induction x s rule: os_insert.induct) auto

lemma os_insert_inv: "os_inv s \<Longrightarrow> os_inv (os_insert x s)"
  by (induction x s rule: os_insert.induct) (auto simp: os_inv_def)

interpretation os: elem_set "[]" os_elem os_insert os_remove os_inv
proof unfold_locales
  fix s s' :: "'a oset"
  assume "os_inv s" "os_inv s'" "\<And>x. os_elem s x = os_elem s' x"
  then show "s = s'"
    by (intro strict_sorted_equal) (auto simp: os_inv_def os_elem_def)
qed (simp_all add: os_insert_elem os_insert_inv, auto simp: os_elem_def os_remove_def os_inv_def sorted_wrt_filter)

lemmas os_simps [simp] = os.elem_empty os.elem_ins os.elem_rem

lemmas os_invs [wf_intros, simp, intro] = os.inv_empty os.inv_ins os.inv_rem

lemma length_os_insert: "length (os_insert x s) \<le> Suc (length s)"
  by (induction x s rule: os_insert.induct) auto

lemma length_om_insert: "length (om_insert k v m) \<le> Suc (length m)"
  by (induction k v m rule: om_insert.induct) auto

lemma length_om_remove: "length (om_remove k m) \<le> length m"
  by (simp add: om_remove_def)

end
