(* ===== verification/Beserial.thy ===== *)
theory Beserial
  imports Std_Collections
begin

text \<open>
  The serialization library of the repository (\<open>beserial/src/lib.rs\<close>, \<open>beserial/src/types.rs\<close>).
  \<open>Serialize::serialize\<close> is a function to the bytes it writes or the error it returns,
  \<open>Deserialize::deserialize\<close> a reader: it takes the remaining input and returns the value and what is
  left.  The relation \<open>encodes\<close> says that a write succeeds, has the announced size, and is read back;
  it is closed under the ways in which the sources compose writers and readers.  The interface
  \<open>codec\<close> is what every serializable type of the development is shown to satisfy.
\<close>

unbundle bit_operations_syntax

section \<open>Errors, writers and readers\<close>

datatype io_error_kind = UnexpectedEof | InvalidData

datatype serializing_error = IoError io_error_kind | InvalidEncoding | InvalidValue | Overflow | LimitExceeded

type_synonym written = "(bytes, serializing_error) result"
type_synonym 'a reader = "bytes \<Rightarrow> ('a \<times> bytes, serializing_error) result"

definition dret :: "'a \<Rightarrow> 'a reader" where
  "dret x bs = Inr (x, bs)"

definition dfail :: "serializing_error \<Rightarrow> 'a reader" where
  "dfail e bs = Inl (Err e)"

definition dbind :: "'a reader \<Rightarrow> ('a \<Rightarrow> 'b reader) \<Rightarrow> 'b reader" where
  "dbind r f bs = (case r bs of Inl e \<Rightarrow> Inl e | Inr (x, bs') \<Rightarrow> f x bs')"

text \<open>Two writes one after the other, and a list of writes (the body of a \<open>serialize\<close> method).\<close>

definition wseq :: "written \<Rightarrow> written \<Rightarrow> written" where
  "wseq w1 w2 = rbind w1 (\<lambda>a. rbind w2 (\<lambda>b. Inr (a @ b)))"

fun wseqs :: "written list \<Rightarrow> written" where
  "wseqs [] = Inr []"
| "wseqs (w # ws) = wseq w (wseqs ws)"

definition read_exact :: "nat \<Rightarrow> bytes reader" where
  "read_exact n bs =
     (if length bs < n then Inl (Err (IoError UnexpectedEof)) else Inr (take n bs, drop n bs))"

text \<open>\<open>deserialize_from_vec\<close> ignores what is left of the input; \<open>serialize_to_vec\<close> unwraps.\<close>

definition deserialize_from_vec :: "'a reader \<Rightarrow> bytes \<Rightarrow> ('a, serializing_error) result" where
  "deserialize_from_vec r bs = (case r bs of Inl e \<Rightarrow> Inl e | Inr (x, _) \<Rightarrow> Inr x)"

definition serialize_to_vec :: "written \<Rightarrow> (bytes, 'e) result" where
  "serialize_to_vec w = unwrap_result w"

section \<open>What it means that a value is encoded\<close>

definition encodes :: "written \<Rightarrow> 'a reader \<Rightarrow> 'a \<Rightarrow> nat \<Rightarrow> bool" where
  "encodes w r x n \<longleftrightarrow> (\<exists>bs. w = Inr bs \<and> length bs = n \<and> (\<forall>rest. r (bs @ rest) = Inr (x, rest)))"

lemma encodes_ret [intro]: "encodes (Inr []) (dret x) x 0"
  by (simp add: encodes_def dret_def)

lemma encodes_seq:
  assumes "encodes w1 r1 x n1" "encodes w2 (f x) y n2"
  shows "encodes (wseq w1 w2) (dbind r1 f) y (n1 + n2)"
  using assms by (auto simp: encodes_def wseq_def dbind_def)

lemma encodes_size: "encodes w r x n \<Longrightarrow> n = m \<Longrightarrow> encodes w r x m"
  by simp

lemma encodes_bind_ret: "encodes w r x n \<Longrightarrow> encodes w (dbind r (\<lambda>x. dret (f x))) (f x) n"
  by (auto simp: encodes_def dbind_def dret_def)

lemma encodes_last:
  assumes "encodes w r x n" "f x = dret y"
  shows "encodes w (dbind r f) y n"
  using assms by (auto simp: encodes_def dbind_def dret_def)

lemma encodes_wseqs_Cons:
  assumes "encodes w1 r1 x n1" "encodes (wseqs ws) (f x) y n2"
  shows "encodes (wseqs (w1 # ws)) (dbind r1 f) y (n1 + n2)"
  using assms by (auto simp: encodes_def wseq_def dbind_def)

lemma encodes_wseqs_Nil: "encodes (wseqs []) (dret y) y 0"
  by (simp add: encodes_ret)

lemmas [encodes_fields] = encodes_wseqs_Nil

lemma encodesD: "encodes w r x n \<Longrightarrow> w = Inr bs \<Longrightarrow> r (bs @ rest) = Inr (x, rest)"
  by (auto simp: encodes_def)

lemma serialize_to_vec_Inr [simp]: "serialize_to_vec w = Inr bs \<longleftrightarrow> w = Inr bs"
  by (simp add: serialize_to_vec_def)

lemma encodes_to_vec:
  "encodes w r x n \<Longrightarrow> \<exists>bs. serialize_to_vec w = Inr bs \<and> deserialize_from_vec r bs = Inr x \<and> length bs = n"
  by (force simp: encodes_def deserialize_from_vec_def dest: spec [of _ "[]"])

locale codec =
  fixes ser :: "'a \<Rightarrow> written" and deser :: "'a reader" and size :: "'a \<Rightarrow> nat" and wf :: "'a \<Rightarrow> bool"
  assumes encoded: "wf x \<Longrightarrow> encodes (ser x) deser x (size x)"
begin

lemma ser_defined: "wf x \<Longrightarrow> \<exists>bs. ser x = Inr bs \<and> length bs = size x"
  using encoded by (auto simp: encodes_def)

lemma to_vec_roundtrip:
  "wf x \<Longrightarrow> \<exists>bs. serialize_to_vec (ser x) = Inr bs \<and> deserialize_from_vec deser bs = Inr x"
  using encodes_to_vec [OF encoded] by auto

lemma from_vec_to_vec:
  assumes "wf x" "serialize_to_vec (ser x) = Inr bs"
  shows "deserialize_from_vec deser bs = Inr x"
  using encodes_to_vec [OF encoded [OF assms(1)]] assms(2) by auto

lemma prefix_free:
  assumes "wf x" "wf y" "ser x = Inr bs" "ser y = Inr cs" "bs @ rest = cs @ rest'"
  shows "x = y \<and> rest = rest'"
  using encodesD [OF encoded [OF assms(1)] assms(3), of rest]
    encodesD [OF encoded [OF assms(2)] assms(4), of rest'] assms(5) by simp

lemma injective: "wf x \<Longrightarrow> wf y \<Longrightarrow> ser x = ser y \<Longrightarrow> x = y"
  using ser_defined [of x] prefix_free [of x y _ _ "[]" "[]"] by auto

end

section \<open>Big-endian integers\<close>

fun be_bytes :: "nat \<Rightarrow> nat \<Rightarrow> bytes" where
  "be_bytes 0 x = []"
| "be_bytes (Suc n) x = be_bytes n (x div 256) @ [of_nat (x mod 256)]"

definition be_value :: "bytes \<Rightarrow> nat" where
  "be_value bs = foldl (\<lambda>a b. a * 256 + unat b) 0 bs"

lemma length_be_bytes [simp]: "length (be_bytes n x) = n"
  by (induction n arbitrary: x) simp_all

lemma be_value_snoc: "be_value (bs @ [b]) = be_value bs * 256 + unat b"
  by (simp add: be_value_def)

lemma be_value_be_bytes: "be_value (be_bytes n x) = x mod 256 ^ n"
proof (induction n arbitrary: x)
  case (Suc n)
  then show ?case
    by (simp add: be_value_snoc mod_mult2_eq mult.commute [of _ 256])
qed (simp add: be_value_def)

definition ser_uint :: "nat \<Rightarrow> 'n::len word \<Rightarrow> written" where
  "ser_uint n w = Inr (be_bytes n (unat w))"

definition deser_uint :: "nat \<Rightarrow> 'n::len word reader" where
  "deser_uint n = dbind (read_exact n) (\<lambda>bs. dret (of_nat (be_value bs)))"

lemma encodes_read_exact: "length xs = n \<Longrightarrow> encodes (Inr xs) (read_exact n) xs n"
  by (simp add: encodes_def read_exact_def)

lemma encodes_uint:
  fixes w :: "'n::len word"
  assumes "LENGTH('n) = 8 * n"
  shows "encodes (ser_uint n w) (deser_uint n) w n"
proof -
  have "unat w < 256 ^ n"
    using unsigned_less [of w] assms by (simp add: power_mult)
  then have w: "of_nat (be_value (be_bytes n (unat w))) = w"
    by (simp add: be_value_be_bytes)
  show ?thesis
    unfolding ser_uint_def deser_uint_def
    using encodes_bind_ret [OF encodes_read_exact [of "be_bytes n (unat w)" n],
        of "\<lambda>bs. of_nat (be_value bs) :: 'n word"] w
    by simp
qed

definition ser_u8 :: "u8 \<Rightarrow> written" where "ser_u8 b = Inr [b]"
definition deser_u8 :: "u8 reader" where
  "deser_u8 bs = (case bs of [] \<Rightarrow> Inl (Err (IoError UnexpectedEof)) | b # bs' \<Rightarrow> Inr (b, bs'))"
definition ser_u16 :: "u16 \<Rightarrow> written" where "ser_u16 = ser_uint 2"
definition deser_u16 :: "u16 reader" where "deser_u16 = deser_uint 2"
definition ser_u32 :: "u32 \<Rightarrow> written" where "ser_u32 = ser_uint 4"
definition deser_u32 :: "u32 reader" where "deser_u32 = deser_uint 4"
definition ser_u64 :: "u64 \<Rightarrow> written" where "ser_u64 = ser_uint 8"
definition deser_u64 :: "u64 reader" where "deser_u64 = deser_uint 8"

interpretation u8: codec ser_u8 deser_u8 "\<lambda>_. 1" "\<lambda>_. True"
  by unfold_locales (simp add: encodes_def ser_u8_def deser_u8_def)

interpretation u16: codec ser_u16 deser_u16 "\<lambda>_. 2" "\<lambda>_. True"
  by unfold_locales (simp add: encodes_uint ser_u16_def deser_u16_def)

interpretation u32: codec ser_u32 deser_u32 "\<lambda>_. 4" "\<lambda>_. True"
  by unfold_locales (simp add: encodes_uint ser_u32_def deser_u32_def)

interpretation u64: codec ser_u64 deser_u64 "\<lambda>_. 8" "\<lambda>_. True"
  by unfold_locales (simp add: encodes_uint ser_u64_def deser_u64_def)

section \<open>Booleans, options, pairs\<close>

definition ser_bool :: "bool \<Rightarrow> written" where
  "ser_bool b = ser_u8 (if b then 1 else 0)"

definition deser_bool :: "bool reader" where
  "deser_bool = dbind deser_u8 (\<lambda>b. if b = 0 then dret False else if b = 1 then dret True else dfail InvalidValue)"

interpretation bool: codec ser_bool deser_bool "\<lambda>_. 1" "\<lambda>_. True"
proof
  fix b
  show "encodes (ser_bool b) deser_bool b 1"
    unfolding ser_bool_def deser_bool_def by (rule encodes_last [OF u8.encoded]) auto
qed

lemmas [encodes_fields] =
  encodes_wseqs_Cons [OF u8.encoded]
  encodes_wseqs_Cons [OF u16.encoded]
  encodes_wseqs_Cons [OF u32.encoded]
  encodes_wseqs_Cons [OF u64.encoded]
  encodes_wseqs_Cons [OF bool.encoded]

fun ser_option :: "('a \<Rightarrow> written) \<Rightarrow> 'a option \<Rightarrow> written" where
  "ser_option s (Some x) = wseqs [ser_u8 1, s x]"
| "ser_option s None = ser_u8 0"

definition deser_option :: "'a reader \<Rightarrow> 'a option reader" where
  "deser_option r = dbind deser_u8 (\<lambda>b.
     if b = 0 then dret None
     else if b = 1 then dbind r (\<lambda>x. dret (Some x))
     else dfail InvalidValue)"

fun size_option :: "('a \<Rightarrow> nat) \<Rightarrow> 'a option \<Rightarrow> nat" where
  "size_option n (Some x) = 1 + n x"
| "size_option n None = 1"

definition wf_option :: "('a \<Rightarrow> bool) \<Rightarrow> 'a option \<Rightarrow> bool" where
  "wf_option P x = (case x of None \<Rightarrow> True | Some y \<Rightarrow> P y)"

lemma wf_option_simps [simp]: "wf_option P None" "wf_option P (Some x) = P x"
  by (simp_all add: wf_option_def)

lemma encodes_option:
  assumes "\<And>y. x = Some y \<Longrightarrow> encodes (s y) r y (n y)"
  shows "encodes (ser_option s x) (deser_option r) x (size_option n x)"
proof (cases x)
  case None
  have "encodes (ser_u8 0) (deser_option r) None 1"
    unfolding deser_option_def by (rule encodes_last [OF u8.encoded]) simp_all
  with None show ?thesis by simp
next
  case (Some y)
  have "encodes (wseqs [s y]) (dbind r (\<lambda>x. dret (Some x))) (Some y) (n y + 0)"
    by (intro encodes_wseqs_Cons [OF assms [OF Some]] encodes_wseqs_Nil)
  then have "encodes (wseqs [ser_u8 1, s y]) (deser_option r) (Some y) (1 + (n y + 0))"
    unfolding deser_option_def by (intro encodes_wseqs_Cons [OF u8.encoded]) simp_all
  with Some show ?thesis by simp
qed

section \<open>Length-prefixed containers\<close>

text \<open>
  The length is written as an unsigned integer of \<open>l\<close> bytes; \<open>from_usize(len).unwrap()\<close> panics when
  it does not fit.
\<close>

definition ser_len :: "nat \<Rightarrow> nat \<Rightarrow> written" where
  "ser_len l n = (if n < 256 ^ l then Inr (be_bytes l n) else Inl Panic)"

definition deser_len :: "nat \<Rightarrow> nat reader" where
  "deser_len l = dbind (read_exact l) (\<lambda>bs. dret (be_value bs))"

lemma encodes_len: "n < 256 ^ l \<Longrightarrow> encodes (ser_len l n) (deser_len l) n l"
  unfolding ser_len_def deser_len_def
  using encodes_bind_ret [OF encodes_read_exact [of "be_bytes l n" l], of be_value]
  by (simp add: be_value_be_bytes)

definition ser_vec :: "nat \<Rightarrow> ('a \<Rightarrow> written) \<Rightarrow> 'a list \<Rightarrow> written" where
  "ser_vec l s xs = wseqs (ser_len l (length xs) # map s xs)"

fun read_vec :: "'a reader \<Rightarrow> nat \<Rightarrow> 'a list reader" where
  "read_vec r 0 = dret []"
| "read_vec r (Suc n) = dbind r (\<lambda>x. dbind (read_vec r n) (\<lambda>xs. dret (x # xs)))"

text \<open>\<open>limit.map(|l| len_u > l).unwrap_or(false)\<close>\<close>

definition exceeds :: "nat option \<Rightarrow> nat \<Rightarrow> bool" where
  "exceeds limit n = (case limit of None \<Rightarrow> False | Some m \<Rightarrow> n > m)"

lemma exceeds_None [simp]: "exceeds None n = False"
  by (simp add: exceeds_def)

definition deser_vec_with_limit :: "nat \<Rightarrow> nat option \<Rightarrow> 'a reader \<Rightarrow> 'a list reader" where
  "deser_vec_with_limit l limit r =
    dbind (deser_len l) (\<lambda>n. if exceeds limit n then dfail LimitExceeded else read_vec r n)"

definition deser_vec :: "nat \<Rightarrow> 'a reader \<Rightarrow> 'a list reader" where
  "deser_vec l r = deser_vec_with_limit l None r"

text \<open>\<open>serialized_size\<close> unwraps the length like \<open>serialize\<close> does; \<open>size_vec\<close> is the number of bytes when it fits.\<close>

definition size_len :: "nat \<Rightarrow> nat \<Rightarrow> (nat, 'e) result" where
  "size_len l n = (if n < 256 ^ l then Inr l else Inl Panic)"

definition serialized_size_vec :: "nat \<Rightarrow> ('a \<Rightarrow> nat) \<Rightarrow> 'a list \<Rightarrow> (nat, 'e) result" where
  "serialized_size_vec l n xs = rbind (size_len l (length xs)) (\<lambda>m. Inr (foldl (\<lambda>sz x. sz + n x) m xs))"

definition size_vec :: "nat \<Rightarrow> ('a \<Rightarrow> nat) \<Rightarrow> 'a list \<Rightarrow> nat" where
  "size_vec l n xs = l + sum_list (map n xs)"

lemma foldl_sizes: "foldl (\<lambda>sz x. sz + n x) m xs = m + sum_list (map n xs)" for m :: nat
  by (induction xs arbitrary: m) simp_all

lemma serialized_size_vec_eq: "serialized_size_vec l n xs = (if length xs < 256 ^ l then Inr (size_vec l n xs) else Inl Panic)"
  by (simp add: serialized_size_vec_def size_len_def size_vec_def foldl_sizes)

lemma encodes_read_vec:
  "(\<And>x. x \<in> set xs \<Longrightarrow> encodes (s x) r x (n x)) \<Longrightarrow>
   encodes (wseqs (map s xs)) (read_vec r (length xs)) xs (sum_list (map n xs))"
proof (induction xs)
  case (Cons x xs)
  have "encodes (wseqs (map s xs)) (dbind (read_vec r (length xs)) (\<lambda>xs. dret (x # xs))) (x # xs) (sum_list (map n xs))"
    by (rule encodes_bind_ret [where f = "\<lambda>xs. x # xs"]) (use Cons in simp)
  then have "encodes (wseqs (s x # map s xs)) (read_vec r (Suc (length xs))) (x # xs) (n x + sum_list (map n xs))"
    unfolding read_vec.simps by (rule encodes_wseqs_Cons [rotated]) (simp add: Cons.prems)
  then show ?case by (simp del: wseqs.simps)
qed (simp add: encodes_ret)

lemma encodes_vec:
  assumes "length xs < 256 ^ l" "\<And>x. x \<in> set xs \<Longrightarrow> encodes (s x) r x (n x)"
  shows "encodes (ser_vec l s xs) (deser_vec l r) xs (size_vec l n xs)"
  unfolding ser_vec_def deser_vec_def deser_vec_with_limit_def exceeds_None if_False size_vec_def
  by (rule encodes_wseqs_Cons [OF encodes_len [OF assms(1)]]) (rule encodes_read_vec [OF assms(2)])

text \<open>Maps and sets are written in key order and read back by insertion.\<close>

definition ser_map :: "nat \<Rightarrow> ('k \<Rightarrow> written) \<Rightarrow> ('v \<Rightarrow> written) \<Rightarrow> ('k, 'v) omap \<Rightarrow> written" where
  "ser_map l sk sv m = wseqs (ser_len l (length m) # concat (map (\<lambda>(k, v). [sk k, sv v]) m))"

fun read_map :: "'k::linorder reader \<Rightarrow> 'v reader \<Rightarrow> nat \<Rightarrow> ('k, 'v) omap \<Rightarrow> ('k, 'v) omap reader" where
  "read_map rk rv 0 m = dret m"
| "read_map rk rv (Suc n) m = dbind rk (\<lambda>k. dbind rv (\<lambda>v. read_map rk rv n (om_insert k v m)))"

definition deser_map_with_limit :: "nat \<Rightarrow> nat option \<Rightarrow> 'k::linorder reader \<Rightarrow> 'v reader \<Rightarrow> ('k, 'v) omap reader" where
  "deser_map_with_limit l limit rk rv =
    dbind (deser_len l) (\<lambda>n. if exceeds limit n then dfail LimitExceeded else read_map rk rv n [])"

definition deser_map :: "nat \<Rightarrow> 'k::linorder reader \<Rightarrow> 'v reader \<Rightarrow> ('k, 'v) omap reader" where
  "deser_map l rk rv = deser_map_with_limit l None rk rv"

definition serialized_size_map :: "nat \<Rightarrow> ('k \<Rightarrow> nat) \<Rightarrow> ('v \<Rightarrow> nat) \<Rightarrow> ('k, 'v) omap \<Rightarrow> (nat, 'e) result" where
  "serialized_size_map l nk nv m = rbind (size_len l (length m)) (\<lambda>n. Inr (foldl (\<lambda>sz (k, v). sz + nk k + nv v) n m))"

definition size_map :: "nat \<Rightarrow> ('k \<Rightarrow> nat) \<Rightarrow> ('v \<Rightarrow> nat) \<Rightarrow> ('k, 'v) omap \<Rightarrow> nat" where
  "size_map l nk nv m = l + sum_list (map (\<lambda>(k, v). nk k + nv v) m)"

lemma serialized_size_map_eq: "serialized_size_map l nk nv m = (if length m < 256 ^ l then Inr (size_map l nk nv m) else Inl Panic)"
proof -
  have "foldl (\<lambda>sz (k, v). sz + nk k + nv v) n m = n + sum_list (map (\<lambda>(k, v). nk k + nv v) m)" for n
    by (induction m arbitrary: n) (auto simp: add.assoc)
  then show ?thesis
    by (simp add: serialized_size_map_def size_len_def size_map_def)
qed

definition ser_set :: "nat \<Rightarrow> ('a \<Rightarrow> written) \<Rightarrow> 'a oset \<Rightarrow> written" where
  "ser_set l s xs = wseqs (ser_len l (length xs) # map s xs)"

fun read_set :: "'a::linorder reader \<Rightarrow> nat \<Rightarrow> 'a oset \<Rightarrow> 'a oset reader" where
  "read_set r 0 s = dret s"
| "read_set r (Suc n) s = dbind r (\<lambda>x. read_set r n (os_insert x s))"

definition deser_set_with_limit :: "nat \<Rightarrow> nat option \<Rightarrow> 'a::linorder reader \<Rightarrow> 'a oset reader" where
  "deser_set_with_limit l limit r =
    dbind (deser_len l) (\<lambda>n. if exceeds limit n then dfail LimitExceeded else read_set r n [])"

definition deser_set :: "nat \<Rightarrow> 'a::linorder reader \<Rightarrow> 'a oset reader" where
  "deser_set l r = deser_set_with_limit l None r"

definition serialized_size_set :: "nat \<Rightarrow> ('a \<Rightarrow> nat) \<Rightarrow> 'a oset \<Rightarrow> (nat, 'e) result" where
  "serialized_size_set l n xs = rbind (size_len l (length xs)) (\<lambda>m. Inr (foldl (\<lambda>sz x. sz + n x) m xs))"

definition size_set :: "nat \<Rightarrow> ('a \<Rightarrow> nat) \<Rightarrow> 'a oset \<Rightarrow> nat" where
  "size_set l n xs = l + sum_list (map n xs)"

lemma serialized_size_set_eq: "serialized_size_set l n xs = (if length xs < 256 ^ l then Inr (size_set l n xs) else Inl Panic)"
  by (simp add: serialized_size_set_def size_len_def size_set_def foldl_sizes)

lemma om_insert_last: "\<forall>k' \<in> fst ` set m. k' < k \<Longrightarrow> om_insert k v m = m @ [(k, v)]"
  by (induction k v m rule: om_insert.induct) auto

lemma os_insert_last: "\<forall>y \<in> set s. y < x \<Longrightarrow> os_insert x s = s @ [x]"
  by (induction x s rule: os_insert.induct) auto

lemma encodes_read_map:
  assumes "om_inv (acc @ m)"
    and "\<And>k v. (k, v) \<in> set m \<Longrightarrow> encodes (sk k) rk k (nk k)"
    and "\<And>k v. (k, v) \<in> set m \<Longrightarrow> encodes (sv v) rv v (nv v)"
  shows "encodes (wseqs (concat (map (\<lambda>(k, v). [sk k, sv v]) m))) (read_map rk rv (length m) acc) (acc @ m)
    (sum_list (map (\<lambda>(k, v). nk k + nv v) m))"
  using assms
proof (induction m arbitrary: acc)
  case (Cons p m)
  obtain k v where p: "p = (k, v)" by (cases p)
  have "om_insert k v acc = acc @ [(k, v)]"
    using Cons.prems(1) p by (intro om_insert_last) (auto simp: om_inv_def sorted_wrt_append)
  moreover have "encodes (wseqs (concat (map (\<lambda>(k, v). [sk k, sv v]) m)))
      (read_map rk rv (length m) (acc @ [(k, v)])) ((acc @ [(k, v)]) @ m) (sum_list (map (\<lambda>(k, v). nk k + nv v) m))"
    using Cons.prems p by (intro Cons.IH) auto
  ultimately have "encodes (wseqs (sk k # sv v # concat (map (\<lambda>(k, v). [sk k, sv v]) m)))
      (read_map rk rv (Suc (length m)) acc) (acc @ p # m) (nk k + (nv v + sum_list (map (\<lambda>(k, v). nk k + nv v) m)))"
    unfolding read_map.simps
    by (intro encodes_wseqs_Cons [of "sk k" rk k "nk k"] encodes_wseqs_Cons [of "sv v" rv v "nv v"])
       (simp_all add: Cons.prems(2) [of k v] Cons.prems(3) [of k v] p del: wseqs.simps)
  then show ?case
    using p by (simp add: add.assoc del: wseqs.simps read_map.simps)
qed (simp add: encodes_ret)

lemma encodes_map:
  assumes "om_inv m" "length m < 256 ^ l"
    and "\<And>k v. (k, v) \<in> set m \<Longrightarrow> encodes (sk k) rk k (nk k)"
    and "\<And>k v. (k, v) \<in> set m \<Longrightarrow> encodes (sv v) rv v (nv v)"
  shows "encodes (ser_map l sk sv m) (deser_map l rk rv) m (size_map l nk nv m)"
  unfolding ser_map_def deser_map_def deser_map_with_limit_def exceeds_None if_False size_map_def
  by (rule encodes_wseqs_Cons [OF encodes_len [OF assms(2)]])
     (use encodes_read_map [of "[]" m sk rk nk sv rv nv, OF _ assms(3,4)] assms(1) in simp)

lemma encodes_read_set:
  assumes "os_inv (acc @ xs)" and "\<And>x. x \<in> set xs \<Longrightarrow> encodes (s x) r x (n x)"
  shows "encodes (wseqs (map s xs)) (read_set r (length xs) acc) (acc @ xs) (sum_list (map n xs))"
  using assms
proof (induction xs arbitrary: acc)
  case (Cons x xs)
  have "os_insert x acc = acc @ [x]"
    using Cons.prems(1) by (intro os_insert_last) (auto simp: os_inv_def sorted_wrt_append)
  moreover have "encodes (wseqs (map s xs)) (read_set r (length xs) (acc @ [x])) ((acc @ [x]) @ xs) (sum_list (map n xs))"
    using Cons.prems by (intro Cons.IH) auto
  ultimately have "encodes (wseqs (s x # map s xs)) (read_set r (Suc (length xs)) acc) (acc @ x # xs) (n x + sum_list (map n xs))"
    unfolding read_set.simps
    by (intro encodes_wseqs_Cons [of "s x" r x "n x"]) (simp_all add: Cons.prems(2) del: wseqs.simps)
  then show ?case
    by (simp del: wseqs.simps read_set.simps)
qed (simp add: encodes_ret)

lemma encodes_set:
  assumes "os_inv xs" "length xs < 256 ^ l" "\<And>x. x \<in> set xs \<Longrightarrow> encodes (s x) r x (n x)"
  shows "encodes (ser_set l s xs) (deser_set l r) xs (size_set l n xs)"
  unfolding ser_set_def deser_set_def deser_set_with_limit_def exceeds_None if_False size_set_def
  by (rule encodes_wseqs_Cons [OF encodes_len [OF assms(2)]])
     (use encodes_read_set [of "[]" xs s r n, OF _ assms(3)] assms(1) in simp)

section \<open>Fixed-size byte arrays\<close>

text \<open>The arrays that \<open>create_typed_array!\<close> and the key types wrap: written as they are, read with
  \<open>read_exact\<close>.\<close>

definition ser_array :: "bytes \<Rightarrow> written" where
  "ser_array bs = Inr bs"

definition deser_array :: "nat \<Rightarrow> bytes reader" where
  "deser_array n = read_exact n"

lemma encodes_array: "length bs = n \<Longrightarrow> encodes (ser_array bs) (deser_array n) bs n"
  by (simp add: ser_array_def deser_array_def encodes_read_exact)

end
