(* ===== verification/Uvar.thy ===== *)
theory Uvar
  imports Beserial
begin

text \<open>
  The variable-length integer \<open>uvar\<close> of \<open>beserial/src/types.rs\<close>: one to nine bytes, the number of leading
  ones of the first byte giving the number of bytes that follow.  Each length has its own offset, so
  that every value has exactly one encoding.  The reader lemmas \<open>uvar_read_n\<close> say what the reader makes
  of a first byte \<open>F\<close> of the \<open>n\<close>-byte form, the lemmas \<open>uvar_n\<close> that the writer produces that form.
\<close>

section \<open>Definitions\<close>

definition serialized_size_from_first_byte :: "u8 \<Rightarrow> nat" where
  "serialized_size_from_first_byte first_byte =
    (if first_byte = 0xFF then 9
     else if first_byte = 0xFE then 8
     else if first_byte AND 0xFC = 0xFC then 7
     else if first_byte AND 0xF8 = 0xF8 then 6
     else if first_byte AND 0xF0 = 0xF0 then 5
     else if first_byte AND 0xE0 = 0xE0 then 4
     else if first_byte AND 0xC0 = 0xC0 then 3
     else if first_byte AND 0x80 = 0x80 then 2
     else 1)"

definition size_uvar :: "u64 \<Rightarrow> nat" where
  "size_uvar v =
    (if v < 0x80 then 1
     else if v < 0x4080 then 2
     else if v < 0x00204080 then 3
     else if v < 0x10204080 then 4
     else if v < 0x000810204080 then 5
     else if v < 0x040810204080 then 6
     else if v < 0x0002040810204080 then 7
     else if v < 0x0102040810204080 then 8
     else 9)"

definition ser_uvar :: "u64 \<Rightarrow> written" where
  "ser_uvar v =
    (if v < 0x80 then ser_u8 (ucast v)
     else if v < 0x4080 then
       (let x = v - 0x80 in ser_u16 (ucast (x OR 0x8000)))
     else if v < 0x00204080 then
       (let x = v - 0x4080 in
        wseqs [ser_u16 (ucast (drop_bit 8 x OR 0xC000)), ser_u8 (ucast (x AND 0xFF))])
     else if v < 0x10204080 then
       (let x = v - 0x00204080 in ser_u32 (ucast (x OR 0xE0000000)))
     else if v < 0x000810204080 then
       (let x = v - 0x10204080 in
        wseqs [ser_u32 (ucast (drop_bit 8 x OR 0xF0000000)), ser_u8 (ucast (x AND 0xFF))])
     else if v < 0x040810204080 then
       (let x = v - 0x000810204080 in
        wseqs [ser_u32 (ucast (drop_bit 16 x OR 0xF8000000)), ser_u16 (ucast (x AND 0xFFFF))])
     else if v < 0x0002040810204080 then
       (let x = v - 0x040810204080 in
        wseqs [ser_u32 (ucast (drop_bit 24 x OR 0xFC000000)),
               ser_u16 (ucast (drop_bit 8 x AND 0xFFFF)), ser_u8 (ucast (x AND 0xFF))])
     else if v < 0x0102040810204080 then
       (let x = v - 0x0002040810204080 in ser_u64 (x OR 0xFE00000000000000))
     else
       (let x = v - 0x0102040810204080 in
        wseqs [ser_u64 (drop_bit 8 x OR 0xFF00000000000000), ser_u8 (ucast (x AND 0xFF))]))"

definition deser_uvar :: "u64 reader" where
  "deser_uvar = dbind deser_u8 (\<lambda>first_byte.
    if first_byte = 0xFF then
      dbind deser_u64 (\<lambda>byte_1_8.
        if byte_1_8 > - 1 - 0x0102040810204080 then dfail Overflow
        else dret (byte_1_8 + 0x0102040810204080))
    else if first_byte = 0xFE then
      dbind deser_u8 (\<lambda>byte_1. dbind deser_u16 (\<lambda>byte_2_3. dbind deser_u32 (\<lambda>byte_4_7.
        dret (push_bit 48 (ucast byte_1) + push_bit 32 (ucast byte_2_3) + ucast byte_4_7 + 0x0002040810204080))))
    else if first_byte AND 0xFC = 0xFC then
      dbind deser_u16 (\<lambda>byte_1_2. dbind deser_u32 (\<lambda>byte_3_6.
        dret (push_bit 48 (ucast first_byte AND 0x01) + push_bit 32 (ucast byte_1_2) + ucast byte_3_6 + 0x040810204080)))
    else if first_byte AND 0xF8 = 0xF8 then
      dbind deser_u8 (\<lambda>byte_1. dbind deser_u32 (\<lambda>byte_2_5.
        dret (push_bit 40 (ucast first_byte AND 0x03) + push_bit 32 (ucast byte_1) + ucast byte_2_5 + 0x000810204080)))
    else if first_byte AND 0xF0 = 0xF0 then
      dbind deser_u32 (\<lambda>byte_1_4.
        dret (push_bit 32 (ucast first_byte AND 0x07) + ucast byte_1_4 + 0x10204080))
    else if first_byte AND 0xE0 = 0xE0 then
      dbind deser_u8 (\<lambda>byte_1. dbind deser_u16 (\<lambda>byte_2_3.
        dret (push_bit 24 (ucast first_byte AND 0x0F) + push_bit 16 (ucast byte_1) + ucast byte_2_3 + 0x00204080)))
    else if first_byte AND 0xC0 = 0xC0 then
      dbind deser_u16 (\<lambda>byte_1_2.
        dret (push_bit 16 (ucast first_byte AND 0x1F) + ucast byte_1_2 + 0x4080))
    else if first_byte AND 0x80 = 0x80 then
      dbind deser_u8 (\<lambda>byte_1.
        dret (push_bit 8 (ucast first_byte AND 0x3F) + ucast byte_1 + 0x80))
    else dret (ucast first_byte))"

section \<open>Reading the nine forms\<close>

lemma be_bytes_append: "be_bytes (n + m) y = be_bytes n (y div 256 ^ m) @ be_bytes m y"
  by (induction m arbitrary: y) (simp_all add: div_mult2_eq)

lemma be_bytes_mod: "be_bytes n (y mod 256 ^ n) = be_bytes n y"
proof (induction n arbitrary: y)
  case (Suc n)
  have "y mod (256 * 256 ^ n) div 256 = y div 256 mod 256 ^ n"
    by (simp add: mod_mult2_eq)
  then show ?case
    by (simp add: Suc) (simp add: mod_mod_cancel)
qed simp

lemma deser_uint_be_bytes:
  "deser_uint n (be_bytes n y @ rest) = Inr (of_nat (y mod 256 ^ n), rest)"
  by (simp add: deser_uint_def dbind_def read_exact_def dret_def be_value_be_bytes)

lemma unat_or_disjoint:
  fixes x c :: "'n::len word"
  assumes "unat x < 2 ^ k" "unat c mod 2 ^ k = 0"
  shows "unat (x OR c) = unat x + unat c"
proof -
  have x: "take_bit k (unat x) = unat x" and c: "take_bit k (unat c) = 0"
    using assms by (simp_all add: take_bit_eq_mod)
  have "unat x OR unat c = unat x + unat c"
  proof (rule disjunctive_add [symmetric])
    fix n
    show "\<not> bit (unat x) n \<or> \<not> bit (unat c) n"
      by (metis x c bit_take_bit_iff bit_0_eq bot_apply bot_bool_def)
  qed
  then show ?thesis
    by (simp add: unsigned_or_eq)
qed

lemma deser_u8_be: "deser_u8 (be_bytes (Suc 0) y @ rest) = Inr (of_nat (y mod 256), rest)"
  by (simp add: deser_u8_def)

lemma and_high_bits: "(w :: u8) AND push_bit k (mask (8 - k)) = push_bit k (drop_bit k w)"
  by (rule bit_eqI) (auto simp: bit_simps)

lemma unat_high_bits: "unat (push_bit k (drop_bit k (w :: u8))) = unat w div 2 ^ k * 2 ^ k"
proof -
  have "unat w div 2 ^ k * 2 ^ k \<le> unat w"
    by (rule div_times_less_eq_dividend)
  moreover have w: "unat w < 256"
    using unsigned_less [of w] by simp
  ultimately have "unat w div 2 ^ k * 2 ^ k < 256"
    by (rule le_less_trans)
  with w show ?thesis
    by (simp only: unsigned_push_bit_eq unsigned_drop_bit_eq) (simp add: take_bit_eq_mod push_bit_eq_mult drop_bit_eq_div)
qed

lemma byte_mask_eq:
  assumes "n < 256" "push_bit k (mask (8 - k) :: u8) = c"
  shows "((of_nat n :: u8) AND c = c) = (n div 2 ^ k * 2 ^ k = unat c)"
  unfolding assms(2) [symmetric] and_high_bits word_unat_eq_iff unat_high_bits
  using assms(1) by simp

lemma byte_mask_facts:
  assumes "n < 256"
  shows "((of_nat n :: u8) AND 0xFC = 0xFC) = (252 \<le> n)"
    and "((of_nat n :: u8) AND 0xF8 = 0xF8) = (248 \<le> n)"
    and "((of_nat n :: u8) AND 0xF0 = 0xF0) = (240 \<le> n)"
    and "((of_nat n :: u8) AND 0xE0 = 0xE0) = (224 \<le> n)"
    and "((of_nat n :: u8) AND 0xC0 = 0xC0) = (192 \<le> n)"
    and "((of_nat n :: u8) AND 0x80 = 0x80) = (128 \<le> n)"
    and "((of_nat n :: u8) = 0xFF) = (n = 255)"
    and "((of_nat n :: u8) = 0xFE) = (n = 254)"
proof -
  have nat: "n div 4 = 63 \<longleftrightarrow> 252 \<le> n" "n div 8 = 31 \<longleftrightarrow> 248 \<le> n" "n div 16 = 15 \<longleftrightarrow> 240 \<le> n"
    "n div 32 = 7 \<longleftrightarrow> 224 \<le> n" "n div 64 = 3 \<longleftrightarrow> 192 \<le> n" "n div 128 = Suc 0 \<longleftrightarrow> 128 \<le> n"
    using assms by linarith+
  show "((of_nat n :: u8) AND 0xFC = 0xFC) = (252 \<le> n)"
    using byte_mask_eq [OF assms, of 2 "0xFC"] nat by (simp add: mask_eq_exp_minus_1 push_bit_eq_mult)
  show "((of_nat n :: u8) AND 0xF8 = 0xF8) = (248 \<le> n)"
    using byte_mask_eq [OF assms, of 3 "0xF8"] nat by (simp add: mask_eq_exp_minus_1 push_bit_eq_mult)
  show "((of_nat n :: u8) AND 0xF0 = 0xF0) = (240 \<le> n)"
    using byte_mask_eq [OF assms, of 4 "0xF0"] nat by (simp add: mask_eq_exp_minus_1 push_bit_eq_mult)
  show "((of_nat n :: u8) AND 0xE0 = 0xE0) = (224 \<le> n)"
    using byte_mask_eq [OF assms, of 5 "0xE0"] nat by (simp add: mask_eq_exp_minus_1 push_bit_eq_mult)
  show "((of_nat n :: u8) AND 0xC0 = 0xC0) = (192 \<le> n)"
    using byte_mask_eq [OF assms, of 6 "0xC0"] nat by (simp add: mask_eq_exp_minus_1 push_bit_eq_mult)
  show "((of_nat n :: u8) AND 0x80 = 0x80) = (128 \<le> n)"
    using byte_mask_eq [OF assms, of 7 "0x80"] nat by (simp add: mask_eq_exp_minus_1 push_bit_eq_mult)
  show "((of_nat n :: u8) = 0xFF) = (n = 255)" "((of_nat n :: u8) = 0xFE) = (n = 254)"
    using assms by (simp_all add: word_unat_eq_iff)
qed

lemma and_low_bits:
  "(of_nat n :: u64) AND 0x01 = of_nat (n mod 2)" "(of_nat n :: u64) AND 0x03 = of_nat (n mod 4)"
  "(of_nat n :: u64) AND 0x07 = of_nat (n mod 8)" "(of_nat n :: u64) AND 0x0F = of_nat (n mod 16)"
  "(of_nat n :: u64) AND 0x1F = of_nat (n mod 32)" "(of_nat n :: u64) AND 0x3F = of_nat (n mod 64)"
proof -
  have *: "(of_nat n :: u64) AND mask k = of_nat (n mod 2 ^ k)" for k
    by (simp add: take_bit_eq_mask [symmetric] take_bit_of_nat [symmetric] take_bit_eq_mod [symmetric])
  show "(of_nat n :: u64) AND 0x01 = of_nat (n mod 2)" "(of_nat n :: u64) AND 0x03 = of_nat (n mod 4)"
    "(of_nat n :: u64) AND 0x07 = of_nat (n mod 8)" "(of_nat n :: u64) AND 0x0F = of_nat (n mod 16)"
    "(of_nat n :: u64) AND 0x1F = of_nat (n mod 32)" "(of_nat n :: u64) AND 0x3F = of_nat (n mod 64)"
    using * [of 1] * [of 2] * [of 3] * [of 4] * [of 5] * [of 6] by (simp_all add: mask_eq_exp_minus_1)
qed

lemma ucast_of_nat_small: "n < 2 ^ LENGTH('n) \<Longrightarrow> ucast (of_nat n :: 'n::len word) = (of_nat n :: 'm::len word)"
  by (metis unat_of_nat_id of_nat_unat)

lemma push_bit_of_nat_u64: "push_bit k (of_nat a :: u64) = of_nat (a * 2 ^ k)"
  by (simp add: push_bit_eq_mult)

lemma deser_first:
  assumes "F < 256" "L < 256 ^ k"
  shows "deser_u8 (be_bytes (Suc k) (F * 256 ^ k + L) @ rest) = Inr (of_nat F, be_bytes k L @ rest)"
proof -
  have "be_bytes (Suc k) (F * 256 ^ k + L) = be_bytes (Suc 0) F @ be_bytes k (F * 256 ^ k + L)"
    using be_bytes_append [of "Suc 0" k "F * 256 ^ k + L"] assms by simp
  also have "be_bytes k (F * 256 ^ k + L) = be_bytes k L"
    using be_bytes_mod [of k "F * 256 ^ k + L"] be_bytes_mod [of k L] by simp
  finally show ?thesis
    using assms by (simp add: deser_u8_def)
qed

lemma deser_uint_whole: "L < 256 ^ n \<Longrightarrow> deser_uint n (be_bytes n L @ rest) = Inr (of_nat L, rest)"
  by (simp add: deser_uint_be_bytes)

lemma deser_uint_piece:
  assumes "L < 256 ^ (n + m)"
  shows "deser_uint n (be_bytes (n + m) L @ rest) = Inr (of_nat (L div 256 ^ m), be_bytes m (L mod 256 ^ m) @ rest)"
proof -
  have "L div 256 ^ m < 256 ^ n"
    using assms by (simp add: less_mult_imp_div_less power_add)
  then show ?thesis
    by (simp add: be_bytes_append deser_uint_be_bytes be_bytes_mod del: be_bytes.simps)
qed

lemma deser_u8_piece:
  assumes "L < 256 ^ Suc m"
  shows "deser_u8 (be_bytes (Suc m) L @ rest) = Inr (of_nat (L div 256 ^ m), be_bytes m (L mod 256 ^ m) @ rest)"
proof -
  have "L div 256 ^ m < 256"
    using assms by (simp add: less_mult_imp_div_less)
  then show ?thesis
    using deser_first [of "L div 256 ^ m" "L mod 256 ^ m" m rest] by (simp only: div_mult_mod_eq) simp
qed

lemmas uvar_read = deser_uvar_def dbind_def dret_def byte_mask_facts and_low_bits push_bit_of_nat_u64 ucast_of_nat_small
  deser_u16_def deser_u32_def deser_u64_def


lemma uvar_read_2:
  assumes "128 \<le> F" "F < 192" "F mod 64 = T" "L < 256"
  shows "deser_uvar (be_bytes 2 (F * 256 + L) @ rest) = Inr (of_nat (T * 256 + L + 0x80), rest)"
  using assms deser_first [of F L 1 rest] deser_u8_piece [of L 0 rest]
  by (simp add: uvar_read numeral_2_eq_2 del: be_bytes.simps(2))

lemma uvar_read_4:
  assumes "224 \<le> F" "F < 240" "F mod 16 = T" "L < 256 ^ 3"
  shows "deser_uvar (be_bytes 4 (F * 256 ^ 3 + L) @ rest) = Inr (of_nat (T * 256 ^ 3 + L + 0x204080), rest)"
proof -
  have "deser_uvar (be_bytes 4 (F * 256 ^ 3 + L) @ rest) =
    Inr (of_nat (T * 2 ^ 24) + of_nat (L div 65536 * 2 ^ 16) + of_nat (L mod 65536) + 0x204080, rest)"
    using assms deser_first [of F L 3 rest] deser_u8_piece [of L 2 rest] 
      deser_uint_whole[where 'a=16, of "L mod 65536" 2 rest] 
    by (simp add: uvar_read del: be_bytes.simps of_nat_add of_nat_mult) 
  moreover have "of_nat (T * 2 ^ 24) + of_nat (L div 65536 * 2 ^ 16) + of_nat (L mod 65536) + 0x204080 = (of_nat (T * 2 ^ 24 + (L div 65536 * 2 ^ 16 + L mod 65536) + 0x204080) :: u64)"
    by (simp only: of_nat_add of_nat_numeral add.assoc)
  ultimately show ?thesis by (simp del: of_nat_add of_nat_mult)
qed

lemma uvar_read_3:
  assumes "192 \<le> F" "F < 224" "F mod 32 = T" "L < 256 ^ 2"
  shows "deser_uvar (be_bytes 3 (F * 256 ^ 2 + L) @ rest) = Inr (of_nat (T * 256 ^ 2 + L + 0x4080), rest)"
  using assms deser_first [of F L 2 rest] deser_uint_whole [where 'a = 16, of L 2 rest]
  by (simp add: uvar_read eval_nat_numeral(3) [of "num.Bit1 num.One"] del: be_bytes.simps)

lemma uvar_read_5:
  assumes "240 \<le> F" "F < 248" "F mod 8 = T" "L < 256 ^ 4"
  shows "deser_uvar (be_bytes 5 (F * 256 ^ 4 + L) @ rest) = Inr (of_nat (T * 256 ^ 4 + L + 0x10204080), rest)"
  using assms deser_first [of F L 4 rest] deser_uint_whole [where 'a = 32, of L 4 rest]
  by (simp add: uvar_read del: be_bytes.simps)

lemma uvar_read_6:
  assumes "248 \<le> F" "F < 252" "F mod 4 = T" "L < 256 ^ 5"
  shows "deser_uvar (be_bytes 6 (F * 256 ^ 5 + L) @ rest) = Inr (of_nat (T * 256 ^ 5 + L + 0x0810204080), rest)"
proof -
  have "deser_uvar (be_bytes 6 (F * 256 ^ 5 + L) @ rest) =
    Inr (of_nat (T * 2 ^ 40) + of_nat (L div 256 ^ 4 * 2 ^ 32) + of_nat (L mod 256 ^ 4) + 0x0810204080, rest)"
    using assms deser_first [of F L 5 rest] deser_u8_piece [of L 4 rest]
      deser_uint_whole [where 'a = 32, of "L mod 256 ^ 4" 4 rest]
    by (simp add: uvar_read del: be_bytes.simps of_nat_add of_nat_mult)
  also have "\<dots> = Inr (of_nat (T * 2 ^ 40 + (L div 256 ^ 4 * 256 ^ 4 + L mod 256 ^ 4) + 0x0810204080), rest)"
    by (simp only: of_nat_add of_nat_numeral add.assoc) simp
  finally show ?thesis
    by (simp del: of_nat_add of_nat_mult)
qed

lemma uvar_read_7:
  assumes "252 \<le> F" "F < 254" "F mod 2 = T" "L < 256 ^ 6"
  shows "deser_uvar (be_bytes 7 (F * 256 ^ 6 + L) @ rest) = Inr (of_nat (T * 256 ^ 6 + L + 0x040810204080), rest)"
proof -
  have "deser_uvar (be_bytes 7 (F * 256 ^ 6 + L) @ rest) =
    Inr (of_nat (T * 2 ^ 48) + of_nat (L div 256 ^ 4 * 2 ^ 32) + of_nat (L mod 256 ^ 4) + 0x040810204080, rest)"
    using assms deser_first [of F L 6 rest] deser_uint_piece [where 'a = 16, of L 2 4 rest]
      deser_uint_whole [where 'a = 32, of "L mod 256 ^ 4" 4 rest]
    by (simp add: uvar_read del: be_bytes.simps of_nat_add of_nat_mult)
  also have "\<dots> = Inr (of_nat (T * 2 ^ 48 + (L div 256 ^ 4 * 256 ^ 4 + L mod 256 ^ 4) + 0x040810204080), rest)"
    by (simp only: of_nat_add of_nat_numeral add.assoc) simp
  finally show ?thesis
    by (simp del: of_nat_add of_nat_mult)
qed

lemma uvar_read_9:
  assumes "L < 256 ^ 8 - 0x0102040810204080"
  shows "deser_uvar (be_bytes 9 (255 * 256 ^ 8 + L) @ rest) = Inr (of_nat (L + 0x0102040810204080), rest)"
  using assms deser_first [of 255 L 8 rest] deser_uint_whole [where 'a = 64, of L 8 rest]
  by (simp add: uvar_read word_less_nat_alt del: be_bytes.simps)

lemma uvar_read_8:
  assumes "L < 256 ^ 7"
  shows "deser_uvar (be_bytes 8 (254 * 256 ^ 7 + L) @ rest) = Inr (of_nat (L + 0x02040810204080), rest)"
proof -
  have *: "L mod 256 ^ 6 < 256 ^ 6" "L mod 256 ^ 6 mod 256 ^ 4 = L mod 256 ^ 4"
    by (simp_all add: mod_mod_cancel)
  have "deser_uvar (be_bytes 8 (254 * 256 ^ 7 + L) @ rest) =
    Inr (of_nat (L div 256 ^ 6 * 2 ^ 48) + of_nat (L mod 256 ^ 6 div 256 ^ 4 * 2 ^ 32) + of_nat (L mod 256 ^ 4) + 0x02040810204080, rest)"
    using assms * deser_first [of 254 L 7 rest] deser_u8_piece [of L 6 rest] deser_uint_piece [where 'a = 16, of "L mod 256 ^ 6" 2 4 rest]
      deser_uint_whole [where 'a = 32, of "L mod 256 ^ 4" 4 rest]
    by (simp add: uvar_read del: be_bytes.simps of_nat_add of_nat_mult)
  also have "\<dots> = Inr (of_nat (L div 256 ^ 6 * 2 ^ 48 + (L mod 256 ^ 6 div 256 ^ 4 * 2 ^ 32 + L mod 256 ^ 4) + 0x02040810204080), rest)"
    by (simp only: of_nat_add of_nat_numeral add.assoc)
  also have "L mod 256 ^ 6 div 256 ^ 4 * 2 ^ 32 + L mod 256 ^ 4 = L mod 256 ^ 6"
    by (simp only: *(2) [symmetric]) simp
  finally show ?thesis
    by (simp del: of_nat_add of_nat_mult)
qed

section \<open>Writing the nine forms\<close>

lemma unat_u64_less: "unat (x :: u64) < 18446744073709551616"
  using unsigned_less [of x] by simp

lemma be_bytes_join: "be_bytes n (y div 256 ^ m) @ be_bytes m (y mod 256 ^ m) = be_bytes (n + m) y"
  by (simp add: be_bytes_append be_bytes_mod)

lemma be_bytes_join_high:
  "be_bytes n (X div 256 ^ m + c) @ be_bytes m (X mod 256 ^ m) = be_bytes (n + m) (c * 256 ^ m + X)"
  using be_bytes_join [of n "c * 256 ^ m + X" m] by (simp add: add.commute)

lemma be_bytes_join_3: "be_bytes 2 (X div 256 mod 65536) @ be_bytes 1 (X mod 256) = be_bytes 3 (X mod 16777216)"
proof -
  have "X mod 16777216 div 256 = X div 256 mod 65536" "X mod 16777216 mod 256 = X mod 256"
    using mod_mult2_eq [of X 256 65536] by (simp_all add: mod_mod_cancel)
  then show ?thesis
    using be_bytes_join [of 2 "X mod 16777216" 1] by (simp del: be_bytes.simps)
qed

lemma unat_ucast_or:
  fixes x c :: u64
  assumes "unat x < 2 ^ k" "unat c mod 2 ^ k = 0" "unat x + unat c < 2 ^ LENGTH('m)"
  shows "unat (ucast (x OR c) :: 'm::len word) = unat x + unat c"
  using assms unat_or_disjoint [OF assms(1,2)] by (simp add: unsigned_ucast_eq take_bit_eq_mod)

lemma unat_drop_bit_div: "unat (drop_bit k (x :: u64)) = unat x div 2 ^ k"
  using unat_u64_less [of x] by (simp only: unsigned_drop_bit_eq) (simp add: drop_bit_eq_div take_bit_eq_mod)

lemma ser_u8_low: "ser_u8 (ucast ((x :: u64) AND 0xFF)) = Inr (be_bytes 1 (unat x mod 256))"
proof -
  have "x AND 0xFF = of_nat (unat x mod 256)"
    using take_bit_eq_mask [of 8 x] by (simp add: mask_eq_exp_minus_1 take_bit_eq_mod word_unat_eq_iff unat_mod)
  then show ?thesis
    by (simp add: ser_u8_def ucast_of_nat_small)
qed

lemma unat_low_u16: "unat (ucast ((x :: u64) AND 0xFFFF) :: u16) = unat x mod 65536"
proof -
  have "x AND 0xFFFF = of_nat (unat x mod 65536)"
    using take_bit_eq_mask [of 16 x] by (simp add: mask_eq_exp_minus_1 take_bit_eq_mod word_unat_eq_iff unat_mod)
  then show ?thesis
    by (simp add: ucast_of_nat_small)
qed

lemma unat_diff_le: "(c :: u64) \<le> v \<Longrightarrow> unat (v - c) = unat v - unat c"
  by (simp add: unat_sub_if' word_le_nat_alt)

lemma uvar_2:
  assumes "128 \<le> v" "v < 16512"
  shows "encodes (ser_uvar v) deser_uvar v 2"
proof -
  define X where "X = unat v - 128"
  have v: "unat v = X + 128" and bound: "X < 16384"
    using assms unat_u64_less [of v] by (simp_all add: X_def word_le_nat_alt word_less_nat_alt)
  have x: "unat (v - 128) = X"
    using v by (simp add: unat_diff_le word_le_nat_alt)
  have nl: "\<not> v < 128"
    using assms(1) by (simp_all add: word_le_nat_alt word_less_nat_alt)
  have ser: "ser_uvar v = Inr (be_bytes 2 (128 * 256 ^ 1 + X))"
    using assms bound x unat_ucast_or [where 'm = 16, of "v - 128" 14 32768]
      be_bytes_join_high [of 2 X 0 32768]
    by (simp add: ser_uvar_def Let_def nl wseq_def ser_u16_def ser_u32_def ser_u64_def ser_uint_def
      ser_u8_low unat_low_u16 unat_drop_bit_div add.commute [of X 32768] del: be_bytes.simps)
  have "X div 256 ^ 1 < 64" "(128 + X div 256 ^ 1) mod 64 = X div 256 ^ 1 mod 64"
    using bound mod_mult_self3 [of 2 64 "X div 256 ^ 1"] by simp_all
  then have "deser_uvar (be_bytes 2 (128 * 256 ^ 1 + X) @ rest) = Inr (v, rest)" for rest
    using bound v uvar_read_2 [of "128 + X div 256 ^ 1" "X div 256 ^ 1" "X mod 256 ^ 1" rest]
    by (simp add: v [symmetric] add.commute [of X 32768] del: be_bytes.simps of_nat_add)
  with ser show ?thesis
    by (simp add: encodes_def)
qed

lemma uvar_3:
  assumes "16512 \<le> v" "v < 2113664"
  shows "encodes (ser_uvar v) deser_uvar v 3"
proof -
  define X where "X = unat v - 16512"
  have v: "unat v = X + 16512" and bound: "X < 2097152"
    using assms unat_u64_less [of v] by (simp_all add: X_def word_le_nat_alt word_less_nat_alt)
  have x: "unat (v - 16512) = X"
    using v by (simp add: unat_diff_le word_le_nat_alt)
  have nl: "\<not> v < 128" "\<not> v < 16512"
    using assms(1) by (simp_all add: word_le_nat_alt word_less_nat_alt)
  have ser: "ser_uvar v = Inr (be_bytes 3 (192 * 256 ^ 2 + X))"
    using assms bound x unat_ucast_or [where 'm = 16, of "drop_bit 8 (v - 16512)" 13 49152]
      be_bytes_join_high [of 2 X 1 49152]
    by (simp add: ser_uvar_def Let_def nl wseq_def ser_u16_def ser_u32_def ser_u64_def ser_uint_def
      ser_u8_low unat_low_u16 unat_drop_bit_div add.commute [of X 12582912] del: be_bytes.simps)
  have "X div 256 ^ 2 < 32" "(192 + X div 256 ^ 2) mod 32 = X div 256 ^ 2 mod 32"
    using bound mod_mult_self3 [of 6 32 "X div 256 ^ 2"] by simp_all
  then have "deser_uvar (be_bytes 3 (192 * 256 ^ 2 + X) @ rest) = Inr (v, rest)" for rest
    using bound v uvar_read_3 [of "192 + X div 256 ^ 2" "X div 256 ^ 2" "X mod 256 ^ 2" rest]
    by (simp add: v [symmetric] add.commute [of X 12582912] del: be_bytes.simps of_nat_add)
  with ser show ?thesis
    by (simp add: encodes_def)
qed

lemma uvar_4:
  assumes "2113664 \<le> v" "v < 270549120"
  shows "encodes (ser_uvar v) deser_uvar v 4"
proof -
  define X where "X = unat v - 2113664"
  have v: "unat v = X + 2113664" and bound: "X < 268435456"
    using assms unat_u64_less [of v] by (simp_all add: X_def word_le_nat_alt word_less_nat_alt)
  have x: "unat (v - 2113664) = X"
    using v by (simp add: unat_diff_le word_le_nat_alt)
  have nl: "\<not> v < 128" "\<not> v < 16512" "\<not> v < 2113664"
    using assms(1) by (simp_all add: word_le_nat_alt word_less_nat_alt)
  have ser: "ser_uvar v = Inr (be_bytes 4 (224 * 256 ^ 3 + X))"
    using assms bound x unat_ucast_or [where 'm = 32, of "v - 2113664" 28 3758096384]
      be_bytes_join_high [of 4 X 0 3758096384]
    by (simp add: ser_uvar_def Let_def nl wseq_def ser_u16_def ser_u32_def ser_u64_def ser_uint_def
      ser_u8_low unat_low_u16 unat_drop_bit_div add.commute [of X 3758096384] del: be_bytes.simps)
  have "X div 256 ^ 3 < 16" "(224 + X div 256 ^ 3) mod 16 = X div 256 ^ 3 mod 16"
    using bound mod_mult_self3 [of 14 16 "X div 256 ^ 3"] by simp_all
  then have "deser_uvar (be_bytes 4 (224 * 256 ^ 3 + X) @ rest) = Inr (v, rest)" for rest
    using bound v uvar_read_4 [of "224 + X div 256 ^ 3" "X div 256 ^ 3" "X mod 256 ^ 3" rest]
    by (simp add: v [symmetric] add.commute [of X 3758096384] del: be_bytes.simps of_nat_add)
  with ser show ?thesis
    by (simp add: encodes_def)
qed

lemma uvar_5:
  assumes "270549120 \<le> v" "v < 34630287488"
  shows "encodes (ser_uvar v) deser_uvar v 5"
proof -
  define X where "X = unat v - 270549120"
  have v: "unat v = X + 270549120" and bound: "X < 34359738368"
    using assms unat_u64_less [of v] by (simp_all add: X_def word_le_nat_alt word_less_nat_alt)
  have x: "unat (v - 270549120) = X"
    using v by (simp add: unat_diff_le word_le_nat_alt)
  have nl: "\<not> v < 128" "\<not> v < 16512" "\<not> v < 2113664" "\<not> v < 270549120"
    using assms(1) by (simp_all add: word_le_nat_alt word_less_nat_alt)
  have ser: "ser_uvar v = Inr (be_bytes 5 (240 * 256 ^ 4 + X))"
    using assms bound x unat_ucast_or [where 'm = 32, of "drop_bit 8 (v - 270549120)" 27 4026531840]
      be_bytes_join_high [of 4 X 1 4026531840]
    by (simp add: ser_uvar_def Let_def nl wseq_def ser_u16_def ser_u32_def ser_u64_def ser_uint_def
      ser_u8_low unat_low_u16 unat_drop_bit_div add.commute [of X 1030792151040] del: be_bytes.simps)
  have "X div 256 ^ 4 < 8" "(240 + X div 256 ^ 4) mod 8 = X div 256 ^ 4 mod 8"
    using bound mod_mult_self3 [of 30 8 "X div 256 ^ 4"] by simp_all
  then have "deser_uvar (be_bytes 5 (240 * 256 ^ 4 + X) @ rest) = Inr (v, rest)" for rest
    using bound v uvar_read_5 [of "240 + X div 256 ^ 4" "X div 256 ^ 4" "X mod 256 ^ 4" rest]
    by (simp add: v [symmetric] add.commute [of X 1030792151040] del: be_bytes.simps of_nat_add)
  with ser show ?thesis
    by (simp add: encodes_def)
qed

lemma uvar_6:
  assumes "34630287488 \<le> v" "v < 4432676798592"
  shows "encodes (ser_uvar v) deser_uvar v 6"
proof -
  define X where "X = unat v - 34630287488"
  have v: "unat v = X + 34630287488" and bound: "X < 4398046511104"
    using assms unat_u64_less [of v] by (simp_all add: X_def word_le_nat_alt word_less_nat_alt)
  have x: "unat (v - 34630287488) = X"
    using v by (simp add: unat_diff_le word_le_nat_alt)
  have nl: "\<not> v < 128" "\<not> v < 16512" "\<not> v < 2113664" "\<not> v < 270549120" "\<not> v < 34630287488"
    using assms(1) by (simp_all add: word_le_nat_alt word_less_nat_alt)
  have ser: "ser_uvar v = Inr (be_bytes 6 (248 * 256 ^ 5 + X))"
    using assms bound x unat_ucast_or [where 'm = 32, of "drop_bit 16 (v - 34630287488)" 26 4160749568]
      be_bytes_join_high [of 4 X 2 4160749568]
    by (simp add: ser_uvar_def Let_def nl wseq_def ser_u16_def ser_u32_def ser_u64_def ser_uint_def
      ser_u8_low unat_low_u16 unat_drop_bit_div add.commute [of X 272678883688448] del: be_bytes.simps)
  have "X div 256 ^ 5 < 4" "(248 + X div 256 ^ 5) mod 4 = X div 256 ^ 5 mod 4"
    using bound mod_mult_self3 [of 62 4 "X div 256 ^ 5"] by simp_all
  then have "deser_uvar (be_bytes 6 (248 * 256 ^ 5 + X) @ rest) = Inr (v, rest)" for rest
    using bound v uvar_read_6 [of "248 + X div 256 ^ 5" "X div 256 ^ 5" "X mod 256 ^ 5" rest]
    by (simp add: v [symmetric] add.commute [of X 272678883688448] del: be_bytes.simps of_nat_add)
  with ser show ?thesis
    by (simp add: encodes_def)
qed

lemma uvar_7:
  assumes "4432676798592 \<le> v" "v < 567382630219904"
  shows "encodes (ser_uvar v) deser_uvar v 7"
proof -
  define X where "X = unat v - 4432676798592"
  have v: "unat v = X + 4432676798592" and bound: "X < 562949953421312"
    using assms unat_u64_less [of v] by (simp_all add: X_def word_le_nat_alt word_less_nat_alt)
  have x: "unat (v - 4432676798592) = X"
    using v by (simp add: unat_diff_le word_le_nat_alt)
  have nl: "\<not> v < 128" "\<not> v < 16512" "\<not> v < 2113664" "\<not> v < 270549120" "\<not> v < 34630287488" "\<not> v < 4432676798592"
    using assms(1) by (simp_all add: word_le_nat_alt word_less_nat_alt)
  have ser: "ser_uvar v = Inr (be_bytes 7 (252 * 256 ^ 6 + X))"
    using assms bound x unat_ucast_or [where 'm = 32, of "drop_bit 24 (v - 4432676798592)" 25 4227858432]
      be_bytes_join_high [of 4 X 3 4227858432] be_bytes_join_3 [of X]
    by (simp add: ser_uvar_def Let_def nl wseq_def ser_u16_def ser_u32_def ser_u64_def ser_uint_def
      ser_u8_low unat_low_u16 unat_drop_bit_div add.commute [of X 70931694131085312] del: be_bytes.simps)
  have "X div 256 ^ 6 < 2" "(252 + X div 256 ^ 6) mod 2 = X div 256 ^ 6 mod 2"
    using bound mod_mult_self3 [of 126 2 "X div 256 ^ 6"] by simp_all
  then have "deser_uvar (be_bytes 7 (252 * 256 ^ 6 + X) @ rest) = Inr (v, rest)" for rest
    using bound v uvar_read_7 [of "252 + X div 256 ^ 6" "X div 256 ^ 6" "X mod 256 ^ 6" rest]
    by (simp add: v [symmetric] add.commute [of X 70931694131085312] del: be_bytes.simps of_nat_add)
  with ser show ?thesis
    by (simp add: encodes_def)
qed

lemma uvar_8:
  assumes "567382630219904 \<le> v" "v < 72624976668147840"
  shows "encodes (ser_uvar v) deser_uvar v 8"
proof -
  define X where "X = unat v - 567382630219904"
  have v: "unat v = X + 567382630219904" and bound: "X < 72057594037927936"
    using assms unat_u64_less [of v] by (simp_all add: X_def word_le_nat_alt word_less_nat_alt)
  have x: "unat (v - 567382630219904) = X"
    using v by (simp add: unat_diff_le word_le_nat_alt)
  have nl: "\<not> v < 128" "\<not> v < 16512" "\<not> v < 2113664" "\<not> v < 270549120" "\<not> v < 34630287488" "\<not> v < 4432676798592" "\<not> v < 567382630219904"
    using assms(1) by (simp_all add: word_le_nat_alt word_less_nat_alt)
  have ser: "ser_uvar v = Inr (be_bytes 8 (254 * 256 ^ 7 + X))"
    using assms bound x unat_or_disjoint [of "v - 567382630219904" 56 18302628885633695744]
      be_bytes_join_high [of 8 X 0 18302628885633695744]
    by (simp add: ser_uvar_def Let_def nl wseq_def ser_u16_def ser_u32_def ser_u64_def ser_uint_def
      ser_u8_low unat_low_u16 unat_drop_bit_div add.commute [of X 18302628885633695744] del: be_bytes.simps)
  have "deser_uvar (be_bytes 8 (254 * 256 ^ 7 + X) @ rest) = Inr (v, rest)" for rest
    using bound v uvar_read_8 [of X rest]
    by (simp add: v [symmetric] add.commute [of X 18302628885633695744] del: be_bytes.simps of_nat_add)
  with ser show ?thesis
    by (simp add: encodes_def)
qed

lemma uvar_9:
  assumes "72624976668147840 \<le> v"
  shows "encodes (ser_uvar v) deser_uvar v 9"
proof -
  define X where "X = unat v - 72624976668147840"
  have v: "unat v = X + 72624976668147840" and bound: "X < 18374119097041403776"
    using assms unat_u64_less [of v] by (simp_all add: X_def word_le_nat_alt word_less_nat_alt)
  have x: "unat (v - 72624976668147840) = X"
    using v by (simp add: unat_diff_le word_le_nat_alt)
  have nl: "\<not> v < 128" "\<not> v < 16512" "\<not> v < 2113664" "\<not> v < 270549120" "\<not> v < 34630287488" "\<not> v < 4432676798592" "\<not> v < 567382630219904" "\<not> v < 72624976668147840"
    using assms(1) by (simp_all add: word_le_nat_alt word_less_nat_alt)
  have ser: "ser_uvar v = Inr (be_bytes 9 (255 * 256 ^ 8 + X))"
    using assms bound x unat_or_disjoint [of "drop_bit 8 (v - 72624976668147840)" 56 18374686479671623680]
      be_bytes_join_high [of 8 X 1 18374686479671623680]
    by (simp add: ser_uvar_def Let_def nl wseq_def ser_u16_def ser_u32_def ser_u64_def ser_uint_def
      ser_u8_low unat_low_u16 unat_drop_bit_div add.commute [of X 4703919738795935662080] del: be_bytes.simps)
  have "deser_uvar (be_bytes 9 (255 * 256 ^ 8 + X) @ rest) = Inr (v, rest)" for rest
    using bound v uvar_read_9 [of X rest]
    by (simp add: v [symmetric] add.commute [of X 4703919738795935662080] del: be_bytes.simps of_nat_add)
  with ser show ?thesis
    by (simp add: encodes_def)
qed

lemma uvar_1: "v < 0x80 \<Longrightarrow> encodes (ser_uvar v) deser_uvar v 1"
proof -
  assume "v < 0x80"
  then have v: "unat v < 128"
    by (simp add: word_less_nat_alt)
  have "(ucast v :: u8) = of_nat (unat v)"
    by simp
  moreover have "ucast (ucast v :: u8) = v"
    using v by (simp add: word_unat_eq_iff unsigned_ucast_eq take_bit_eq_mod unat_mod)
  ultimately show ?thesis
    using v \<open>v < 0x80\<close> byte_mask_facts [of "unat v"]
    by (simp add: encodes_def ser_uvar_def ser_u8_def deser_uvar_def dbind_def dret_def deser_u8_def ucast_of_nat_small)
qed

interpretation uvar: codec ser_uvar deser_uvar size_uvar "\<lambda>_. True"
proof
  fix v :: u64
  show "encodes (ser_uvar v) deser_uvar v (size_uvar v)"
    using uvar_1 [of v] uvar_2 [of v] uvar_3 [of v] uvar_4 [of v] uvar_5 [of v] uvar_6 [of v]
      uvar_7 [of v] uvar_8 [of v] uvar_9 [of v]
    by (simp add: size_uvar_def not_less)
qed

text \<open>The reader consumes exactly what the first byte announces.\<close>

lemma deser_uint_consumes: "deser_uint n bs = Inr (x, rest) \<Longrightarrow> length bs = n + length rest"
  by (auto simp: deser_uint_def dbind_def read_exact_def dret_def split: if_splits)

lemma deser_uvar_consumes:
  "deser_uvar bs = Inr (v, rest) \<Longrightarrow>
    bs \<noteq> [] \<and> length bs = serialized_size_from_first_byte (hd bs) + length rest"
  by (cases bs)
    (auto simp: deser_uvar_def serialized_size_from_first_byte_def dbind_def dret_def dfail_def deser_u8_def
        deser_u16_def deser_u32_def deser_u64_def dest!: deser_uint_consumes split: if_splits sum.splits list.splits)

lemma ser_uvar_first_byte: "ser_uvar v = Inr bs \<Longrightarrow> size_uvar v = serialized_size_from_first_byte (hd bs)"
  using uvar.encoded [of v] deser_uvar_consumes [of bs v "[]"] by (auto simp: encodes_def dest: spec [of _ "[]"])

text \<open>C23: Every 64-bit number has a variable-length encoding, its length is the announced size and can be told from its
  first byte, and reading it back from any input that starts with it gives the number and leaves the rest.\<close>

theorem uvar_wire_roundtrip:
  "\<exists>bs. ser_uvar v = Inr bs \<and> length bs = size_uvar v \<and> size_uvar v = serialized_size_from_first_byte (hd bs) \<and>
    deser_uvar (bs @ rest) = Inr (v, rest)"
  using uvar.encoded [of v] ser_uvar_first_byte [of v] by (auto simp: encodes_def)

end
