(* ===== verification/Coin.thy ===== *)
theory Coin
  imports Beserial
begin

text \<open>
  Amounts of coins (\<open>primitives/src/coin.rs\<close>): a 64-bit number of Lunas, with checked operations that
  stay within JavaScript's safe integers, plain operations that do not check, the wire format, and the
  textual form.  \<open>val\<close> reads an amount as a natural number; the lemmas \<open>coin_checked_add_Some\<close> and
  its companions turn every checked operation into an equation on naturals, which is how the account
  theories use them.  The regular expression of \<open>FromStr\<close> is run by a third-party engine: the captures
  it returns are an argument of \<open>coin_from_str\<close>.
\<close>

section \<open>Amounts\<close>

datatype coin = Coin (lunas: u64)

definition coin_ZERO :: coin where "coin_ZERO = Coin 0"
definition LUNAS_PER_COIN :: u64 where "LUNAS_PER_COIN = 100000"
definition FRAC_DIGITS :: u32 where "FRAC_DIGITS = 5"
definition MAX_SAFE_VALUE :: u64 where "MAX_SAFE_VALUE = 9007199254740991"

definition from_u64_unchecked :: "u64 \<Rightarrow> coin" where
  "from_u64_unchecked v = Coin v"

definition coin_is_zero :: "coin \<Rightarrow> bool" where
  "coin_is_zero c \<longleftrightarrow> lunas c = 0"

datatype coin_convert_error = CoinConvertError u64

definition coin_try_from :: "u64 \<Rightarrow> (coin, coin_convert_error) result" where
  "coin_try_from v = (if v \<le> MAX_SAFE_VALUE then Inr (Coin v) else Inl (Err (CoinConvertError v)))"

text \<open>\<open>Result::ok\<close>.\<close>

definition result_ok :: "('a, 'e) result \<Rightarrow> 'a option" where
  "result_ok r = (case r of Inl _ \<Rightarrow> None | Inr x \<Rightarrow> Some x)"

definition coin_checked_add :: "coin \<Rightarrow> coin \<Rightarrow> coin option" where
  "coin_checked_add a b = (case word_checked_add (lunas a) (lunas b) of
     Some v \<Rightarrow> result_ok (coin_try_from v) | None \<Rightarrow> None)"

definition coin_checked_sub :: "coin \<Rightarrow> coin \<Rightarrow> coin option" where
  "coin_checked_sub a b = (case word_checked_sub (lunas a) (lunas b) of
     Some v \<Rightarrow> result_ok (coin_try_from v) | None \<Rightarrow> None)"

definition coin_checked_mul :: "coin \<Rightarrow> u64 \<Rightarrow> coin option" where
  "coin_checked_mul a n = (case word_checked_mul (lunas a) n of
     Some v \<Rightarrow> result_ok (coin_try_from v) | None \<Rightarrow> None)"

definition coin_add :: "coin \<Rightarrow> coin \<Rightarrow> coin" where
  "coin_add a b = Coin (lunas a + lunas b)"

definition coin_sub :: "coin \<Rightarrow> coin \<Rightarrow> coin" where
  "coin_sub a b = Coin (lunas a - lunas b)"

text \<open>Division by zero panics.\<close>

definition coin_div :: "coin \<Rightarrow> u64 \<Rightarrow> (coin, 'e) result" where
  "coin_div a n = (if n = 0 then Inl Panic else Inr (Coin (lunas a div n)))"

definition coin_rem :: "coin \<Rightarrow> u64 \<Rightarrow> (coin, 'e) result" where
  "coin_rem a n = (if n = 0 then Inl Panic else Inr (Coin (lunas a mod n)))"

definition coin_sum :: "coin list \<Rightarrow> coin" where
  "coin_sum cs = foldl coin_add coin_ZERO cs"

instantiation coin :: linorder
begin

definition less_eq_coin :: "coin \<Rightarrow> coin \<Rightarrow> bool" where
  "less_eq_coin a b \<longleftrightarrow> lunas a \<le> lunas b"

definition less_coin :: "coin \<Rightarrow> coin \<Rightarrow> bool" where
  "less_coin a b \<longleftrightarrow> lunas a < lunas b"

instance
  by standard (auto simp: less_eq_coin_def less_coin_def coin.expand)

end

section \<open>Wire format\<close>

definition ser_coin :: "coin \<Rightarrow> written" where
  "ser_coin c = (if lunas c \<le> MAX_SAFE_VALUE then ser_u64 (lunas c) else Inl (Err Overflow))"

definition deser_coin :: "coin reader" where
  "deser_coin = dbind deser_u64 (\<lambda>v. if v \<le> MAX_SAFE_VALUE then dret (Coin v) else dfail (IoError InvalidData))"

section \<open>Textual form\<close>

text \<open>Decimal digits of a number, most significant first, as \<open>{}\<close> prints an unsigned integer; \<open>{:05}\<close>
  pads with zeros on the left to five characters.\<close>

fun digits_rev :: "nat \<Rightarrow> string" where
  "digits_rev n = (if n < 10 then [char_of (48 + n)] else char_of (48 + n mod 10) # digits_rev (n div 10))"

definition fmt_nat :: "nat \<Rightarrow> string" where
  "fmt_nat n = rev (digits_rev n)"

definition fmt_nat_pad5 :: "nat \<Rightarrow> string" where
  "fmt_nat_pad5 n = replicate (5 - length (fmt_nat n)) (CHR ''0'') @ fmt_nat n"

definition coin_fmt :: "coin \<Rightarrow> string" where
  "coin_fmt c =
    (let frac_part = lunas c mod LUNAS_PER_COIN in
     if frac_part = 0 then fmt_nat (unat (lunas c div LUNAS_PER_COIN))
     else fmt_nat (unat (lunas c div LUNAS_PER_COIN)) @ ''.'' @ fmt_nat_pad5 (unat (lunas c mod LUNAS_PER_COIN)))"

text \<open>\<open>str::parse::<u64>\<close>: an optional plus sign, then at least one ASCII digit, no overflow.\<close>

definition is_digit :: "char \<Rightarrow> bool" where
  "is_digit c \<longleftrightarrow> 48 \<le> (of_char c :: nat) \<and> (of_char c :: nat) \<le> 57"

definition digits_value :: "string \<Rightarrow> nat" where
  "digits_value ds = foldl (\<lambda>a c. a * 10 + (of_char c - 48)) 0 ds"

definition parse_u64 :: "string \<Rightarrow> u64 option" where
  "parse_u64 s =
    (let ds = (case s of c # cs \<Rightarrow> if c = CHR ''+'' then cs else s | [] \<Rightarrow> []) in
     if ds \<noteq> [] \<and> list_all is_digit ds \<and> digits_value ds < 2 ^ 64 then Some (of_nat (digits_value ds)) else None)"

datatype coin_parse_error = CoinParseError string

text \<open>\<open>captures s\<close> is what \<open>COIN_PARSE_REGEX.captures(s)\<close> returns: the text of the groups
  \<open>int_part\<close> (always present in a match) and \<open>frac_part\<close>.\<close>

definition coin_from_str :: "(string \<Rightarrow> (string \<times> string option) option) \<Rightarrow> string \<Rightarrow> (coin, coin_parse_error) result" where
  "coin_from_str captures s =
    rbind (ok_or (CoinParseError s) (captures s)) (\<lambda>(int_str, frac).
    rbind (ok_or (CoinParseError s) (parse_u64 int_str)) (\<lambda>int_part.
    rbind (case frac of
             Some frac_str \<Rightarrow>
               rbind (ok_or (CoinParseError s) (parse_u64 frac_str)) (\<lambda>f.
               Inr (f * 10 ^ unat (FRAC_DIGITS - of_nat (length frac_str))))
           | None \<Rightarrow> Inr 0) (\<lambda>frac_part.
    map_err (\<lambda>_. CoinParseError s) (coin_try_from (int_part * LUNAS_PER_COIN + frac_part)))))"

section \<open>Checked arithmetic as arithmetic on naturals\<close>

abbreviation val :: "coin \<Rightarrow> nat" where "val c \<equiv> unat (lunas c)"

abbreviation max_safe :: nat where "max_safe \<equiv> 9007199254740991"

definition coin_ok :: "coin \<Rightarrow> bool" where
  "coin_ok c \<longleftrightarrow> lunas c \<le> MAX_SAFE_VALUE"

lemma coin_ok_val: "coin_ok c \<longleftrightarrow> val c \<le> max_safe"
  by (simp add: coin_ok_def MAX_SAFE_VALUE_def word_le_nat_alt)

lemma coin_eq_iff: "c = d \<longleftrightarrow> val c = val d"
  by (cases c; cases d) (simp add: word_unat_eq_iff)

lemma coin_le_val: "c \<le> d \<longleftrightarrow> val c \<le> val d"
  by (simp add: less_eq_coin_def word_le_nat_alt)

lemma coin_less_val: "c < d \<longleftrightarrow> val c < val d"
  by (simp add: less_coin_def word_less_nat_alt)

lemma result_ok_try_from: "result_ok (coin_try_from v) = (if v \<le> MAX_SAFE_VALUE then Some (Coin v) else None)"
  by (simp add: coin_try_from_def result_ok_def)

lemma val_bound: "val c < 18446744073709551616"
  using unsigned_less [of "lunas c"] by simp

lemma val_of_nat [simp]: "n < 18446744073709551616 \<Longrightarrow> val (Coin (of_nat n)) = n"
  by simp

lemma coin_checked_add_eq:
  "coin_checked_add a b = (if val a + val b \<le> max_safe then Some (Coin (of_nat (val a + val b))) else None)"
  by (auto simp: coin_checked_add_def word_checked_add_def result_ok_try_from MAX_SAFE_VALUE_def word_le_nat_alt
      unat_word_ariths)

lemma coin_checked_sub_eq:
  "coin_checked_sub a b =
    (if val b \<le> val a \<and> val a - val b \<le> max_safe then Some (Coin (of_nat (val a - val b))) else None)"
  by (auto simp: coin_checked_sub_def word_checked_sub_def result_ok_try_from MAX_SAFE_VALUE_def word_le_nat_alt
      unat_sub_if' word_unat_eq_iff)

lemma coin_checked_mul_eq:
  "coin_checked_mul a n = (if val a * unat n \<le> max_safe then Some (Coin (of_nat (val a * unat n))) else None)"
  by (auto simp: coin_checked_mul_def word_checked_mul_def result_ok_try_from MAX_SAFE_VALUE_def word_le_nat_alt
      unat_word_ariths)

lemma coin_checked_add_Some:
  "coin_checked_add a b = Some c \<longleftrightarrow> val c = val a + val b \<and> val c \<le> max_safe"
  by (auto simp: coin_checked_add_eq coin_eq_iff simp del: of_nat_add)

lemma coin_checked_add_None: "coin_checked_add a b = None \<longleftrightarrow> max_safe < val a + val b"
  by (auto simp: coin_checked_add_eq)

lemma coin_checked_sub_Some:
  "coin_checked_sub a b = Some c \<longleftrightarrow> val a = val c + val b \<and> val c \<le> max_safe"
  using val_bound [of a] by (auto simp: coin_checked_sub_eq coin_eq_iff simp del: of_nat_diff)

lemma coin_checked_sub_None: "coin_checked_sub a b = None \<longleftrightarrow> val a < val b \<or> max_safe < val a - val b"
  by (auto simp: coin_checked_sub_eq)

lemma coin_checked_mul_Some:
  "coin_checked_mul a n = Some c \<longleftrightarrow> val c = val a * unat n \<and> val c \<le> max_safe"
  by (auto simp: coin_checked_mul_eq coin_eq_iff simp del: of_nat_mult)

lemma coin_add_sub_cancel: "coin_sub (coin_add a b) b = a" "coin_add (coin_sub a b) b = a"
  by (simp_all add: coin_add_def coin_sub_def)

lemma coin_sum_val: "sum_list (map val cs) < 2 ^ 64 \<Longrightarrow> val (coin_sum cs) = sum_list (map val cs)"
proof -
  have "val z + sum_list (map val cs) < 2 ^ 64 \<Longrightarrow> val (foldl coin_add z cs) = val z + sum_list (map val cs)" for z
    by (induction cs arbitrary: z) (simp_all add: coin_add_def unat_word_ariths)
  from this [of coin_ZERO] show "sum_list (map val cs) < 2 ^ 64 \<Longrightarrow> ?thesis"
    by (simp add: coin_sum_def coin_ZERO_def)
qed

interpretation coin: codec ser_coin deser_coin "\<lambda>_. 8" coin_ok
proof
  fix c
  assume "coin_ok c"
  then show "encodes (ser_coin c) deser_coin c 8"
    unfolding ser_coin_def deser_coin_def coin_ok_def
    using encodes_last [OF u64.encoded [of "lunas c"], of "\<lambda>v. if v \<le> MAX_SAFE_VALUE then dret (Coin v) else dfail (IoError InvalidData)" c]
    by simp
qed

lemmas [encodes_fields] =
  encodes_wseqs_Cons [OF coin.encoded]

lemma deser_coin_ok: "deser_coin bs = Inr (c, rest) \<Longrightarrow> coin_ok c"
  by (auto simp: deser_coin_def dbind_def dret_def dfail_def coin_ok_def split: sum.splits if_splits)

section \<open>Printing and parsing\<close>

text \<open>What \<open>FromStr\<close> relies on of the regular expression \<open>^(?P<int_part>\d+)(.(?P<frac_part>\d{1,5})0*)?$\<close>:
  a string of digits is all integer part, and digits, a dot and five digits are split at the dot.\<close>

definition all_digits :: "string \<Rightarrow> bool" where
  "all_digits s \<longleftrightarrow> s \<noteq> [] \<and> list_all is_digit s"

definition coin_regex_spec :: "(string \<Rightarrow> (string \<times> string option) option) \<Rightarrow> bool" where
  "coin_regex_spec captures \<longleftrightarrow>
    (\<forall>i. all_digits i \<longrightarrow> captures i = Some (i, None)) \<and>
    (\<forall>i f. all_digits i \<and> all_digits f \<and> length f = 5 \<longrightarrow> captures (i @ ''.'' @ f) = Some (i, Some f))"

text \<open>A matcher for that expression on ASCII strings.\<close>

definition coin_regex :: "string \<Rightarrow> (string \<times> string option) option" where
  "coin_regex s =
    (let i = takeWhile is_digit s in
     if i = [] then None
     else case dropWhile is_digit s of
       [] \<Rightarrow> Some (i, None)
     | c # f \<Rightarrow> if of_char c \<noteq> (10 :: nat) \<and> all_digits f \<and> list_all (\<lambda>d. d = CHR ''0'') (drop 5 f)
         then Some (i, Some (take 5 f)) else None)"

declare digits_rev.simps [simp del]

lemma is_digit_char_of [simp]: "n < 10 \<Longrightarrow> is_digit (char_of (48 + n))" for n :: nat
  by (simp add: is_digit_def)

lemma all_digits_rev: "list_all is_digit (digits_rev n) \<and> digits_rev n \<noteq> []"
  by (induction n rule: digits_rev.induct) (subst digits_rev.simps, auto simp: digits_rev.simps)

lemma all_digits_fmt: "all_digits (fmt_nat n)"
  using all_digits_rev [of n] by (simp add: all_digits_def fmt_nat_def list_all_iff)

lemma digits_value_append: "digits_value (xs @ [c]) = digits_value xs * 10 + (of_char c - 48)"
  by (simp add: digits_value_def)

lemma digits_value_fmt: "digits_value (fmt_nat n) = n"
proof (induction n rule: digits_rev.induct)
  case (1 n)
  have c: "of_char (char_of (48 + n mod 10) :: char) = (48 + n mod 10 :: nat)"
    by simp
  show ?case
  proof (cases "n < 10")
    case True
    then show ?thesis
      by (subst fmt_nat_def, subst digits_rev.simps) (simp add: digits_value_def)
  next
    case False
    then have "fmt_nat n = fmt_nat (n div 10) @ [char_of (48 + n mod 10)]"
      by (simp add: fmt_nat_def digits_rev.simps [of n])
    with 1 False show ?thesis
      by (simp add: digits_value_append c)
  qed
qed

lemma length_fmt_nat: "n < 10 ^ Suc k \<Longrightarrow> length (fmt_nat n) \<le> Suc k"
proof (induction k arbitrary: n)
  case 0
  then show ?case
    by (subst fmt_nat_def, subst digits_rev.simps) simp
next
  case (Suc k)
  show ?case
  proof (cases "n < 10")
    case True
    then show ?thesis
      by (subst fmt_nat_def, subst digits_rev.simps) simp
  next
    case False
    then have "length (fmt_nat n) = Suc (length (fmt_nat (n div 10)))"
      by (simp add: fmt_nat_def digits_rev.simps [of n])
    with Suc.IH [of "n div 10"] Suc.prems show ?thesis
      by (simp add: less_mult_imp_div_less)
  qed
qed

lemma digits_value_pad: "digits_value (replicate k (CHR ''0'') @ xs) = digits_value xs"
  by (induction k) (simp_all add: digits_value_def)

lemma parse_u64_digits: "all_digits ds \<Longrightarrow> digits_value ds < 2 ^ 64 \<Longrightarrow> parse_u64 ds = Some (of_nat (digits_value ds))"
  by (cases ds) (auto simp: parse_u64_def all_digits_def is_digit_def Let_def)

lemma fmt_nat_pad5:
  assumes "n < 100000"
  shows "all_digits (fmt_nat_pad5 n)" "length (fmt_nat_pad5 n) = 5" "digits_value (fmt_nat_pad5 n) = n"
  using all_digits_fmt [of n] length_fmt_nat [of n 4] digits_value_fmt [of n] assms
  by (auto simp: fmt_nat_pad5_def all_digits_def is_digit_def digits_value_pad list_all_iff)

text \<open>C24: Parsing the printed form of a coin value gives the value back, for every value up to the safe maximum.\<close>

theorem coin_fmt_roundtrip:
  assumes c: "coin_ok c" and spec: "coin_regex_spec captures"
  shows "coin_from_str captures (coin_fmt c) = Inr c"
proof -
  let ?q = "val c div 100000" and ?r = "val c mod 100000"
  have parts: "unat (lunas c div LUNAS_PER_COIN) = ?q" "unat (lunas c mod LUNAS_PER_COIN) = ?r"
    by (simp_all add: LUNAS_PER_COIN_def unat_div unat_mod)
  have small: "?q < 2 ^ 64" "?r < 100000" "?r < 2 ^ 64"
    using val_bound [of c] by (simp_all add: div_le_dividend [THEN le_less_trans])
  have zero: "lunas c mod LUNAS_PER_COIN = 0 \<longleftrightarrow> ?r = 0"
    by (simp add: word_unat_eq_iff parts)
  have sum: "(of_nat ?q * LUNAS_PER_COIN + of_nat ?r :: u64) = lunas c"
  proof -
    have "(of_nat (?q * 100000 + ?r) :: u64) = lunas c"
      by (simp only: div_mult_mod_eq) simp
    then show ?thesis
      unfolding LUNAS_PER_COIN_def of_nat_add of_nat_mult of_nat_numeral .
  qed
  have ok: "coin_try_from (lunas c) = Inr c"
    using c by (simp add: coin_try_from_def coin_ok_def)
  show ?thesis
  proof (cases "?r = 0")
    case True
    then show ?thesis
      using spec all_digits_fmt [of ?q] small sum ok
      by (simp add: coin_from_str_def coin_fmt_def Let_def zero parts coin_regex_spec_def parse_u64_digits digits_value_fmt)
  next
    case False
    then show ?thesis
      using spec all_digits_fmt [of ?q] fmt_nat_pad5 [OF small(2)] small sum ok
      by (simp add: coin_from_str_def coin_fmt_def Let_def zero parts coin_regex_spec_def parse_u64_digits digits_value_fmt FRAC_DIGITS_def)
  qed
qed

lemma coin_regex_spec: "coin_regex_spec coin_regex"
proof -
  have i: "takeWhile is_digit i = i" "dropWhile is_digit i = []" if "all_digits i" for i
    using that by (auto simp: all_digits_def list_all_iff takeWhile_eq_all_conv dropWhile_eq_Nil_conv)
  have s: "takeWhile is_digit (i @ CHR ''.'' # f) = i" "dropWhile is_digit (i @ CHR ''.'' # f) = CHR ''.'' # f"
    if "all_digits i" for i f
    using that by (auto simp: all_digits_def list_all_iff is_digit_def takeWhile_append2 dropWhile_append2)
  show ?thesis
    by (auto simp: coin_regex_spec_def coin_regex_def i s) (auto simp: all_digits_def)
qed

theorem coin_fmt_roundtrip_witness: "coin_from_str coin_regex (coin_fmt (Coin 123456700)) = Inr (Coin 123456700)"
  by (rule coin_fmt_roundtrip) (simp_all add: coin_ok_def MAX_SAFE_VALUE_def coin_regex_spec)

text \<open>C25: The product of the integer part and the number of lunas per coin wraps around before the range of a coin is
  checked: a string that denotes more coins than can ever exist is parsed as a small value.\<close>

theorem coin_from_str_wraps:
  assumes "coin_regex_spec captures"
  shows "coin_from_str captures ''184467440737096'' = Inr (Coin 48384)"
proof -
  have digits: "all_digits ''184467440737096''"
    by code_simp
  have "parse_u64 ''184467440737096'' = Some 184467440737096"
    by code_simp
  moreover have "captures ''184467440737096'' = Some (''184467440737096'', None)"
    using assms digits by (simp add: coin_regex_spec_def)
  ultimately show ?thesis
    by (simp add: coin_from_str_def LUNAS_PER_COIN_def coin_try_from_def MAX_SAFE_VALUE_def)
qed

theorem coin_from_str_wraps_witness: "coin_from_str coin_regex ''184467440737096'' = Inr (Coin 48384)"
  by (rule coin_from_str_wraps) (rule coin_regex_spec)

end
