(* ===== verification/Policy.thy ===== *)
theory Policy
  imports Prelude
begin

text \<open>
  The protocol's constants and the arithmetic of epochs and batches (\<open>primitives/src/policy.rs\<close>).
  Block numbers are 32-bit and the sums wrap: the functions \<open>epoch_at\<close>, \<open>epoch_index_at\<close> and their batch
  counterparts are right below \<open>2 ^ 32 - EPOCH_LENGTH\<close>, which is the hypothesis \<open>block_in_range\<close>.
  \<open>supply_at\<close> computes with floating-point numbers; the part after the truncation to an integer is
  modelled, with the number of newly minted Lunas as an argument.
\<close>

section \<open>Constants\<close>

definition TRANSACTION_VALIDITY_WINDOW :: u32 where "TRANSACTION_VALIDITY_WINDOW = 7200"
definition VERSION :: u16 where "VERSION = 1"
definition SLOTS :: u16 where "SLOTS = 512"
definition TWO_THIRD_SLOTS :: u16 where "TWO_THIRD_SLOTS = (2 * SLOTS + 3 - 1) div 3"
definition BATCH_LENGTH :: u32 where "BATCH_LENGTH = 32"
definition BATCHES_PER_EPOCH :: u32 where "BATCHES_PER_EPOCH = 4"
definition EPOCH_LENGTH :: u32 where "EPOCH_LENGTH = BATCH_LENGTH * BATCHES_PER_EPOCH"
definition TIMESTAMP_MAX_DRIFT :: u64 where "TIMESTAMP_MAX_DRIFT = 600000"
definition TENDERMINT_TIMEOUT_INIT :: u64 where "TENDERMINT_TIMEOUT_INIT = 1000"
definition TENDERMINT_TIMEOUT_DELTA :: u64 where "TENDERMINT_TIMEOUT_DELTA = 1000"
definition MIN_STAKE :: u64 where "MIN_STAKE = 1"
definition MIN_VALIDATOR_STAKE :: u64 where "MIN_VALIDATOR_STAKE = 100000000"
definition TOTAL_SUPPLY :: u64 where "TOTAL_SUPPLY = 2100000000000000"

section \<open>Epochs and batches\<close>

definition epoch_at :: "u32 \<Rightarrow> u32" where
  "epoch_at block_number = (block_number + EPOCH_LENGTH - 1) div EPOCH_LENGTH"

definition epoch_index_at :: "u32 \<Rightarrow> u32" where
  "epoch_index_at block_number = (block_number + EPOCH_LENGTH - 1) mod EPOCH_LENGTH"

definition batch_at :: "u32 \<Rightarrow> u32" where
  "batch_at block_number = (block_number + BATCH_LENGTH - 1) div BATCH_LENGTH"

definition batch_index_at :: "u32 \<Rightarrow> u32" where
  "batch_index_at block_number = (block_number + BATCH_LENGTH - 1) mod BATCH_LENGTH"

definition election_block_after :: "u32 \<Rightarrow> u32" where
  "election_block_after block_number = (block_number div EPOCH_LENGTH + 1) * EPOCH_LENGTH"

definition election_block_before :: "u32 \<Rightarrow> (u32, 'e) result" where
  "election_block_before block_number =
    (if block_number = 0 then Inl Panic else Inr ((block_number - 1) div EPOCH_LENGTH * EPOCH_LENGTH))"

definition last_election_block :: "u32 \<Rightarrow> u32" where
  "last_election_block block_number = block_number div EPOCH_LENGTH * EPOCH_LENGTH"

definition is_election_block_at :: "u32 \<Rightarrow> bool" where
  "is_election_block_at block_number \<longleftrightarrow> epoch_index_at block_number = EPOCH_LENGTH - 1"

definition macro_block_after :: "u32 \<Rightarrow> u32" where
  "macro_block_after block_number = (block_number div BATCH_LENGTH + 1) * BATCH_LENGTH"

definition macro_block_before :: "u32 \<Rightarrow> (u32, 'e) result" where
  "macro_block_before block_number =
    (if block_number = 0 then Inl Panic else Inr ((block_number - 1) div BATCH_LENGTH * BATCH_LENGTH))"

definition last_macro_block :: "u32 \<Rightarrow> u32" where
  "last_macro_block block_number = block_number div BATCH_LENGTH * BATCH_LENGTH"

definition is_macro_block_at :: "u32 \<Rightarrow> bool" where
  "is_macro_block_at block_number \<longleftrightarrow> batch_index_at block_number = BATCH_LENGTH - 1"

definition is_micro_block_at :: "u32 \<Rightarrow> bool" where
  "is_micro_block_at block_number \<longleftrightarrow> batch_index_at block_number \<noteq> BATCH_LENGTH - 1"

definition first_block_of :: "u32 \<Rightarrow> (u32, 'e) result" where
  "first_block_of epoch = (if epoch = 0 then Inl Panic else Inr ((epoch - 1) * EPOCH_LENGTH + 1))"

definition first_block_of_batch :: "u32 \<Rightarrow> (u32, 'e) result" where
  "first_block_of_batch batch = (if batch = 0 then Inl Panic else Inr ((batch - 1) * BATCH_LENGTH + 1))"

definition election_block_of :: "u32 \<Rightarrow> u32" where
  "election_block_of epoch = epoch * EPOCH_LENGTH"

definition macro_block_of :: "u32 \<Rightarrow> u32" where
  "macro_block_of batch = batch * BATCH_LENGTH"

definition first_block_of_registry :: "u32 \<Rightarrow> (u32, 'e) result" where
  "first_block_of_registry epoch = (if epoch \<le> 1 then Inr 0 else first_block_of (epoch - 1))"

definition first_batch_of_epoch :: "u32 \<Rightarrow> bool" where
  "first_batch_of_epoch block_number \<longleftrightarrow> epoch_index_at block_number < BATCH_LENGTH"

text \<open>\<open>minted t\<close> is the integer part of \<open>INITIAL_SUPPLY_VELOCITY / SUPPLY_DECAY * (1 - exp(-SUPPLY_DECAY * t))\<close>
  as the floating-point unit computes it.\<close>

definition supply_at :: "(u64 \<Rightarrow> u64) \<Rightarrow> u64 \<Rightarrow> u64 \<Rightarrow> u64 \<Rightarrow> (u64, 'e) result" where
  "supply_at minted genesis_supply genesis_time current_time =
    (if current_time \<ge> genesis_time
     then Inr (min (genesis_supply + minted (current_time - genesis_time)) TOTAL_SUPPLY)
     else Inl Panic)"

section \<open>Arithmetic without wrap-around\<close>

definition block_in_range :: "u32 \<Rightarrow> bool" where
  "block_in_range b \<longleftrightarrow> b < - EPOCH_LENGTH"

lemma block_in_range_nat: "block_in_range b \<longleftrightarrow> unat b < 4294967168"
  by (simp add: block_in_range_def EPOCH_LENGTH_def BATCH_LENGTH_def BATCHES_PER_EPOCH_def word_less_nat_alt)

lemma EPOCH_LENGTH_eq [simp]: "EPOCH_LENGTH = 128"
  by (simp add: EPOCH_LENGTH_def BATCH_LENGTH_def BATCHES_PER_EPOCH_def)

lemma BATCH_LENGTH_eq [simp]: "BATCH_LENGTH = 32"
  by (simp add: BATCH_LENGTH_def)

lemma unat_u32_less: "unat (b :: u32) < 4294967296"
  using unsigned_less [of b] by simp

lemma unat_add_pred: "unat b + n < 4294967297 \<Longrightarrow> 0 < n \<Longrightarrow> unat (b + of_nat n - 1 :: u32) = unat b + n - 1"
proof -
  assume *: "unat b + n < 4294967297" "0 < n"
  then obtain m where n: "n = Suc m" by (cases n) auto
  with * show ?thesis
    by (simp add: unat_word_ariths add.assoc [symmetric])
qed

lemma unat_epoch_at: "block_in_range b \<Longrightarrow> unat (epoch_at b) = (127 + unat b) div 128"
  using unat_add_pred [of b 128] by (simp add: epoch_at_def block_in_range_nat unat_div)

lemma unat_epoch_index_at: "block_in_range b \<Longrightarrow> unat (epoch_index_at b) = (127 + unat b) mod 128"
  using unat_add_pred [of b 128] by (simp add: epoch_index_at_def block_in_range_nat unat_mod)

lemma unat_batch_at: "block_in_range b \<Longrightarrow> unat (batch_at b) = (31 + unat b) div 32"
  using unat_add_pred [of b 32] by (simp add: batch_at_def block_in_range_nat unat_div)

lemma unat_batch_index_at: "block_in_range b \<Longrightarrow> unat (batch_index_at b) = (31 + unat b) mod 32"
  using unat_add_pred [of b 32] by (simp add: batch_index_at_def block_in_range_nat unat_mod)

lemma unat_last_election_block: "unat (last_election_block b) = unat b div 128 * 128"
  using unat_u32_less [of b] by (simp add: last_election_block_def unat_word_ariths unat_div)

lemma unat_last_macro_block: "unat (last_macro_block b) = unat b div 32 * 32"
  using unat_u32_less [of b] by (simp add: last_macro_block_def unat_word_ariths unat_div)

lemma unat_election_block_after:
  assumes "block_in_range b"
  shows "unat (election_block_after b) = (unat b div 128 + 1) * 128"
proof -
  have "unat b div 128 * 128 \<le> unat b"
    by (rule div_times_less_eq_dividend)
  with assms show ?thesis
    by (simp add: election_block_after_def unat_word_ariths unat_div block_in_range_nat)
qed

lemma unat_macro_block_after:
  assumes "block_in_range b"
  shows "unat (macro_block_after b) = (unat b div 32 + 1) * 32"
proof -
  have "unat b div 32 * 32 \<le> unat b"
    by (rule div_times_less_eq_dividend)
  with assms show ?thesis
    by (simp add: macro_block_after_def unat_word_ariths unat_div block_in_range_nat)
qed

lemma nat_mod_pred: "(127 + n) mod 128 = 127 \<longleftrightarrow> n mod 128 = 0" "(31 + n) mod 32 = 31 \<longleftrightarrow> n mod 32 = 0"
  for n :: nat
  using mod_Suc [of "127 + n" 128] mod_Suc [of "31 + n" 32] by (simp_all split: if_splits)

lemma is_election_block_iff: "block_in_range b \<Longrightarrow> is_election_block_at b \<longleftrightarrow> unat b mod 128 = 0"
  using nat_mod_pred [of "unat b"]
  by (simp add: is_election_block_at_def word_unat_eq_iff unat_epoch_index_at)

lemma is_macro_block_iff: "block_in_range b \<Longrightarrow> is_macro_block_at b \<longleftrightarrow> unat b mod 32 = 0"
  using nat_mod_pred [of "unat b"]
  by (simp add: is_macro_block_at_def word_unat_eq_iff unat_batch_index_at)

lemma unat_pred: "b \<noteq> 0 \<Longrightarrow> unat (b - 1 :: u32) = unat b - 1"
  by (simp add: unat_minus_one)

lemma unat_election_block_before:
  assumes "election_block_before b = Inr (m :: u32)"
  shows "b \<noteq> 0" "unat m = (unat b - 1) div 128 * 128"
  using assms unat_u32_less [of "b - 1"] unat_pred [of b]
  by (auto simp: election_block_before_def unat_word_ariths unat_div split: if_splits)

lemma unat_macro_block_before:
  assumes "macro_block_before b = Inr (m :: u32)"
  shows "b \<noteq> 0" "unat m = (unat b - 1) div 32 * 32"
  using assms unat_u32_less [of "b - 1"] unat_pred [of b]
  by (auto simp: macro_block_before_def unat_word_ariths unat_div split: if_splits)

section \<open>Partition of the chain into epochs and batches\<close>

lemma interval_partition:
  fixes b e i :: u32 and L :: nat
  assumes b: "unat b = Suc (q * L + r)" and r: "r < L" and lim: "q * L + L < 4294967296"
    and e: "e = of_nat q + 1" and i: "i = of_nat r"
  shows "e \<noteq> 0 \<and> (e - 1) * of_nat L + 1 \<le> b \<and> b = (e - 1) * of_nat L + 1 + i \<and> i < of_nat L \<and>
    b \<le> e * of_nat L \<and> unat (e * of_nat L) + 1 = unat ((e - 1) * of_nat L + 1) + L"
proof -
  have "q < 4294967295" "L < 4294967296"
    using r lim by (cases L; simp)+
  have f: "(e - 1) * of_nat L + 1 = of_nat (q * L + 1)" and l: "e * of_nat L = of_nat (q * L + L)"
    by (simp_all add: e algebra_simps)
  have uf: "unat ((e - 1) * of_nat L + 1) = q * L + 1" and ul: "unat (e * of_nat L) = q * L + L"
    unfolding f l using r lim by (subst unat_of_nat_id; simp)+
  have "of_nat (unat b) = b"
    by simp
  then have "b = of_nat (q * L + 1 + r)"
    by (simp add: b)
  then have "b = (e - 1) * of_nat L + 1 + i"
    unfolding f i by simp
  moreover have "e \<noteq> 0"
    using \<open>q < 4294967295\<close> by (simp add: e word_unat_eq_iff unat_word_ariths)
  moreover have "i < of_nat L"
    using r \<open>L < 4294967296\<close> by (simp add: i word_less_nat_alt)
  moreover have "(e - 1) * of_nat L + 1 \<le> b" "b \<le> e * of_nat L"
    unfolding word_le_nat_alt uf ul using b r by linarith+
  moreover have "unat (e * of_nat L) + 1 = unat ((e - 1) * of_nat L + 1) + L"
    unfolding uf ul by simp
  ultimately show ?thesis
    by blast
qed

text \<open>C19: Below the end of the 32-bit range every block but the genesis block lies in the epoch
  \<open>epoch_at\<close> computes: between that epoch's first block and its election block, at the offset
  \<open>epoch_index_at\<close>.\<close>

theorem epoch_partition:
  assumes "block_in_range b" "b \<noteq> 0"
  shows "\<exists>f. (first_block_of (epoch_at b) :: (u32, 'e) result) = Inr f \<and> f \<le> b \<and> b = f + epoch_index_at b
    \<and> epoch_index_at b < EPOCH_LENGTH \<and> b \<le> election_block_of (epoch_at b) \<and> unat (election_block_of (epoch_at b)) = unat f + 127"
proof -
  define q r where "q = (unat b - 1) div 128" and "r = (unat b - 1) mod 128"
  have b: "unat b = Suc (q * 128 + r)" and r: "r < 128"
    using assms(2) unat_gt_0 [of b] by (auto simp: q_def r_def)
  then have lim: "q * 128 + 128 < 4294967296"
    using assms(1) by (simp add: block_in_range_nat)
  have "epoch_at b = of_nat q + 1" "epoch_index_at b = of_nat r"
    using unat_epoch_at [OF assms(1)] unat_epoch_index_at [OF assms(1)] b r lim
    by (simp_all add: word_unat_eq_iff unat_word_ariths)
  from interval_partition [OF b r lim this, unfolded of_nat_numeral] show ?thesis
    unfolding first_block_of_def election_block_of_def EPOCH_LENGTH_eq BATCH_LENGTH_eq by (elim conjE, intro exI conjI) (simp only: if_False refl | assumption | linarith)+
qed

text \<open>The same for batches: \<open>batch_at\<close>, \<open>batch_index_at\<close> and the batch's macro block.\<close>

theorem batch_partition:
  assumes "block_in_range b" "b \<noteq> 0"
  shows "\<exists>f. (first_block_of_batch (batch_at b) :: (u32, 'e) result) = Inr f \<and> f \<le> b \<and> b = f + batch_index_at b
    \<and> batch_index_at b < BATCH_LENGTH \<and> b \<le> macro_block_of (batch_at b) \<and> unat (macro_block_of (batch_at b)) = unat f + 31"
proof -
  define q r where "q = (unat b - 1) div 32" and "r = (unat b - 1) mod 32"
  have b: "unat b = Suc (q * 32 + r)" and r: "r < 32"
    using assms(2) unat_gt_0 [of b] by (auto simp: q_def r_def)
  then have lim: "q * 32 + 32 < 4294967296"
    using assms(1) by (simp add: block_in_range_nat)
  have "batch_at b = of_nat q + 1" "batch_index_at b = of_nat r"
    using unat_batch_at [OF assms(1)] unat_batch_index_at [OF assms(1)] b r lim
    by (simp_all add: word_unat_eq_iff unat_word_ariths)
  from interval_partition [OF b r lim this, unfolded of_nat_numeral] show ?thesis
    unfolding first_block_of_batch_def macro_block_of_def EPOCH_LENGTH_eq BATCH_LENGTH_eq by (elim conjE, intro exI conjI) (simp only: if_False refl | assumption | linarith)+
qed

theorem epoch_partition_witness:
  "block_in_range 300 \<and> (300 :: u32) \<noteq> 0 \<and>
   (\<exists>f. (first_block_of (epoch_at 300) :: (u32, unit) result) = Inr f \<and> f \<le> 300 \<and> 300 = f + epoch_index_at 300
    \<and> epoch_index_at 300 < EPOCH_LENGTH \<and> 300 \<le> election_block_of (epoch_at 300) \<and> unat (election_block_of (epoch_at 300)) = unat f + 127)"
proof -
  have "block_in_range 300"
    by (simp add: block_in_range_nat)
  with epoch_partition [of 300] show ?thesis by simp
qed

theorem batch_partition_witness:
  "block_in_range 300 \<and> (300 :: u32) \<noteq> 0 \<and>
   (\<exists>f. (first_block_of_batch (batch_at 300) :: (u32, unit) result) = Inr f \<and> f \<le> 300 \<and> 300 = f + batch_index_at 300
    \<and> batch_index_at 300 < BATCH_LENGTH \<and> 300 \<le> macro_block_of (batch_at 300) \<and> unat (macro_block_of (batch_at 300)) = unat f + 31)"
proof -
  have "block_in_range 300"
    by (simp add: block_in_range_nat)
  with batch_partition [of 300] show ?thesis by simp
qed

section \<open>Neighbouring election blocks and the quorum\<close>

lemma multiple_le: "n mod L = 0 \<Longrightarrow> q * L < n \<Longrightarrow> (q + 1) * L \<le> n" for n q L :: nat
  by (auto simp: dvd_eq_mod_eq_0 [symmetric] elim!: dvdE) (metis Suc_leI add.commute mult_Suc_right mult_le_mono2 mult.commute)

lemma multiple_between:
  fixes n m L :: nat
  assumes "m mod L = 0" "n < m" "0 < L"
  shows "(n div L + 1) * L \<le> m"
  using assms by (intro multiple_le) (auto intro: le_less_trans [OF div_times_less_eq_dividend])

lemma multiple_below:
  fixes n m L :: nat
  assumes "m mod L = 0" "m \<le> n"
  shows "m \<le> n div L * L"
  using assms by (metis div_le_mono div_mult_mod_eq add_0_right mult_le_mono1)

text \<open>C20: \<open>election_block_after\<close> returns the next election block: it is one, it is after the given
  block, and no election block lies strictly between.\<close>

theorem election_block_after_next:
  assumes "unat b < 2 ^ 32 - 256"
  shows "is_election_block_at (election_block_after b) \<and> b < election_block_after b \<and>
    (\<forall>m. block_in_range m \<and> is_election_block_at m \<and> b < m \<longrightarrow> election_block_after b \<le> m)"
proof -
  have b: "block_in_range b"
    using assms by (simp add: block_in_range_nat)
  have a: "unat (election_block_after b) = (unat b div 128 + 1) * 128"
    by (rule unat_election_block_after [OF b])
  have split: "unat b div 128 * 128 + unat b mod 128 = unat b" "unat b mod 128 < 128"
    by simp_all
  then have "unat b < unat (election_block_after b)" and "unat (election_block_after b) < 4294967168"
    using a assms by (simp_all add: distrib_right)
  then show ?thesis
    using a multiple_between [of _ 128 "unat b"]
    by (auto simp: is_election_block_iff block_in_range_nat word_less_nat_alt word_le_nat_alt)
qed

theorem election_block_after_next_witness:
  "unat (200 :: u32) < 2 ^ 32 - 256 \<and> is_election_block_at (election_block_after 200) \<and> 200 < election_block_after 200 \<and>
    is_election_block_at 384 \<and> election_block_after 200 \<le> 384"
proof -
  have m: "block_in_range 384" "is_election_block_at 384"
    by (simp_all add: block_in_range_nat is_election_block_iff)
  have "election_block_after 200 \<le> 384"
    using election_block_after_next [of 200] m by simp
  with election_block_after_next [of 200] m show ?thesis by simp
qed

text \<open>C21: \<open>election_block_before\<close> returns the last election block strictly before the given block, and
  panics exactly for block 0; \<open>last_election_block\<close> returns the last one at or before it.\<close>

theorem election_block_before_last:
  assumes "block_in_range b"
  shows "(case (election_block_before b :: (u32, 'e) result) of
      Inl f \<Rightarrow> f = Panic \<and> b = 0
    | Inr p \<Rightarrow> is_election_block_at p \<and> p < b \<and> (\<forall>m. is_election_block_at m \<and> m < b \<longrightarrow> m \<le> p)) \<and>
    is_election_block_at (last_election_block b) \<and> last_election_block b \<le> b \<and>
    (\<forall>m. is_election_block_at m \<and> m \<le> b \<longrightarrow> m \<le> last_election_block b)"
proof -
  have down: "block_in_range m" if "m \<le> b" for m
    using that assms by (simp add: block_in_range_nat word_le_nat_alt)
  have l: "last_election_block b \<le> b"
    by (simp add: word_le_nat_alt unat_last_election_block)
  have last: "is_election_block_at (last_election_block b) \<and> last_election_block b \<le> b \<and>
    (\<forall>m. is_election_block_at m \<and> m \<le> b \<longrightarrow> m \<le> last_election_block b)"
    using l down [OF l] down multiple_below [of _ 128 "unat b"]
    by (auto simp: is_election_block_iff unat_last_election_block word_le_nat_alt)
  show ?thesis
  proof (cases "b = 0")
    case True
    then have "(election_block_before b :: (u32, 'e) result) = Inl Panic"
      by (simp add: election_block_before_def)
    with last True show ?thesis
      by (auto simp only: sum.case)
  next
    case False
    then obtain p where p: "(election_block_before b :: (u32, 'e) result) = Inr p"
      by (simp add: election_block_before_def)
    have up: "unat p = (unat b - 1) div 128 * 128"
      by (rule unat_election_block_before(2) [OF p])
    have pos: "0 < unat b"
      using False by (simp add: unat_gt_0)
    have lt: "p < b"
      using up pos div_times_less_eq_dividend [of "unat b - 1" 128] by (simp add: word_less_nat_alt)
    moreover have "m \<le> p" if "is_election_block_at m" "m < b" for m
      using that down [of m] pos multiple_below [of "unat m" 128 "unat b - 1"]
      by (simp add: is_election_block_iff word_le_nat_alt word_less_nat_alt up less_imp_le)
    ultimately show ?thesis
      using last p up down [of p] by (simp add: is_election_block_iff less_imp_le)
  qed
qed

theorem election_block_before_last_witness:
  "block_in_range 200 \<and> (election_block_before 200 :: (u32, unit) result) = Inr 128 \<and>
    is_election_block_at 128 \<and> last_election_block 200 \<le> 200 \<and> 128 \<le> last_election_block 200"
proof -
  have r: "block_in_range 200" "is_election_block_at 128"
    by (simp_all add: block_in_range_nat is_election_block_iff)
  moreover have "(election_block_before 200 :: (u32, unit) result) = Inr 128"
    by code_simp
  moreover have "128 \<le> last_election_block 200"
    using election_block_before_last [of 200, OF r(1)] r by (elim conjE) (auto dest: spec [of _ 128])
  ultimately show ?thesis
    using election_block_before_last [of 200, OF r(1)] by blast
qed

text \<open>C22: Any two sets of at least \<open>TWO_THIRD_SLOTS\<close> slots have more than a third of all slots in
  common, so that they share an honest slot when less than a third is faulty.\<close>

theorem two_third_quorums_intersect:
  assumes "A \<subseteq> {..< unat SLOTS}" "B \<subseteq> {..< unat SLOTS}"
    and "unat TWO_THIRD_SLOTS \<le> card A" "unat TWO_THIRD_SLOTS \<le> card B"
  shows "unat SLOTS < 3 * card (A \<inter> B)"
proof -
  have "card (A \<union> B) \<le> card {..< unat SLOTS}"
    using assms by (intro card_mono) auto
  moreover have "card A + card B = card (A \<union> B) + card (A \<inter> B)"
    using assms by (intro card_Un_Int) (auto intro: finite_subset)
  moreover have "unat TWO_THIRD_SLOTS = 342" "unat SLOTS = 512"
    by (simp_all add: TWO_THIRD_SLOTS_def SLOTS_def)
  ultimately show ?thesis
    using assms(3,4) by simp
qed

theorem two_third_quorums_intersect_witness:
  "unat SLOTS < 3 * card ({..< 342} \<inter> {170 ..< 512 :: nat})"
  using two_third_quorums_intersect [of "{..< 342}" "{170 ..< 512}"]
  by (simp add: SLOTS_def TWO_THIRD_SLOTS_def subset_eq)

end
