(* ===== verification/Comparators.thy ===== *)
theory Comparators
  imports Prelude
begin

text \<open>
  Comparison functions: \<open>std::cmp::Ordering\<close>, \<open>then_with\<close> and \<open>Ord::cmp\<close>.  The interface \<open>comparator\<close>
  holds the laws that \<open>Ord\<close> documents and sorted containers rely on; it is closed under comparing by a
  key, reversing, and lexicographic combination, so that each \<open>cmp\<close> of the sources is shown to satisfy
  it by following its definition.
\<close>

datatype cmp_ordering = Less | Equal | Greater

fun reverse_ordering :: "cmp_ordering \<Rightarrow> cmp_ordering" where
  "reverse_ordering Less = Greater"
| "reverse_ordering Equal = Equal"
| "reverse_ordering Greater = Less"

lemma reverse_ordering_eq [simp]:
  "reverse_ordering a = Less \<longleftrightarrow> a = Greater" "reverse_ordering a = Equal \<longleftrightarrow> a = Equal" "reverse_ordering a = Greater \<longleftrightarrow> a = Less"
  "Less = reverse_ordering a \<longleftrightarrow> a = Greater" "Equal = reverse_ordering a \<longleftrightarrow> a = Equal" "Greater = reverse_ordering a \<longleftrightarrow> a = Less"
  by (cases a; simp)+

definition then_with :: "cmp_ordering \<Rightarrow> cmp_ordering \<Rightarrow> cmp_ordering" where
  "then_with a b = (if a = Equal then b else a)"

definition ord_cmp :: "'a::linorder \<Rightarrow> 'a \<Rightarrow> cmp_ordering" where
  "ord_cmp x y = (if x < y then Less else if x = y then Equal else Greater)"

locale comparator =
  fixes c :: "'a \<Rightarrow> 'a \<Rightarrow> cmp_ordering"
  assumes anti: "c y x = reverse_ordering (c x y)"
    and trans: "c x y \<noteq> Greater \<Longrightarrow> c y z \<noteq> Greater \<Longrightarrow> c x z \<noteq> Greater"
begin

lemma refl: "c x x = Equal"
  using anti [of x x] by (cases "c x x") auto

lemma greater_iff: "c x y = Greater \<longleftrightarrow> c y x = Less"
  using anti [of x y] by (cases "c x y") auto

lemma equal_sym: "c x y = Equal \<longleftrightarrow> c y x = Equal"
  using anti [of x y] by (cases "c x y") auto

lemma less_trans: "c x y = Less \<Longrightarrow> c y z \<noteq> Greater \<Longrightarrow> c x z = Less"
  using trans [of x y z] trans [of y z x] anti [of x y] anti [of x z] by (cases "c x z") auto

lemma trans_less: "c x y \<noteq> Greater \<Longrightarrow> c y z = Less \<Longrightarrow> c x z = Less"
  using trans [of x y z] trans [of z x y] anti [of y z] anti [of x z] by (cases "c x z") auto

lemma equal_trans: "c x y = Equal \<Longrightarrow> c y z = Equal \<Longrightarrow> c x z = Equal"
  using trans [of x y z] trans [of z y x] anti [of x y] anti [of y z] anti [of x z] by (cases "c x z") auto

end

lemma comparator_key: "comparator (\<lambda>x y. ord_cmp (f x) (f y))"
  by unfold_locales (auto simp: ord_cmp_def split: if_splits)

lemma comparator_reverse:
  assumes "comparator c"
  shows "comparator (\<lambda>x y. c y x)"
proof
  fix x y z
  show "c x y = reverse_ordering (c y x)"
    by (rule comparator.anti [OF assms])
  show "c y x \<noteq> Greater \<Longrightarrow> c z y \<noteq> Greater \<Longrightarrow> c z x \<noteq> Greater"
    using comparator.trans [OF assms, of z y x] by simp
qed

lemma comparator_then_with:
  assumes c: "comparator c" and d: "comparator d"
  shows "comparator (\<lambda>x y. then_with (c x y) (d x y))"
proof
  fix x y z
  show "then_with (c y x) (d y x) = reverse_ordering (then_with (c x y) (d x y))"
    using comparator.anti [OF c, of y x] comparator.anti [OF d, of y x]
    by (cases "c x y") (auto simp: then_with_def)
  assume "then_with (c x y) (d x y) \<noteq> Greater" "then_with (c y z) (d y z) \<noteq> Greater"
  then show "then_with (c x z) (d x z) \<noteq> Greater"
    using comparator.equal_trans [OF c, of x y z] comparator.less_trans [OF c, of x y z]
      comparator.trans_less [OF c, of x y z] comparator.trans [OF d, of x y z]
    by (cases "c x y"; cases "c y z") (auto simp: then_with_def)
qed

lemma comparator_equal: "comparator (\<lambda>x y. Equal)"
  by unfold_locales simp_all

lemma comparator_key_reverse: "comparator (\<lambda>x y. ord_cmp (f y) (f x))"
  by (rule comparator_reverse [OF comparator_key])

lemmas comparator_intros = comparator_then_with comparator_key comparator_key_reverse comparator_equal

lemma then_with_Equal [simp]: "then_with a b = Equal \<longleftrightarrow> a = Equal \<and> b = Equal"
  by (simp add: then_with_def)

lemma ord_cmp_Equal [simp]: "ord_cmp x y = Equal \<longleftrightarrow> x = y"
  by (auto simp: ord_cmp_def)

end
