(* ===== verification/Float64.thy ===== *)
theory Float64
  imports Prelude Comparators Complex_Main "HOL-Library.Log_Nat"
begin

text \<open>
  The double-precision arithmetic that the ledger code uses: conversion from unsigned integers, quotients,
  differences and products rounded to nearest with ties to even, \<open>floor\<close>, \<open>max\<close>, comparison and the saturating cast to
  \<open>u64\<close>.  A finite number is the rational it denotes.  The range of exponents is not bounded: the
  operands in the code (bytes, coin values, sizes) give results between \<open>2 ^ -64\<close> and \<open>2 ^ 64\<close>, far from overflow and from
  subnormal numbers.
\<close>

section \<open>Rounding\<close>

text \<open>The nearest integer, the even one when there are two.\<close>

definition round_even :: "rat \<Rightarrow> int" where
  "round_even x =
    (let f = \<lfloor>x\<rfloor>; r = x - of_int f in
     if r < 1 / 2 then f else if 1 / 2 < r then f + 1 else if even f then f else f + 1)"

text \<open>The exponent of a positive number: the \<open>e\<close> with \<open>2 ^ e \<le> x < 2 ^ (e + 1)\<close>.\<close>

definition exponent :: "rat \<Rightarrow> int" where
  "exponent x =
    (let (n, d) = quotient_of x; e = int (floorlog 2 (nat n)) - int (floorlog 2 (nat d)) in
     if 2 powi e \<le> x then e else e - 1)"

definition round_pos :: "rat \<Rightarrow> rat" where
  "round_pos x = (let u = 2 powi (exponent x - 52) in of_int (round_even (x / u)) * u)"

definition round64 :: "rat \<Rightarrow> rat" where
  "round64 x = (if x = 0 then 0 else if x > 0 then round_pos x else - round_pos (- x))"

section \<open>Numbers\<close>

datatype f64 = Finite rat | PosInf | NegInf | NaN

definition f64_of_nat :: "nat \<Rightarrow> f64" where
  "f64_of_nat n = Finite (round64 (of_nat n))"

fun f64_div :: "f64 \<Rightarrow> f64 \<Rightarrow> f64" where
  "f64_div (Finite a) (Finite b) =
    (if b = 0 then (if a = 0 then NaN else if a > 0 then PosInf else NegInf) else Finite (round64 (a / b)))"
| "f64_div _ _ = NaN"

fun f64_sub :: "f64 \<Rightarrow> f64 \<Rightarrow> f64" where
  "f64_sub (Finite a) (Finite b) = Finite (round64 (a - b))"
| "f64_sub (Finite _) PosInf = NegInf"
| "f64_sub (Finite _) NegInf = PosInf"
| "f64_sub PosInf (Finite _) = PosInf"
| "f64_sub NegInf (Finite _) = NegInf"
| "f64_sub PosInf NegInf = PosInf"
| "f64_sub NegInf PosInf = NegInf"
| "f64_sub _ _ = NaN"

definition inf_of_sign :: "bool \<Rightarrow> f64" where
  "inf_of_sign pos = (if pos then PosInf else NegInf)"

fun f64_mul :: "f64 \<Rightarrow> f64 \<Rightarrow> f64" where
  "f64_mul (Finite a) (Finite b) = Finite (round64 (a * b))"
| "f64_mul (Finite a) PosInf = (if a = 0 then NaN else inf_of_sign (a > 0))"
| "f64_mul (Finite a) NegInf = (if a = 0 then NaN else inf_of_sign (a < 0))"
| "f64_mul PosInf (Finite a) = (if a = 0 then NaN else inf_of_sign (a > 0))"
| "f64_mul NegInf (Finite a) = (if a = 0 then NaN else inf_of_sign (a < 0))"
| "f64_mul PosInf PosInf = PosInf"
| "f64_mul NegInf NegInf = PosInf"
| "f64_mul PosInf NegInf = NegInf"
| "f64_mul NegInf PosInf = NegInf"
| "f64_mul _ _ = NaN"

fun f64_floor :: "f64 \<Rightarrow> f64" where
  "f64_floor (Finite a) = Finite (of_int \<lfloor>a\<rfloor>)"
| "f64_floor x = x"

text \<open>\<open>f64::max\<close> ignores a NaN.\<close>

fun f64_max :: "f64 \<Rightarrow> f64 \<Rightarrow> f64" where
  "f64_max NaN y = y"
| "f64_max x NaN = x"
| "f64_max (Finite a) (Finite b) = Finite (max a b)"
| "f64_max PosInf _ = PosInf"
| "f64_max _ PosInf = PosInf"
| "f64_max NegInf y = y"
| "f64_max x NegInf = x"

text \<open>\<open>as u64\<close> truncates and saturates; NaN becomes zero.\<close>

fun f64_as_u64 :: "f64 \<Rightarrow> u64" where
  "f64_as_u64 (Finite a) = (if a \<le> 0 then 0 else if 2 ^ 64 \<le> a then -1 else word_of_int \<lfloor>a\<rfloor>)"
| "f64_as_u64 PosInf = -1"
| "f64_as_u64 NegInf = 0"
| "f64_as_u64 NaN = 0"

text \<open>\<open>partial_cmp\<close>\<close>

fun f64_partial_cmp :: "f64 \<Rightarrow> f64 \<Rightarrow> cmp_ordering option" where
  "f64_partial_cmp (Finite a) (Finite b) = Some (ord_cmp a b)"
| "f64_partial_cmp NaN _ = None"
| "f64_partial_cmp _ NaN = None"
| "f64_partial_cmp PosInf PosInf = Some Equal"
| "f64_partial_cmp NegInf NegInf = Some Equal"
| "f64_partial_cmp PosInf _ = Some Greater"
| "f64_partial_cmp _ PosInf = Some Less"
| "f64_partial_cmp NegInf _ = Some Less"
| "f64_partial_cmp _ NegInf = Some Greater"

section \<open>Facts on rounding\<close>

lemma round_even_mono:
  assumes "x \<le> y"
  shows "round_even x \<le> round_even y"
proof (cases "\<lfloor>x\<rfloor> = \<lfloor>y\<rfloor>")
  case True
  with assms show ?thesis
    by (auto simp: round_even_def Let_def)
next
  case False
  then have "\<lfloor>x\<rfloor> + 1 \<le> \<lfloor>y\<rfloor>"
    using floor_mono [OF assms] by simp
  moreover have "round_even x \<le> \<lfloor>x\<rfloor> + 1" "\<lfloor>y\<rfloor> \<le> round_even y"
    by (simp_all add: round_even_def Let_def)
  ultimately show ?thesis by simp
qed

lemma round_even_of_int [simp]: "round_even (of_int n) = n"
  by (simp add: round_even_def)

lemma floorlog_int_bounds:
  assumes "0 < k"
  shows "2 powi (int (floorlog 2 (nat k)) - 1) \<le> (of_int k :: rat)" "(of_int k :: rat) < 2 powi int (floorlog 2 (nat k))"
proof -
  have b: "2 ^ (floorlog 2 (nat k) - 1) \<le> nat k" "nat k < 2 ^ floorlog 2 (nat k)"
    using floorlog_bounds [of "nat k" 2] assms by simp_all
  have pos: "0 < floorlog 2 (nat k)"
    using assms by (simp add: floorlog_def)
  have "(2 :: int) ^ (floorlog 2 (nat k) - 1) \<le> k" "k < 2 ^ floorlog 2 (nat k)"
    using b assms by (simp_all add: le_nat_iff nat_less_iff)
  then have "(of_int (2 ^ (floorlog 2 (nat k) - 1)) :: rat) \<le> of_int k" "(of_int k :: rat) < of_int (2 ^ floorlog 2 (nat k))"
    by (simp_all only: of_int_le_iff of_int_less_iff)
  then show "2 powi (int (floorlog 2 (nat k)) - 1) \<le> (of_int k :: rat)" "(of_int k :: rat) < 2 powi int (floorlog 2 (nat k))"
    using pos by (simp_all add: power_int_def nat_diff_distrib)
qed

lemma exponent_bounds:
  assumes "0 < x"
  shows "2 powi exponent x \<le> x" "x < 2 powi (exponent x + 1)"
proof -
  obtain n d where q: "quotient_of x = (n, d)" by (cases "quotient_of x")
  have x: "x = of_int n / of_int d" and d: "0 < d"
    using quotient_of_div [OF q] quotient_of_denom_pos [OF q] by simp_all
  then have n: "0 < n"
    using assms by (simp add: zero_less_divide_iff)
  define ln ld where "ln = int (floorlog 2 (nat n))" and "ld = int (floorlog 2 (nat d))"
  note bounds = floorlog_int_bounds [OF n, folded ln_def] floorlog_int_bounds [OF d, folded ld_def]
  have "2 powi (ln - 1) / 2 powi ld \<le> x"
    unfolding x using bounds d n by (intro frac_le) auto
  moreover have "x < 2 powi ln / 2 powi (ld - 1)"
    unfolding x using bounds d n by (intro frac_less) auto
  ultimately have "2 powi (ln - ld - 1) \<le> x" "x < 2 powi (ln - ld + 1)"
    by (simp_all flip: power_int_diff add: algebra_simps)
  then show "2 powi exponent x \<le> x" "x < 2 powi (exponent x + 1)"
    by (auto simp: exponent_def q ln_def [symmetric] ld_def [symmetric] Let_def)
qed

lemma powi_le_imp_le: "(2 :: rat) powi a < 2 powi b \<Longrightarrow> a < b"
  using power_int_increasing [of b a "2 :: rat"] by (force simp: not_le [symmetric])

lemma exponent_mono: "0 < x \<Longrightarrow> x \<le> y \<Longrightarrow> exponent x \<le> exponent y"
  using exponent_bounds [of x] exponent_bounds [of y] powi_le_imp_le [of "exponent x" "exponent y + 1"] by linarith

lemma round_pos_bounds:
  assumes "0 < x"
  shows "2 powi exponent x \<le> round_pos x" "round_pos x \<le> 2 powi (exponent x + 1)"
proof -
  define u :: rat where "u = 2 powi (exponent x - 52)"
  have u: "0 < u" by (simp add: u_def)
  have lo: "2 powi exponent x = of_int (2 ^ 52) * u" and hi: "2 powi (exponent x + 1) = of_int (2 ^ 53) * u"
    by (simp_all add: u_def power_int_diff power_int_add)
  have "of_int (2 ^ 52) \<le> x / u" "x / u \<le> of_int (2 ^ 53)"
    using exponent_bounds [OF assms] u unfolding lo hi by (simp_all add: field_simps)
  then have "2 ^ 52 \<le> round_even (x / u)" "round_even (x / u) \<le> 2 ^ 53"
    using round_even_mono [of "of_int (2 ^ 52)" "x / u"] round_even_mono [of "x / u" "of_int (2 ^ 53)"]
    by (simp_all only: round_even_of_int)
  then have "of_int (2 ^ 52) \<le> (of_int (round_even (x / u)) :: rat)" "of_int (round_even (x / u)) \<le> (of_int (2 ^ 53) :: rat)"
    by (simp_all only: of_int_le_iff)
  from this [THEN mult_right_mono, of u] u show "2 powi exponent x \<le> round_pos x" "round_pos x \<le> 2 powi (exponent x + 1)"
    unfolding lo hi round_pos_def Let_def u_def [symmetric] by (simp_all only: less_imp_le)
qed

lemma round_pos_mono:
  assumes "0 < x" "x \<le> y"
  shows "round_pos x \<le> round_pos y"
proof (cases "exponent x = exponent y")
  case True
  define u :: rat where "u = 2 powi (exponent y - 52)"
  have "0 < u" by (simp add: u_def)
  with assms have "round_even (x / u) \<le> round_even (y / u)"
    by (intro round_even_mono divide_right_mono) auto
  with True \<open>0 < u\<close> show ?thesis
    by (simp add: round_pos_def Let_def u_def [symmetric])
next
  case False
  then have "exponent x + 1 \<le> exponent y"
    using exponent_mono [OF assms] by simp
  then have "(2 :: rat) powi (exponent x + 1) \<le> 2 powi exponent y"
    by (intro power_int_increasing) auto
  with round_pos_bounds [of x] round_pos_bounds [of y] assms show ?thesis
    by linarith
qed

lemma round64_mono: "0 \<le> x \<Longrightarrow> x \<le> y \<Longrightarrow> round64 x \<le> round64 y"
  using round_pos_mono [of x y] round_pos_bounds(1) [of y] order_trans [of 0 "2 powi exponent y" "round_pos y"]
  by (auto simp: round64_def)

lemma round64_0 [simp]: "round64 0 = 0"
  by (simp add: round64_def)

lemma round64_nonneg: "0 \<le> x \<Longrightarrow> 0 \<le> round64 x"
  using round64_mono [of 0 x] by simp

lemma round64_nonpos: "x \<le> 0 \<Longrightarrow> round64 x \<le> 0"
  using round64_nonneg [of "- x"] by (auto simp: round64_def split: if_splits)

text \<open>Integers of at most 53 bits are exact.\<close>

lemma round64_of_nat:
  assumes "n < 2 ^ 53"
  shows "round64 (of_nat n) = of_nat n"
proof (cases "n = 0")
  case False
  define e where "e = exponent (of_nat n)"
  have b: "2 powi e \<le> (of_nat n :: rat)"
    using exponent_bounds [of "of_nat n"] False by (simp add: e_def)
  have "(of_nat n :: rat) < of_nat (2 ^ 53)"
    using assms by (simp only: of_nat_less_iff)
  then have "(of_nat n :: rat) < 2 powi 53"
    by simp
  with b have "(2 :: rat) powi e < 2 powi 53"
    by (rule le_less_trans)
  then have e: "e \<le> 52"
    using powi_le_imp_le [of e 53] by simp
  have "(2 :: rat) powi (e - 52) = inverse (2 powi int (nat (52 - e)))"
    using e by (simp flip: power_int_minus)
  then have u: "(2 :: rat) powi (e - 52) = inverse (2 ^ nat (52 - e))"
    by (simp add: power_int_def)
  have "round_even (of_nat n / 2 powi (e - 52)) = int (n * 2 ^ nat (52 - e))"
    using round_even_of_int [of "int (n * 2 ^ nat (52 - e))"] by (simp add: u divide_inverse)
  then show ?thesis
    using False by (simp add: round64_def round_pos_def e_def [symmetric] u)
qed simp

lemma round64_1 [simp]: "round64 1 = 1"
  using round64_of_nat [of 1] by simp

lemma f64_of_nat_exact: "n < 2 ^ 53 \<Longrightarrow> f64_of_nat n = Finite (of_nat n)"
  by (simp add: f64_of_nat_def round64_of_nat)

text \<open>Comparing numbers that are not NaN is a comparison in the sense of \<open>comparator\<close>.\<close>

lemma comparator_f64:
  assumes "\<And>x. \<exists>q. f x = Finite q"
  shows "comparator (\<lambda>a b. case f64_partial_cmp (f a) (f b) of Some o1 \<Rightarrow> o1 | None \<Rightarrow> Equal)"
proof -
  define g where "g x = (case f x of Finite q \<Rightarrow> q | _ \<Rightarrow> 0)" for x
  have "f = (\<lambda>x. Finite (g x))"
  proof
    fix x
    show "f x = Finite (g x)"
      using assms [of x] by (auto simp: g_def)
  qed
  then show ?thesis
    using comparator_key [of g] by simp
qed

end
