(* ===== verification/Primitives.thy ===== *)
theory Primitives
  imports Coin Policy Comparators
begin

text \<open>
  Small types shared by transactions and accounts: account types and network identifiers
  (\<open>primitives/src/account.rs\<close>, \<open>primitives/src/networks.rs\<close>), the fixed-size byte strings of addresses,
  hashes, keys and signatures (\<open>macros/src/lib.rs\<close>, \<open>keys/src\<close>, \<open>bls/src/serialization.rs\<close>), and the
  record of cryptographic primitives.  Hash functions, ed25519 and BLS are provided by third-party
  crates: every definition that uses one takes the record \<open>crypto\<close> as an argument.
\<close>

section \<open>Enumerations on the wire\<close>

text \<open>What \<open>#[derive(Serialize, Deserialize)]\<close> generates for an enumeration with explicit \<open>u8\<close>
  discriminants: an unknown discriminant is an invalid value.\<close>

definition deser_enum :: "(u8 \<times> 'a) list \<Rightarrow> 'a reader" where
  "deser_enum table = dbind deser_u8 (\<lambda>d. case map_of table d of Some x \<Rightarrow> dret x | None \<Rightarrow> dfail InvalidValue)"

lemma encodes_enum: "map_of table d = Some x \<Longrightarrow> encodes (ser_u8 d) (deser_enum table) x 1"
  unfolding deser_enum_def by (rule encodes_last [OF u8.encoded]) simp_all

datatype account_type = AT_Basic | AT_Vesting | AT_HTLC | AT_Staking

fun account_type_u8 :: "account_type \<Rightarrow> u8" where
  "account_type_u8 AT_Basic = 0"
| "account_type_u8 AT_Vesting = 1"
| "account_type_u8 AT_HTLC = 2"
| "account_type_u8 AT_Staking = 3"

datatype account_type_error = AccountTypeError u8

definition account_type_try_from :: "u8 \<Rightarrow> (account_type, account_type_error) result" where
  "account_type_try_from v =
    (if v = 0 then Inr AT_Basic else if v = 1 then Inr AT_Vesting else if v = 2 then Inr AT_HTLC
     else if v = 3 then Inr AT_Staking else Inl (Err (AccountTypeError v)))"

definition ser_account_type :: "account_type \<Rightarrow> written" where
  "ser_account_type t = ser_u8 (account_type_u8 t)"

definition deser_account_type :: "account_type reader" where
  "deser_account_type = deser_enum [(0, AT_Basic), (1, AT_Vesting), (2, AT_HTLC), (3, AT_Staking)]"

instantiation account_type :: linorder
begin

definition less_eq_account_type :: "account_type \<Rightarrow> account_type \<Rightarrow> bool" where
  "less_eq_account_type a b \<longleftrightarrow> account_type_u8 a \<le> account_type_u8 b"

definition less_account_type :: "account_type \<Rightarrow> account_type \<Rightarrow> bool" where
  "less_account_type a b \<longleftrightarrow> account_type_u8 a < account_type_u8 b"

instance
proof
  fix a b :: account_type
  show "a \<le> b \<Longrightarrow> b \<le> a \<Longrightarrow> a = b"
    by (cases a; cases b) (simp_all add: less_eq_account_type_def word_le_nat_alt)
qed (auto simp: less_eq_account_type_def less_account_type_def)

end

datatype network_id = Test | Dev | Bounty | Dummy | Main | TestAlbatross | DevAlbatross | UnitAlbatross

fun network_id_u8 :: "network_id \<Rightarrow> u8" where
  "network_id_u8 Test = 1"
| "network_id_u8 Dev = 2"
| "network_id_u8 Bounty = 3"
| "network_id_u8 Dummy = 4"
| "network_id_u8 Main = 42"
| "network_id_u8 TestAlbatross = 5"
| "network_id_u8 DevAlbatross = 6"
| "network_id_u8 UnitAlbatross = 7"

definition network_id_table :: "(u8 \<times> network_id) list" where
  "network_id_table = map (\<lambda>n. (network_id_u8 n, n))
     [Test, Dev, Bounty, Dummy, Main, TestAlbatross, DevAlbatross, UnitAlbatross]"

definition ser_network_id :: "network_id \<Rightarrow> written" where
  "ser_network_id n = ser_u8 (network_id_u8 n)"

definition deser_network_id :: "network_id reader" where
  "deser_network_id = deser_enum network_id_table"

definition is_albatross :: "network_id \<Rightarrow> bool" where
  "is_albatross n \<longleftrightarrow> n = TestAlbatross \<or> n = DevAlbatross"

text \<open>\<open>str::to_lowercase\<close> on ASCII letters; the names below are ASCII.\<close>

definition to_lowercase :: "string \<Rightarrow> string" where
  "to_lowercase s = map (\<lambda>c. if 65 \<le> (of_char c :: nat) \<and> (of_char c :: nat) \<le> 90 then char_of (of_char c + 32 :: nat) else c) s"

datatype network_id_parse_error = NetworkIdParseError string

definition network_id_from_str :: "string \<Rightarrow> (network_id, network_id_parse_error) result" where
  "network_id_from_str s =
    (let l = to_lowercase s in
     if l = ''test'' then Inr Test
     else if l = ''dev'' then Inr Dev
     else if l = ''bounty'' then Inr Bounty
     else if l = ''dummy'' then Inr Dummy
     else if l = ''main'' then Inr Main
     else if l = ''testalbatross'' then Inr TestAlbatross
     else if l = ''devalbatross'' then Inr DevAlbatross
     else Inl (Err (NetworkIdParseError s)))"

fun network_id_fmt :: "network_id \<Rightarrow> string" where
  "network_id_fmt Test = ''Test''"
| "network_id_fmt Dev = ''Dev''"
| "network_id_fmt Bounty = ''Bounty''"
| "network_id_fmt Dummy = ''Dummy''"
| "network_id_fmt Main = ''Main''"
| "network_id_fmt TestAlbatross = ''TestAlbatross''"
| "network_id_fmt DevAlbatross = ''DevAlbatross''"
| "network_id_fmt UnitAlbatross = ''UnitAlbatross''"

interpretation account_type: codec ser_account_type deser_account_type "\<lambda>_. 1" "\<lambda>_. True"
proof
  fix t :: account_type
  show "encodes (ser_account_type t) deser_account_type t 1"
    unfolding ser_account_type_def deser_account_type_def by (rule encodes_enum) (cases t; simp)
qed

interpretation network_id: codec ser_network_id deser_network_id "\<lambda>_. 1" "\<lambda>_. True"
proof
  fix n :: network_id
  show "encodes (ser_network_id n) deser_network_id n 1"
    unfolding ser_network_id_def deser_network_id_def by (rule encodes_enum) (cases n; simp add: network_id_table_def)
qed

lemmas [encodes_fields] =
  encodes_wseqs_Cons [OF account_type.encoded]
  encodes_wseqs_Cons [OF network_id.encoded]

lemma account_type_try_from_u8: "account_type_try_from (account_type_u8 t) = Inr t"
  by (cases t) (simp_all add: account_type_try_from_def)

text \<open>Every network's printed name is parsed back, except the unit-test network's.\<close>

lemma network_id_from_str_fmt:
  "network_id_from_str (network_id_fmt n) =
    (if n = UnitAlbatross then Inl (Err (NetworkIdParseError ''UnitAlbatross'')) else Inr n)"
  by (cases n; simp only:; code_simp)

section \<open>Byte strings of fixed size\<close>

type_synonym address = bytes
type_synonym blake2b_hash = bytes
type_synonym public_key = bytes
type_synonym signature = bytes
type_synonym bls_public_key = bytes
type_synonym bls_signature = bytes

definition address_ok :: "address \<Rightarrow> bool" where "address_ok a \<longleftrightarrow> length a = 20"
definition hash_ok :: "blake2b_hash \<Rightarrow> bool" where "hash_ok h \<longleftrightarrow> length h = 32"
definition bls_key_ok :: "bls_public_key \<Rightarrow> bool" where "bls_key_ok k \<longleftrightarrow> length k = 285"
definition bls_sig_ok :: "bls_signature \<Rightarrow> bool" where "bls_sig_ok s \<longleftrightarrow> length s = 95"

definition ser_address :: "address \<Rightarrow> written" where "ser_address = ser_array"
definition deser_address :: "address reader" where "deser_address = deser_array 20"
definition ser_hash :: "blake2b_hash \<Rightarrow> written" where "ser_hash = ser_array"
definition deser_hash :: "blake2b_hash reader" where "deser_hash = deser_array 32"

text \<open>The compressed BLS keys assert their length when written.\<close>

definition ser_bls_key :: "bls_public_key \<Rightarrow> written" where
  "ser_bls_key k = (if length k = 285 then Inr k else Inl Panic)"
definition deser_bls_key :: "bls_public_key reader" where "deser_bls_key = deser_array 285"
definition ser_bls_sig :: "bls_signature \<Rightarrow> written" where
  "ser_bls_sig s = (if length s = 95 then Inr s else Inl Panic)"
definition deser_bls_sig :: "bls_signature reader" where "deser_bls_sig = deser_array 95"
definition bls_sig_default :: bls_signature where "bls_sig_default = replicate 95 0"

interpretation address: codec ser_address deser_address "\<lambda>_. 20" address_ok
  by unfold_locales (simp add: ser_address_def deser_address_def encodes_array address_ok_def)

interpretation hash: codec ser_hash deser_hash "\<lambda>_. 32" hash_ok
  by unfold_locales (simp add: ser_hash_def deser_hash_def encodes_array hash_ok_def)

interpretation bls_key: codec ser_bls_key deser_bls_key "\<lambda>_. 285" bls_key_ok
  by unfold_locales (simp add: ser_bls_key_def deser_bls_key_def bls_key_ok_def deser_array_def encodes_read_exact)

interpretation bls_sig: codec ser_bls_sig deser_bls_sig "\<lambda>_. 95" bls_sig_ok
  by unfold_locales (simp add: ser_bls_sig_def deser_bls_sig_def bls_sig_ok_def deser_array_def encodes_read_exact)

lemmas [encodes_fields] =
  encodes_wseqs_Cons [OF address.encoded]
  encodes_wseqs_Cons [OF hash.encoded]
  encodes_wseqs_Cons [OF bls_key.encoded]
  encodes_wseqs_Cons [OF bls_sig.encoded]

lemma bls_sig_default_ok [simp]: "bls_sig_ok bls_sig_default"
  by (simp add: bls_sig_ok_def bls_sig_default_def)

section \<open>Cryptographic primitives\<close>

record crypto =
  blake2b :: "bytes \<Rightarrow> bytes"
  sha256 :: "bytes \<Rightarrow> bytes"
  ed_key_valid :: "public_key \<Rightarrow> bool"
  ed_sig_valid :: "signature \<Rightarrow> bool"
  ed_verify :: "public_key \<Rightarrow> signature \<Rightarrow> bytes \<Rightarrow> bool"
  bls_key_valid :: "bls_public_key \<Rightarrow> bool"
  bls_sig_valid :: "bls_signature \<Rightarrow> bool"
  bls_verify :: "bls_public_key \<Rightarrow> bytes \<Rightarrow> bls_signature \<Rightarrow> bool"

definition ed_key_ok :: "crypto \<Rightarrow> public_key \<Rightarrow> bool" where
  "ed_key_ok cr k \<longleftrightarrow> length k = 32 \<and> ed_key_valid cr k"

definition ed_sig_ok :: "crypto \<Rightarrow> signature \<Rightarrow> bool" where
  "ed_sig_ok cr s \<longleftrightarrow> length s = 64 \<and> ed_sig_valid cr s"

definition ser_public_key :: "public_key \<Rightarrow> written" where "ser_public_key = ser_array"

definition deser_public_key :: "crypto \<Rightarrow> public_key reader" where
  "deser_public_key cr = dbind (read_exact 32) (\<lambda>k. if ed_key_valid cr k then dret k else dfail InvalidValue)"

definition ser_signature :: "signature \<Rightarrow> written" where "ser_signature = ser_array"

definition deser_signature :: "crypto \<Rightarrow> signature reader" where
  "deser_signature cr = dbind (read_exact 64) (\<lambda>s. if ed_sig_valid cr s then dret s else dfail InvalidValue)"

interpretation public_key: codec ser_public_key "deser_public_key cr" "\<lambda>_. 32" "ed_key_ok cr" for cr
proof
  fix k
  assume "ed_key_ok cr k"
  then show "encodes (ser_public_key k) (deser_public_key cr) k 32"
    unfolding ser_public_key_def deser_public_key_def ser_array_def ed_key_ok_def
    by (intro encodes_last [OF encodes_read_exact]) auto
qed

interpretation signature: codec ser_signature "deser_signature cr" "\<lambda>_. 64" "ed_sig_ok cr" for cr
proof
  fix s
  assume "ed_sig_ok cr s"
  then show "encodes (ser_signature s) (deser_signature cr) s 64"
    unfolding ser_signature_def deser_signature_def ser_array_def ed_sig_ok_def
    by (intro encodes_last [OF encodes_read_exact]) auto
qed

lemmas [encodes_fields] =
  encodes_wseqs_Cons [OF public_key.encoded]
  encodes_wseqs_Cons [OF signature.encoded]

text \<open>\<open>Address::from(Blake2bHash)\<close> and \<open>Address::from(&PublicKey)\<close>.\<close>

definition address_from_hash :: "blake2b_hash \<Rightarrow> address" where
  "address_from_hash h = take 20 h"

definition address_from_key :: "crypto \<Rightarrow> public_key \<Rightarrow> address" where
  "address_from_key cr k = address_from_hash (blake2b cr k)"

text \<open>An instance of the primitives at which concrete values can be evaluated: a hash that pads and cuts, and
  signatures that are accepted when they repeat the key's first byte.\<close>

definition example_crypto :: crypto where
  "example_crypto =
    \<lparr>blake2b = (\<lambda>bs. take 32 (bs @ replicate 32 0)), sha256 = (\<lambda>bs. take 32 (rev bs @ replicate 32 1)),
     ed_key_valid = (\<lambda>k. True), ed_sig_valid = (\<lambda>s. True), ed_verify = (\<lambda>k s d. s = replicate 64 (hd k)),
     bls_key_valid = (\<lambda>k. True), bls_sig_valid = (\<lambda>s. True), bls_verify = (\<lambda>k d s. True)\<rparr>"

end
