(* ===== verification/Merkle.thy ===== *)
theory Merkle
  imports Primitives
begin

text \<open>
  Merkle trees, paths and proofs (\<open>utils/src/merkle/mod.rs\<close>).  The hash function \<open>H\<close> is an argument: what a
  builder returns after writing some bytes.  A tree over a list of hashes splits it in the middle; a
  path leads from one leaf to the root, a proof replays the tree with a stack machine whose input are
  the proved leaves.  The main results are that both recompute the root, and that both survive their
  wire format.
\<close>

section \<open>Trees\<close>

definition ceiling_div :: "nat \<Rightarrow> nat \<Rightarrow> nat" where
  "ceiling_div x y = (x + y - 1) div y"

lemma ceiling_div_2: "2 \<le> n \<Longrightarrow> 0 < ceiling_div n 2 \<and> ceiling_div n 2 < n"
  by (auto simp: ceiling_div_def)

function compute_root_from_slice :: "(bytes \<Rightarrow> bytes) \<Rightarrow> bytes list \<Rightarrow> bytes" where
  "compute_root_from_slice H values =
    (case values of
       [] \<Rightarrow> H []
     | [v] \<Rightarrow> v
     | _ \<Rightarrow> (let mid = ceiling_div (length values) 2 in
         H (compute_root_from_slice H (take mid values) @ compute_root_from_slice H (drop mid values))))"
  by pat_completeness auto

termination
  by (relation "measure (\<lambda>(H, values). length values)") (auto simp: ceiling_div_def)

declare compute_root_from_slice.simps [simp del]

definition compute_root_from_content :: "(bytes \<Rightarrow> bytes) \<Rightarrow> bytes list \<Rightarrow> bytes" where
  "compute_root_from_content H values = compute_root_from_slice H (map H values)"

section \<open>Paths\<close>

record merkle_path_node =
  pn_hash :: bytes
  pn_left :: bool

type_synonym merkle_path = "merkle_path_node list"

function path_compute ::
  "(bytes \<Rightarrow> bytes) \<Rightarrow> bytes list \<Rightarrow> bytes \<Rightarrow> merkle_path \<Rightarrow> bool \<times> bytes \<times> merkle_path" where
  "path_compute H values leaf_hash path =
    (case values of
       [] \<Rightarrow> (False, H [], path)
     | [v] \<Rightarrow> (H v = leaf_hash, H v, path)
     | _ \<Rightarrow>
        (let mid = ceiling_div (length values) 2;
             (contains_left, left_hash, path1) = path_compute H (take mid values) leaf_hash path;
             (contains_right, right_hash, path2) = path_compute H (drop mid values) leaf_hash path1;
             hash = H (left_hash @ right_hash) in
         if contains_left then (True, hash, path2 @ [\<lparr>pn_hash = right_hash, pn_left = False\<rparr>])
         else if contains_right then (True, hash, path2 @ [\<lparr>pn_hash = left_hash, pn_left = True\<rparr>])
         else (False, hash, path2)))"
  by pat_completeness auto

termination
  by (relation "measure (\<lambda>(H, values, lh, path). length values)") (auto simp: ceiling_div_def)

declare path_compute.simps [simp del]

definition path_new :: "(bytes \<Rightarrow> bytes) \<Rightarrow> bytes list \<Rightarrow> bytes \<Rightarrow> merkle_path" where
  "path_new H values leaf_value = snd (snd (path_compute H values (H leaf_value) []))"

definition path_step :: "(bytes \<Rightarrow> bytes) \<Rightarrow> bytes \<Rightarrow> merkle_path_node \<Rightarrow> bytes" where
  "path_step H root node =
    H ((if pn_left node then pn_hash node else []) @ root @ (if \<not> pn_left node then pn_hash node else []))"

definition path_compute_root :: "(bytes \<Rightarrow> bytes) \<Rightarrow> merkle_path \<Rightarrow> bytes \<Rightarrow> bytes" where
  "path_compute_root H path leaf_value = foldl (path_step H) (H leaf_value) path"

text \<open>The \<open>left\<close> flags are packed into bytes, most significant bit first.\<close>

fun path_compress_from :: "nat \<Rightarrow> merkle_path \<Rightarrow> bytes \<Rightarrow> bytes" where
  "path_compress_from i [] left_bits = left_bits"
| "path_compress_from i (node # nodes) left_bits =
    path_compress_from (Suc i) nodes
      (if pn_left node then left_bits[i div 8 := left_bits ! (i div 8) OR drop_bit (i mod 8) 0x80] else left_bits)"

definition path_compress :: "merkle_path \<Rightarrow> bytes" where
  "path_compress nodes = path_compress_from 0 nodes (replicate (ceiling_div (length nodes) 8) 0)"

definition path_decompress :: "nat \<Rightarrow> bytes \<Rightarrow> bool" where
  "path_decompress node_index left_bits \<longleftrightarrow> left_bits ! (node_index div 8) AND drop_bit (node_index mod 8) 0x80 \<noteq> 0"

text \<open>The count is cast to a byte, so a longer path is written wrongly.\<close>

definition ser_merkle_path :: "merkle_path \<Rightarrow> written" where
  "ser_merkle_path nodes =
    wseqs ([ser_u8 (of_nat (length nodes)), Inr (path_compress nodes)] @ map (\<lambda>node. ser_hash (pn_hash node)) nodes)"

fun read_path_nodes :: "bytes \<Rightarrow> nat \<Rightarrow> nat \<Rightarrow> merkle_path reader" where
  "read_path_nodes left_bits i 0 = dret []"
| "read_path_nodes left_bits i (Suc n) =
    dbind deser_hash (\<lambda>h. dbind (read_path_nodes left_bits (Suc i) n)
      (\<lambda>nodes. dret (\<lparr>pn_hash = h, pn_left = path_decompress i left_bits\<rparr> # nodes)))"

definition deser_merkle_path :: "merkle_path reader" where
  "deser_merkle_path =
    dbind deser_u8 (\<lambda>count.
    dbind (read_exact (ceiling_div (unat count) 8)) (\<lambda>left_bits.
    read_path_nodes left_bits 0 (unat count)))"

definition size_merkle_path :: "merkle_path \<Rightarrow> nat" where
  "size_merkle_path nodes = 1 + ceiling_div (length nodes) 8 + 32 * length nodes"

section \<open>Proofs\<close>

datatype merkle_proof_operation = ConsumeProof | ConsumeInput | Hash

record merkle_proof =
  mp_nodes :: "bytes list"
  mp_operations :: "merkle_proof_operation list"

text \<open>\<open>compute\<close> returns whether the slice has a leaf to prove, its hash, and what it has appended to the
  nodes and operations.\<close>

function proof_compute ::
  "(bytes \<Rightarrow> bytes) \<Rightarrow> bytes list \<Rightarrow> bytes list \<Rightarrow> bool \<times> bytes \<times> bytes list \<times> merkle_proof_operation list" where
  "proof_compute H hashes hashes_to_proof =
    (case hashes of
       [] \<Rightarrow> (False, H [], [H []], [ConsumeProof])
     | [h] \<Rightarrow> if h \<in> set hashes_to_proof then (True, h, [], [ConsumeInput]) else (False, h, [h], [ConsumeProof])
     | _ \<Rightarrow>
        (let mid = ceiling_div (length hashes) 2;
             (contains_left, left_hash, path1, ops1) = proof_compute H (take mid hashes) hashes_to_proof;
             (contains_right, right_hash, path2, ops2) = proof_compute H (drop mid hashes) hashes_to_proof;
             hash = H (left_hash @ right_hash) in
         if \<not> contains_left \<and> \<not> contains_right then (False, hash, [hash], [ConsumeProof])
         else (True, hash, path1 @ path2, ops1 @ ops2 @ [Hash])))"
  by pat_completeness auto

termination
  by (relation "measure (\<lambda>(H, hashes, p). length hashes)") (auto simp: ceiling_div_def)

declare proof_compute.simps [simp del]

definition proof_new :: "(bytes \<Rightarrow> bytes) \<Rightarrow> bytes list \<Rightarrow> bytes list \<Rightarrow> merkle_proof" where
  "proof_new H hashes hashes_to_proof =
    (let (_, _, nodes, operations) = proof_compute H hashes hashes_to_proof in
     \<lparr>mp_nodes = nodes, mp_operations = operations\<rparr>)"

definition proof_from_values :: "(bytes \<Rightarrow> bytes) \<Rightarrow> bytes list \<Rightarrow> bytes list \<Rightarrow> merkle_proof" where
  "proof_from_values H values values_to_proof = proof_new H (map H values) (map H values_to_proof)"

datatype merkle_proof_error = InvalidMerkleProofError string

text \<open>The stack machine: the operations left, the stack (top first), the proof nodes and the input not
  consumed yet.\<close>

fun proof_run :: "(bytes \<Rightarrow> bytes) \<Rightarrow> merkle_proof_operation list \<Rightarrow> bytes list \<Rightarrow> bytes list \<Rightarrow> bytes list
    \<Rightarrow> (bytes list \<times> bytes list \<times> bytes list, merkle_proof_error) result" where
  "proof_run H [] stack nodes input = Inr (stack, nodes, input)"
| "proof_run H (ConsumeProof # ops) stack nodes input =
    (case nodes of [] \<Rightarrow> Inl (Err (InvalidMerkleProofError ''Found invalid operation.''))
     | n # nodes' \<Rightarrow> proof_run H ops (n # stack) nodes' input)"
| "proof_run H (ConsumeInput # ops) stack nodes input =
    (case input of [] \<Rightarrow> Inl (Err (InvalidMerkleProofError ''Found invalid operation.''))
     | h # input' \<Rightarrow> proof_run H ops (h # stack) nodes input')"
| "proof_run H (Hash # ops) stack nodes input =
    (case stack of right_hash # left_hash # stack' \<Rightarrow> proof_run H ops (H (left_hash @ right_hash) # stack') nodes input
     | _ \<Rightarrow> Inl (Err (InvalidMerkleProofError ''Found invalid operation.'')))"

definition proof_compute_root :: "(bytes \<Rightarrow> bytes) \<Rightarrow> merkle_proof \<Rightarrow> bytes list \<Rightarrow> (bytes, merkle_proof_error) result" where
  "proof_compute_root H proof leaf_hashes =
    rbind (proof_run H (mp_operations proof) [] (mp_nodes proof) leaf_hashes) (\<lambda>(stack, nodes, input).
      case stack of
        [root] \<Rightarrow> if nodes = [] \<and> input = [] then Inr root
                  else Inl (Err (InvalidMerkleProofError ''Did not consume all nodes.''))
      | _ \<Rightarrow> Inl (Err (InvalidMerkleProofError ''Did not consume all nodes.'')))"

definition proof_compute_root_from_values ::
  "(bytes \<Rightarrow> bytes) \<Rightarrow> merkle_proof \<Rightarrow> bytes list \<Rightarrow> (bytes, merkle_proof_error) result" where
  "proof_compute_root_from_values H proof leaf_values = proof_compute_root H proof (map H leaf_values)"

text \<open>\<open>with_absence\<close>: for a leaf that is missing from the sorted values, its neighbours are proved
  instead.  The loop keeps the value before the current one (\<open>values[value_index - 1]\<close>).\<close>

fun absence_loop :: "'a::linorder option \<Rightarrow> 'a list \<Rightarrow> 'a list \<Rightarrow> 'a list \<times> 'a list" where
  "absence_loop prev [] leaves = ([], leaves)"
| "absence_loop prev (v # vs) [] = ([], [])"
| "absence_loop prev (v # vs) (l # ls) =
    (if v = l then (let (out, rest) = absence_loop prev (v # vs) ls in (l # out, rest))
     else if v > l then (let (out, rest) = absence_loop prev (v # vs) ls in
       ((case prev of Some p \<Rightarrow> [p] | None \<Rightarrow> []) @ v # out, rest))
     else absence_loop (Some v) vs (l # ls))"

definition absence_values :: "'a::linorder list \<Rightarrow> 'a list \<Rightarrow> 'a list" where
  "absence_values values values_to_proof =
    (let (out, rest) = absence_loop None values (sort values_to_proof) in
     if rest \<noteq> [] \<and> values \<noteq> [] then out @ [last values] else out)"

definition proof_with_absence :: "(bytes \<Rightarrow> bytes) \<Rightarrow> ('a::linorder \<Rightarrow> bytes) \<Rightarrow> 'a list \<Rightarrow> 'a list \<Rightarrow> merkle_proof" where
  "proof_with_absence H content values values_to_proof =
    proof_new H (map (\<lambda>v. H (content v)) values) (map (\<lambda>v. H (content v)) (absence_values values values_to_proof))"

text \<open>Operations are packed two bits each, least significant first.\<close>

fun operation_u8 :: "merkle_proof_operation \<Rightarrow> u8" where
  "operation_u8 ConsumeProof = 0"
| "operation_u8 ConsumeInput = 1"
| "operation_u8 Hash = 2"

definition operation_from_u8 :: "u8 \<Rightarrow> merkle_proof_operation option" where
  "operation_from_u8 v =
    (if v = 0 then Some ConsumeProof else if v = 1 then Some ConsumeInput else if v = 2 then Some Hash else None)"

fun proof_compress_from :: "nat \<Rightarrow> merkle_proof_operation list \<Rightarrow> bytes \<Rightarrow> bytes" where
  "proof_compress_from i [] operation_bits = operation_bits"
| "proof_compress_from i (op # ops) operation_bits =
    proof_compress_from (Suc i) ops
      (operation_bits[i div 4 := operation_bits ! (i div 4) OR push_bit (i mod 4 * 2) (operation_u8 op)])"

definition proof_compress :: "merkle_proof_operation list \<Rightarrow> bytes" where
  "proof_compress ops = proof_compress_from 0 ops (replicate (ceiling_div (length ops) 4) 0)"

definition operation_at :: "bytes \<Rightarrow> nat \<Rightarrow> u8" where
  "operation_at operation_bits i = drop_bit (i mod 4 * 2) (operation_bits ! (i div 4)) AND 0x3"

fun proof_decompress_from :: "nat \<Rightarrow> nat \<Rightarrow> bytes \<Rightarrow> merkle_proof_operation list option" where
  "proof_decompress_from i 0 operation_bits = Some []"
| "proof_decompress_from i (Suc n) operation_bits =
    (case operation_from_u8 (operation_at operation_bits i) of
       None \<Rightarrow> None
     | Some op \<Rightarrow> (case proof_decompress_from (Suc i) n operation_bits of None \<Rightarrow> None | Some ops \<Rightarrow> Some (op # ops)))"

definition proof_decompress :: "nat \<Rightarrow> bytes \<Rightarrow> merkle_proof_operation list option" where
  "proof_decompress num_operations operation_bits = proof_decompress_from 0 num_operations operation_bits"

definition ser_merkle_proof :: "merkle_proof \<Rightarrow> written" where
  "ser_merkle_proof p =
    wseqs [ser_u16 (of_nat (length (mp_operations p))), Inr (proof_compress (mp_operations p)), ser_vec 2 ser_hash (mp_nodes p)]"

definition deser_merkle_proof :: "merkle_proof reader" where
  "deser_merkle_proof =
    dbind deser_u16 (\<lambda>count.
    dbind (read_exact (ceiling_div (unat count) 4)) (\<lambda>operation_bits.
    case proof_decompress (unat count) operation_bits of
      None \<Rightarrow> dfail (IoError UnexpectedEof)
    | Some operations \<Rightarrow> dbind (deser_vec 2 deser_hash) (\<lambda>nodes. dret \<lparr>mp_nodes = nodes, mp_operations = operations\<rparr>)))"

definition size_merkle_proof :: "merkle_proof \<Rightarrow> (nat, 'e) result" where
  "size_merkle_proof p =
    rbind (serialized_size_vec 2 (\<lambda>_. 32) (mp_nodes p)) (\<lambda>n. Inr (2 + ceiling_div (length (mp_operations p)) 4 + n))"

text \<open>The number of bytes when the nodes fit their length field.\<close>

definition proof_bytes :: "merkle_proof \<Rightarrow> nat" where
  "proof_bytes p = 2 + ceiling_div (length (mp_operations p)) 4 + size_vec 2 (\<lambda>_. 32) (mp_nodes p)"

section \<open>The root of a split tree\<close>

lemma root_simps [simp]:
  "compute_root_from_slice H [] = H []"
  "compute_root_from_slice H [v] = v"
  by (subst compute_root_from_slice.simps; simp)+

lemma root_split:
  assumes "2 \<le> length xs"
  shows "compute_root_from_slice H xs =
    H (compute_root_from_slice H (take (ceiling_div (length xs) 2) xs) @
       compute_root_from_slice H (drop (ceiling_div (length xs) 2) xs))"
proof -
  obtain a b ys where "xs = a # b # ys"
    using assms by (cases xs; cases "tl xs") auto
  then show ?thesis
    by (subst compute_root_from_slice.simps) (simp add: Let_def)
qed

lemma halves:
  assumes "2 \<le> length xs"
  shows "length (take (ceiling_div (length xs) 2) xs) < length xs" "length (drop (ceiling_div (length xs) 2) xs) < length xs"
  using ceiling_div_2 [OF assms] by auto

lemma split_induct [case_names Nil single split]:
  assumes "P []" "\<And>x. P [x]"
    and "\<And>xs. 2 \<le> length xs \<Longrightarrow> P (take (ceiling_div (length xs) 2) xs) \<Longrightarrow> P (drop (ceiling_div (length xs) 2) xs) \<Longrightarrow> P xs"
  shows "P xs"
proof (induction xs rule: length_induct)
  case (1 xs)
  show ?case
  proof (cases "2 \<le> length xs")
    case True
    show ?thesis
      by (rule assms(3) [OF True]) (use 1 halves [OF True] in blast)+
  next
    case False
    then show ?thesis
      using assms(1,2) by (cases xs) (auto simp: not_le)
  qed
qed

section \<open>Paths lead to the root\<close>

definition occurrences :: "(bytes \<Rightarrow> bytes) \<Rightarrow> bytes list \<Rightarrow> bytes \<Rightarrow> nat" where
  "occurrences H values leaf_hash = length (filter (\<lambda>v. H v = leaf_hash) values)"

lemma path_step_simps [simp]:
  "path_step H root \<lparr>pn_hash = h, pn_left = False\<rparr> = H (root @ h)"
  "path_step H root \<lparr>pn_hash = h, pn_left = True\<rparr> = H (h @ root)"
  by (simp_all add: path_step_def)

lemma path_compute_base [simp]:
  "path_compute H [] lh path = (False, H [], path)"
  "path_compute H [v] lh path = (H v = lh, H v, path)"
  by (subst path_compute.simps; simp)+

lemma path_compute_split:
  assumes "2 \<le> length xs"
    and "path_compute H (take (ceiling_div (length xs) 2) xs) lh path = (cl, hl, path1)"
    and "path_compute H (drop (ceiling_div (length xs) 2) xs) lh path1 = (cr, hr, path2)"
  shows "path_compute H xs lh path =
    (cl \<or> cr, H (hl @ hr),
     path2 @ (if cl then [\<lparr>pn_hash = hr, pn_left = False\<rparr>] else if cr then [\<lparr>pn_hash = hl, pn_left = True\<rparr>] else []))"
proof -
  obtain a b ys where "xs = a # b # ys"
    using assms(1) by (cases xs; cases "tl xs") auto
  with assms(2,3) show ?thesis
    by (subst path_compute.simps) (simp add: Let_def)
qed

lemma path_compute_correct:
  "\<exists>p. path_compute H vs lh path = (0 < occurrences H vs lh, compute_root_from_slice H (map H vs), path @ p) \<and>
    (occurrences H vs lh = 0 \<longrightarrow> p = []) \<and>
    (occurrences H vs lh = 1 \<longrightarrow> foldl (path_step H) lh p = compute_root_from_slice H (map H vs))"
proof (induction vs arbitrary: path rule: split_induct)
  case Nil
  show ?case
    by (simp add: occurrences_def)
next
  case (single x)
  show ?case
    by (simp add: occurrences_def)
next
  case (split xs)
  let ?l = "take (ceiling_div (length xs) 2) xs" and ?r = "drop (ceiling_div (length xs) 2) xs"
  have occ: "occurrences H xs lh = occurrences H ?l lh + occurrences H ?r lh"
    unfolding occurrences_def length_append [symmetric] filter_append [symmetric] append_take_drop_id ..
  have root: "compute_root_from_slice H (map H xs) =
    H (compute_root_from_slice H (map H ?l) @ compute_root_from_slice H (map H ?r))"
    using root_split [of "map H xs" H] split.hyps by (simp add: take_map drop_map)
  obtain p1 where p1: "path_compute H ?l lh path =
      (0 < occurrences H ?l lh, compute_root_from_slice H (map H ?l), path @ p1)"
    "occurrences H ?l lh = 0 \<longrightarrow> p1 = []"
    "occurrences H ?l lh = 1 \<longrightarrow> foldl (path_step H) lh p1 = compute_root_from_slice H (map H ?l)"
    using split.IH(1) [of path] by (elim exE conjE) (rule that)
  obtain p2 where p2: "path_compute H ?r lh (path @ p1) =
      (0 < occurrences H ?r lh, compute_root_from_slice H (map H ?r), (path @ p1) @ p2)"
    "occurrences H ?r lh = 0 \<longrightarrow> p2 = []"
    "occurrences H ?r lh = 1 \<longrightarrow> foldl (path_step H) lh p2 = compute_root_from_slice H (map H ?r)"
    using split.IH(2) [of "path @ p1"] by (elim exE conjE) (rule that)
  show ?case
    unfolding path_compute_split [OF split.hyps p1(1) p2(1)] root occ
    using p1(2,3) p2(2,3) by (auto simp: add_is_1)
qed

text \<open>C14: A path recomputes the root of the tree it was built from, for a leaf whose hash occurs exactly
  once among the leaves.\<close>

theorem path_new_root:
  assumes "occurrences H vs (H leaf) = 1"
  shows "path_compute_root H (path_new H vs leaf) leaf = compute_root_from_content H vs"
proof -
  obtain p where "path_compute H vs (H leaf) [] =
      (0 < occurrences H vs (H leaf), compute_root_from_slice H (map H vs), [] @ p)"
    "foldl (path_step H) (H leaf) p = compute_root_from_slice H (map H vs)"
    using path_compute_correct [of H vs "H leaf" "[]"] assms by (elim exE conjE) (simp add: that)
  then show ?thesis
    by (simp add: path_new_def path_compute_root_def compute_root_from_content_def)
qed

theorem path_new_root_witness:
  "path_compute_root (\<lambda>bs. 7 # bs) (path_new (\<lambda>bs. 7 # bs) [[1], [2], [3]] [2]) [2]
    = compute_root_from_content (\<lambda>bs. 7 # bs) [[1], [2], [3]]"
  using path_new_root [of "\<lambda>bs. 7 # bs" "[[1], [2], [3]]" "[2]"] by (simp add: occurrences_def)

text \<open>The hypothesis is needed: for four equal leaves the path has an entry from each half.\<close>

lemma path_new_duplicate_leaf:
  "path_new H [v, v, v, v] v =
    [\<lparr>pn_hash = H v, pn_left = False\<rparr>, \<lparr>pn_hash = H v, pn_left = False\<rparr>, \<lparr>pn_hash = H (H v @ H v), pn_left = False\<rparr>]"
proof -
  have two: "path_compute H [v, v] (H v) path = (True, H (H v @ H v), path @ [\<lparr>pn_hash = H v, pn_left = False\<rparr>])" for path
    by (subst path_compute.simps) (simp add: ceiling_div_def)
  have halves: "take (ceiling_div (length [v, v, v, v]) 2) [v, v, v, v] = [v, v]"
    "drop (ceiling_div (length [v, v, v, v]) 2) [v, v, v, v] = [v, v]"
    by (simp_all add: ceiling_div_def)
  show ?thesis
    using path_compute_split [of "[v, v, v, v]", unfolded halves, OF _ two two, of "[]"]
    by (simp add: path_new_def)
qed

section \<open>Proofs lead to the root\<close>

lemma proof_compute_base [simp]:
  "proof_compute H [] tp = (False, H [], [H []], [ConsumeProof])"
  "proof_compute H [h] tp = (if h \<in> set tp then (True, h, [], [ConsumeInput]) else (False, h, [h], [ConsumeProof]))"
  by (subst proof_compute.simps; simp)+

lemma proof_compute_split:
  assumes "2 \<le> length xs"
    and "proof_compute H (take (ceiling_div (length xs) 2) xs) tp = (cl, hl, p1, o1)"
    and "proof_compute H (drop (ceiling_div (length xs) 2) xs) tp = (cr, hr, p2, o2)"
  shows "proof_compute H xs tp =
    (if \<not> cl \<and> \<not> cr then (False, H (hl @ hr), [H (hl @ hr)], [ConsumeProof])
     else (True, H (hl @ hr), p1 @ p2, o1 @ o2 @ [Hash]))"
proof -
  obtain a b ys where "xs = a # b # ys"
    using assms(1) by (cases xs; cases "tl xs") auto
  with assms(2,3) show ?thesis
    by (subst proof_compute.simps) (simp add: Let_def)
qed

definition proof_replays :: "(bytes \<Rightarrow> bytes) \<Rightarrow> bytes list \<Rightarrow> bytes list \<Rightarrow> bytes \<Rightarrow> merkle_proof_operation list \<Rightarrow> bool" where
  "proof_replays H input ns h ops \<longleftrightarrow>
    (\<forall>ops' stack nodes input'. proof_run H (ops @ ops') stack (ns @ nodes) (input @ input') = proof_run H ops' (h # stack) nodes input')"

lemma proof_replays_hash:
  "proof_replays H i1 n1 h1 o1 \<Longrightarrow> proof_replays H i2 n2 h2 o2 \<Longrightarrow>
   proof_replays H (i1 @ i2) (n1 @ n2) (H (h1 @ h2)) (o1 @ o2 @ [Hash])"
  by (simp add: proof_replays_def)

lemma proof_replays_node: "proof_replays H [] [h] h [ConsumeProof]"
  by (simp add: proof_replays_def)

lemma proof_compute_correct:
  "\<exists>ns ops. proof_compute H hs tp = (\<exists>x \<in> set hs. x \<in> set tp, compute_root_from_slice H hs, ns, ops) \<and>
    proof_replays H (filter (\<lambda>h. h \<in> set tp) hs) ns (compute_root_from_slice H hs) ops"
proof (induction hs rule: split_induct)
  case Nil
  show ?case
    by (simp add: proof_replays_node)
next
  case (single x)
  show ?case
    by (simp add: proof_replays_node) (simp add: proof_replays_def)
next
  case (split xs)
  let ?l = "take (ceiling_div (length xs) 2) xs" and ?r = "drop (ceiling_div (length xs) 2) xs"
  have append: "?l @ ?r = xs"
    by simp
  from split.IH(1) obtain n1 o1 where
    l: "proof_compute H ?l tp = (\<exists>x \<in> set ?l. x \<in> set tp, compute_root_from_slice H ?l, n1, o1)"
    "proof_replays H (filter (\<lambda>h. h \<in> set tp) ?l) n1 (compute_root_from_slice H ?l) o1"
    by (elim exE conjE) (rule that)
  from split.IH(2) obtain n2 o2 where
    r: "proof_compute H ?r tp = (\<exists>x \<in> set ?r. x \<in> set tp, compute_root_from_slice H ?r, n2, o2)"
    "proof_replays H (filter (\<lambda>h. h \<in> set tp) ?r) n2 (compute_root_from_slice H ?r) o2"
    by (elim exE conjE) (rule that)
  have set: "(\<exists>x \<in> set xs. x \<in> set tp) \<longleftrightarrow> (\<exists>x \<in> set ?l. x \<in> set tp) \<or> (\<exists>x \<in> set ?r. x \<in> set tp)"
    by (metis Un_iff append set_append)
  have filt: "filter (\<lambda>h. h \<in> set tp) xs = filter (\<lambda>h. h \<in> set tp) ?l @ filter (\<lambda>h. h \<in> set tp) ?r"
    by (metis append filter_append)
  show ?case
  proof (cases "\<exists>x \<in> set xs. x \<in> set tp")
    case True
    then show ?thesis
      using proof_compute_split [OF split.hyps l(1) r(1)] proof_replays_hash [OF l(2) r(2)] set filt root_split [OF split.hyps]
      by simp
  next
    case False
    then have "filter (\<lambda>h. h \<in> set tp) xs = []"
      by (simp add: filter_empty_conv)
    with False show ?thesis
      using proof_compute_split [OF split.hyps l(1) r(1)] set root_split [OF split.hyps] proof_replays_node
      by simp
  qed
qed

text \<open>C13: A Merkle proof for any selection of leaves recomputes the root of the tree from the selected
  leaves in their order, whatever the leaves and the selection are.\<close>

theorem proof_new_root:
  "proof_compute_root H (proof_new H hs tp) (filter (\<lambda>h. h \<in> set tp) hs) = Inr (compute_root_from_slice H hs)"
proof -
  obtain ns ops where c: "proof_compute H hs tp = (\<exists>x \<in> set hs. x \<in> set tp, compute_root_from_slice H hs, ns, ops)"
    and r: "proof_replays H (filter (\<lambda>h. h \<in> set tp) hs) ns (compute_root_from_slice H hs) ops"
    using proof_compute_correct [of H hs tp] by (elim exE conjE) (rule that)
  have "proof_run H ops [] ns (filter (\<lambda>h. h \<in> set tp) hs) = Inr ([compute_root_from_slice H hs], [], [])"
    using r [unfolded proof_replays_def, rule_format, of "[]" "[]" "[]" "[]"] by simp
  with c show ?thesis
    by (simp add: proof_new_def proof_compute_root_def)
qed

section \<open>Proofs of absence\<close>

definition absence_proved :: "'a::linorder list \<Rightarrow> 'a list \<Rightarrow> 'a \<Rightarrow> bool" where
  "absence_proved vs out l \<longleftrightarrow>
    (if l \<in> set vs then l \<in> set out
     else (\<forall>p \<in> set vs. p < l \<and> (\<forall>u \<in> set vs. u < l \<longrightarrow> u \<le> p) \<longrightarrow> p \<in> set out) \<and>
          (\<forall>p \<in> set vs. l < p \<and> (\<forall>u \<in> set vs. l < u \<longrightarrow> p \<le> u) \<longrightarrow> p \<in> set out))"

lemma absence_proved_mono: "absence_proved vs out l \<Longrightarrow> set out \<subseteq> set out' \<Longrightarrow> absence_proved vs out' l"
  by (auto simp: absence_proved_def split: if_splits)

lemma sorted_le_last: "sorted xs \<Longrightarrow> x \<in> set xs \<Longrightarrow> x \<le> last xs"
  by (induction xs) auto

lemma absence_proved_gap:
  assumes "sorted (pre @ v # vs)" "\<forall>p \<in> set pre. p < l" "l < v" "v \<in> set out" "pre \<noteq> [] \<Longrightarrow> last pre \<in> set out"
  shows "absence_proved (pre @ v # vs) out l"
proof -
  have above: "v \<le> u" "l < u" if "u \<in> set (v # vs)" for u
    using that assms(1,3) by (auto simp: sorted_append intro: less_le_trans)
  have pre: "u < l" if "u \<in> set pre" for u
    using that assms(2) by blast
  have "l \<notin> set (pre @ v # vs)"
    using above(2) [of l] pre [of l] by auto
  moreover have "p \<in> set out" if p: "p \<in> set (pre @ v # vs)" "p < l" "\<forall>u \<in> set (pre @ v # vs). u < l \<longrightarrow> u \<le> p" for p
  proof -
    have "p \<in> set pre"
      using p(1,2) above(2) [of p] by (metis Un_iff less_asym set_append)
    moreover from this have "last pre \<in> set pre"
      by (cases pre) auto
    moreover from this have "last pre \<le> p"
      using p(3) pre [of "last pre"] by simp
    moreover have "p \<le> last pre"
      using assms(1) sorted_le_last [of pre p] calculation(1) by (simp add: sorted_append)
    ultimately show ?thesis
      using assms(5) by (cases pre) (auto dest: antisym)
  qed
  moreover have "p \<in> set out" if p: "p \<in> set (pre @ v # vs)" "l < p" "\<forall>u \<in> set (pre @ v # vs). l < u \<longrightarrow> p \<le> u" for p
  proof -
    have "p \<in> set (v # vs)"
      using p(1,2) pre [of p] by (metis Un_iff less_asym set_append)
    then have "p = v"
      using p(3) above(1) [of p] assms(3) by (simp add: antisym)
    with assms(4) show ?thesis by simp
  qed
  ultimately show ?thesis
    unfolding absence_proved_def by simp
qed

lemma absence_loop_proved:
  assumes "sorted (pre @ vs)" "sorted ls" "prev = (if pre = [] then None else Some (last pre))"
    and "\<forall>p \<in> set pre. \<forall>l \<in> set ls. p < l" "absence_loop prev vs ls = (out, rest)"
  shows "\<forall>l \<in> set ls. absence_proved (pre @ vs) out l \<or> (rest \<noteq> [] \<and> (\<forall>u \<in> set (pre @ vs). u < l))"
  using assms
proof (induction prev vs ls arbitrary: pre out rest rule: absence_loop.induct)
  case (3 prev v vs l ls)
  consider "v = l" | "v > l" | "v < l" by fastforce
  then show ?case
  proof cases
    case 1
    obtain out' where o: "absence_loop prev (v # vs) ls = (out', rest)" "out = l # out'"
      using 1 "3.prems"(5) by (auto split: prod.splits)
    then have "\<forall>l \<in> set ls. absence_proved (pre @ v # vs) out' l \<or> (rest \<noteq> [] \<and> (\<forall>u \<in> set (pre @ v # vs). u < l))"
      using 1 "3.prems" by (intro "3.IH"(1)) (simp_all add: o(1))
    moreover have "absence_proved (pre @ v # vs) out l"
      using 1 o(2) by (simp add: absence_proved_def)
    ultimately show ?thesis
      using o(2) absence_proved_mono [of "pre @ v # vs" out' _ out] by auto
  next
    case 2
    obtain out' where o: "absence_loop prev (v # vs) ls = (out', rest)"
      "out = (case prev of Some p \<Rightarrow> [p] | None \<Rightarrow> []) @ v # out'"
      using 2 less_imp_neq [OF 2] "3.prems"(5) by (auto split: prod.splits)
    then have "\<forall>l \<in> set ls. absence_proved (pre @ v # vs) out' l \<or> (rest \<noteq> [] \<and> (\<forall>u \<in> set (pre @ v # vs). u < l))"
      using 2 "3.prems" by (intro "3.IH"(2)) (simp_all add: o(1))
    moreover have "absence_proved (pre @ v # vs) out l"
      using 2 o(2) "3.prems" by (intro absence_proved_gap) auto
    ultimately show ?thesis
      using o(2) absence_proved_mono [of "pre @ v # vs" out' _ out] by auto
  next
    case 3
    then have "\<forall>l \<in> set (l # ls). absence_proved ((pre @ [v]) @ vs) out l \<or> (rest \<noteq> [] \<and> (\<forall>u \<in> set ((pre @ [v]) @ vs). u < l))"
      using "3.prems" less_imp_neq [OF 3] less_not_sym [OF 3] by (intro "3.IH"(3)) (auto simp: sorted_append)
    then show ?thesis by simp
  qed
qed (auto simp: absence_proved_def)

text \<open>C15: The leaves that \<open>with_absence\<close> proves decide membership in a sorted list of values: a value to
  prove that occurs is among them, and one that is missing has its neighbours among them.\<close>

theorem absence_values_decide:
  assumes "sorted vs" "l \<in> set to_prove"
  shows "if l \<in> set vs then l \<in> set (absence_values vs to_prove)
    else (\<forall>p \<in> set vs. p < l \<and> (\<forall>u \<in> set vs. u < l \<longrightarrow> u \<le> p) \<longrightarrow> p \<in> set (absence_values vs to_prove)) \<and>
         (\<forall>p \<in> set vs. l < p \<and> (\<forall>u \<in> set vs. l < u \<longrightarrow> p \<le> u) \<longrightarrow> p \<in> set (absence_values vs to_prove))"
proof -
  obtain out rest where o: "absence_loop None vs (sort to_prove) = (out, rest)"
    by fastforce
  have *: "absence_proved vs out l \<or> (rest \<noteq> [] \<and> (\<forall>u \<in> set vs. u < l))"
    using absence_loop_proved [of "[]" vs "sort to_prove" None out rest] assms o by simp
  have "absence_proved vs (absence_values vs to_prove) l"
  proof (cases "absence_proved vs out l")
    case True
    then show ?thesis
      by (rule absence_proved_mono) (auto simp: absence_values_def o)
  next
    case False
    then show ?thesis
      using * sorted_le_last [OF assms(1)] last_in_set [of vs]
      by (fastforce simp: absence_values_def o absence_proved_def)
  qed
  then show ?thesis
    by (simp add: absence_proved_def)
qed

theorem absence_values_decide_witness:
  "set (absence_values [1, 3, 5 :: nat] [4]) \<supseteq> {3, 5}"
  using absence_values_decide [of "[1, 3, 5 :: nat]" 4 "[4]"] by (simp add: absence_values_def)

section \<open>Wire format of paths\<close>

lemma length_path_compress_from [simp]: "length (path_compress_from i nodes bits) = length bits"
  by (induction i nodes bits rule: path_compress_from.induct) simp_all

lemma mask_eq: "a < 8 \<Longrightarrow> drop_bit a (0x80 :: u8) = push_bit (7 - a) 1"
proof -
  assume a: "a < 8"
  have top: "(0x80 :: u8) = push_bit 7 1"
    by (simp add: push_bit_eq_mult)
  have *: "drop_bit a (push_bit m 1 :: u8) = push_bit (m - a) 1" if "a \<le> m" "m < 8" for m
    by (rule bit_word_eqI) (use that in \<open>auto simp: bit_simps\<close>)
  show ?thesis
    unfolding top by (rule *) (use a in simp_all)
qed

lemma path_decompress_bit: "path_decompress i bits \<longleftrightarrow> bit (bits ! (i div 8)) (7 - i mod 8)"
  by (simp add: path_decompress_def mask_eq bit_iff_and_push_bit_not_eq_0)

lemma path_decompress_set:
  assumes "k div 8 < length bits"
  shows "path_decompress i (bits[k div 8 := bits ! (k div 8) OR drop_bit (k mod 8) 0x80]) \<longleftrightarrow> i = k \<or> path_decompress i bits"
proof (cases "i div 8 = k div 8")
  case True
  have "7 - i mod 8 = 7 - k mod 8 \<longleftrightarrow> i mod 8 = k mod 8"
    using mod_less_divisor [of 8 i] mod_less_divisor [of 8 k] by linarith
  then have "7 - i mod 8 = 7 - k mod 8 \<longleftrightarrow> i = k"
    using True by (metis div_mult_mod_eq)
  then show ?thesis
    using True assms mod_less_divisor [of 8 i] by (auto simp: path_decompress_bit mask_eq bit_simps)
next
  case False
  then show ?thesis
    by (auto simp: path_decompress_bit)
qed

lemma path_decompress_compress_from:
  assumes "k + length nodes \<le> 8 * length bits"
  shows "path_decompress i (path_compress_from k nodes bits) \<longleftrightarrow>
    path_decompress i bits \<or> (k \<le> i \<and> i < k + length nodes \<and> pn_left (nodes ! (i - k)))"
  using assms
proof (induction k nodes bits rule: path_compress_from.induct)
  case (2 k node nodes bits)
  have k: "k div 8 < length bits"
    using "2.prems" by auto
  have split: "Suc k \<le> i \<and> i < Suc k + length nodes \<and> pn_left (nodes ! (i - Suc k)) \<or> i = k \<and> pn_left node \<longleftrightarrow>
      k \<le> i \<and> i < k + length (node # nodes) \<and> pn_left ((node # nodes) ! (i - k))"
    by (cases "i = k") (auto simp: nth_Cons split: nat.splits, (metis Suc_diff_Suc Suc_le_eq diff_is_0_eq le_neq_implies_less nat.inject)+)
  let ?bits = "if pn_left node then bits[k div 8 := bits ! (k div 8) OR drop_bit (k mod 8) 0x80] else bits"
  have "path_decompress i ?bits \<longleftrightarrow> i = k \<and> pn_left node \<or> path_decompress i bits"
    by (simp add: path_decompress_set [OF k])
  moreover have "path_decompress i (path_compress_from (Suc k) nodes ?bits) \<longleftrightarrow>
      path_decompress i ?bits \<or> (Suc k \<le> i \<and> i < Suc k + length nodes \<and> pn_left (nodes ! (i - Suc k)))"
    using 2 by simp
  ultimately show ?case
    unfolding path_compress_from.simps split [symmetric] by blast
qed auto

lemma path_decompress_compress:
  "i < length nodes \<Longrightarrow> path_decompress i (path_compress nodes) = pn_left (nodes ! i)"
  using path_decompress_compress_from [of 0 nodes "replicate (ceiling_div (length nodes) 8) 0" i]
  by (simp add: path_compress_def ceiling_div_def path_decompress_bit less_mult_imp_div_less)

lemma length_path_compress [simp]: "length (path_compress nodes) = ceiling_div (length nodes) 8"
  by (simp add: path_compress_def)

lemma path_node_surjective [simp]: "\<lparr>pn_hash = pn_hash node, pn_left = pn_left node\<rparr> = node"
  by (cases node) simp

lemma encodes_path_nodes:
  assumes "\<And>i. i < length nodes \<Longrightarrow> path_decompress (k + i) bits = pn_left (nodes ! i)"
    and "\<forall>node \<in> set nodes. hash_ok (pn_hash node)"
  shows "encodes (wseqs (map (\<lambda>node. ser_hash (pn_hash node)) nodes)) (read_path_nodes bits k (length nodes)) nodes (32 * length nodes)"
  using assms
proof (induction nodes arbitrary: k)
  case (Cons node nodes)
  have "encodes (wseqs (map (\<lambda>node. ser_hash (pn_hash node)) nodes)) (read_path_nodes bits (Suc k) (length nodes)) nodes (32 * length nodes)"
    using Cons.prems(1) [of "Suc _"] Cons.prems(2) by (intro Cons.IH) simp_all
  moreover have "path_decompress k bits = pn_left node"
    using Cons.prems(1) [of 0] by simp
  ultimately have "encodes (wseqs (map (\<lambda>node. ser_hash (pn_hash node)) nodes))
      (dbind (read_path_nodes bits (Suc k) (length nodes))
         (\<lambda>nodes. dret (\<lparr>pn_hash = pn_hash node, pn_left = path_decompress k bits\<rparr> # nodes))) (node # nodes) (32 * length nodes)"
    by (intro encodes_last) simp_all
  with Cons.prems(2) have "encodes (wseqs (ser_hash (pn_hash node) # map (\<lambda>node. ser_hash (pn_hash node)) nodes))
      (read_path_nodes bits k (Suc (length nodes))) (node # nodes) (32 + 32 * length nodes)"
    unfolding read_path_nodes.simps by (intro encodes_wseqs_Cons [OF hash.encoded]) simp_all
  then show ?case
    by (simp del: wseqs.simps read_path_nodes.simps)
qed (simp add: encodes_ret)

definition merkle_path_ok :: "merkle_path \<Rightarrow> bool" where
  "merkle_path_ok nodes \<longleftrightarrow> length nodes \<le> 255 \<and> (\<forall>node \<in> set nodes. hash_ok (pn_hash node))"

interpretation merkle_path: codec ser_merkle_path deser_merkle_path size_merkle_path merkle_path_ok
proof
  fix nodes
  assume ok: "merkle_path_ok nodes"
  then have n: "unat (of_nat (length nodes) :: u8) = length nodes"
    by (simp add: merkle_path_ok_def)
  have "encodes (wseqs (map (\<lambda>node. ser_hash (pn_hash node)) nodes))
      (read_path_nodes (path_compress nodes) 0 (length nodes)) nodes (32 * length nodes)"
    using ok by (intro encodes_path_nodes) (simp_all add: merkle_path_ok_def path_decompress_compress)
  then have "encodes (wseqs (Inr (path_compress nodes) # map (\<lambda>node. ser_hash (pn_hash node)) nodes))
      (dbind (read_exact (ceiling_div (unat (of_nat (length nodes) :: u8)) 8))
        (\<lambda>left_bits. read_path_nodes left_bits 0 (unat (of_nat (length nodes) :: u8))))
      nodes (ceiling_div (length nodes) 8 + 32 * length nodes)"
    unfolding n by (intro encodes_wseqs_Cons [where x = "path_compress nodes"] encodes_read_exact) simp_all
  then have "encodes (wseqs (ser_u8 (of_nat (length nodes)) # Inr (path_compress nodes) # map (\<lambda>node. ser_hash (pn_hash node)) nodes))
      deser_merkle_path nodes (1 + (ceiling_div (length nodes) 8 + 32 * length nodes))"
    unfolding deser_merkle_path_def by (intro encodes_wseqs_Cons [OF u8.encoded]) simp_all
  then show "encodes (ser_merkle_path nodes) deser_merkle_path nodes (size_merkle_path nodes)"
    by (simp add: ser_merkle_path_def size_merkle_path_def add.assoc del: wseqs.simps)
qed

lemmas [encodes_fields] =
  encodes_wseqs_Cons [OF merkle_path.encoded]

section \<open>Wire format of proofs\<close>

lemma length_proof_compress_from [simp]: "length (proof_compress_from i ops bits) = length bits"
  by (induction i ops bits rule: proof_compress_from.induct) simp_all

lemma length_proof_compress [simp]: "length (proof_compress ops) = ceiling_div (length ops) 4"
  by (simp add: proof_compress_def)

lemma operation_u8_small: "bit (operation_u8 op) n \<Longrightarrow> n < 2"
proof -
  assume "bit (operation_u8 op) n"
  moreover have "take_bit 2 (operation_u8 op) = operation_u8 op"
    by (cases op) simp_all
  ultimately show "n < 2"
    by (metis bit_take_bit_iff)
qed

lemma bit_operation_at: "bit (operation_at bits i) n \<longleftrightarrow> n < 2 \<and> bit (bits ! (i div 4)) (i mod 4 * 2 + n)"
proof -
  have "bit (mask 2 :: u8) n \<longleftrightarrow> n < 2"
    by (auto simp: bit_simps)
  then have "bit (0x3 :: u8) n \<longleftrightarrow> n < 2"
    by (simp add: mask_eq_exp_minus_1)
  moreover have "i mod 4 * 2 + n < 8" if "n < 2"
    using that mod_less_divisor [of 4 i] by linarith
  ultimately show ?thesis
    by (auto simp: operation_at_def bit_simps)
qed

lemma operation_at_set:
  assumes "k div 4 < length bits"
  shows "operation_at (bits[k div 4 := bits ! (k div 4) OR push_bit (k mod 4 * 2) (operation_u8 op)]) i =
    (if i = k then operation_at bits i OR operation_u8 op else operation_at bits i)"
proof (rule bit_word_eqI)
  fix n
  have eq: "i = k \<longleftrightarrow> i div 4 = k div 4 \<and> i mod 4 = k mod 4"
    by (metis div_mult_mod_eq)
  have lt: "i mod 4 * 2 + n < 8" if "n < 2"
    using that mod_less_divisor [of 4 i] by linarith
  have inner: "k mod 4 * 2 \<le> i mod 4 * 2 + n \<and> bit (operation_u8 op) (i mod 4 * 2 + n - k mod 4 * 2) \<longleftrightarrow>
      i mod 4 = k mod 4 \<and> bit (operation_u8 op) n" if "n < 2"
    using that operation_u8_small [of op "i mod 4 * 2 + n - k mod 4 * 2"] by (cases "i mod 4 = k mod 4") (auto simp: not_le)
  show "bit (operation_at (bits[k div 4 := bits ! (k div 4) OR push_bit (k mod 4 * 2) (operation_u8 op)]) i) n =
    bit (if i = k then operation_at bits i OR operation_u8 op else operation_at bits i) n"
    using assms inner lt operation_u8_small [of op n]
    by (cases "i div 4 = k div 4") (auto simp: bit_operation_at bit_or_iff bit_push_bit_iff eq)
qed

lemma operation_at_compress_from:
  assumes "k + length ops \<le> 4 * length bits"
  shows "operation_at (proof_compress_from k ops bits) i =
    (if k \<le> i \<and> i < k + length ops then operation_at bits i OR operation_u8 (ops ! (i - k)) else operation_at bits i)"
  using assms
proof (induction k ops bits rule: proof_compress_from.induct)
  case (2 k op ops bits)
  have k: "k div 4 < length bits"
    using "2.prems" by auto
  show ?case
  proof (cases "i = k")
    case True
    with 2 show ?thesis
      by (simp add: operation_at_set [OF k])
  next
    case False
    then have "(op # ops) ! (i - k) = ops ! (i - Suc k)" if "k \<le> i"
      using that by (simp add: nth_Cons')
    with 2 False show ?thesis
      by (auto simp: operation_at_set [OF k])
  qed
qed auto

lemma operation_at_compress: "i < length ops \<Longrightarrow> operation_at (proof_compress ops) i = operation_u8 (ops ! i)"
  using operation_at_compress_from [of 0 ops "replicate (ceiling_div (length ops) 4) 0" i]
  by (simp add: proof_compress_def ceiling_div_def operation_at_def less_mult_imp_div_less)

lemma operation_from_u8: "operation_from_u8 (operation_u8 op) = Some op"
  by (cases op) (simp_all add: operation_from_u8_def)

lemma proof_decompress_from_nth:
  "(\<And>i. i < length ops \<Longrightarrow> operation_at bits (k + i) = operation_u8 (ops ! i)) \<Longrightarrow>
   proof_decompress_from k (length ops) bits = Some ops"
proof (induction ops arbitrary: k)
  case (Cons op ops)
  have "proof_decompress_from (Suc k) (length ops) bits = Some ops"
    using Cons.prems [of "Suc _"] by (intro Cons.IH) simp
  with Cons.prems [of 0] show ?case
    by (simp add: operation_from_u8)
qed simp

lemma proof_decompress_compress: "proof_decompress (length ops) (proof_compress ops) = Some ops"
  unfolding proof_decompress_def by (rule proof_decompress_from_nth) (simp add: operation_at_compress)

definition merkle_proof_ok :: "merkle_proof \<Rightarrow> bool" where
  "merkle_proof_ok p \<longleftrightarrow> length (mp_operations p) < 2 ^ 16 \<and> length (mp_nodes p) < 2 ^ 16 \<and> (\<forall>h \<in> set (mp_nodes p). hash_ok h)"

lemma encodes_merkle_proof:
  assumes "merkle_proof_ok p"
  shows "encodes (ser_merkle_proof p) deser_merkle_proof p (proof_bytes p)"
proof -
  let ?ops = "mp_operations p"
  have n: "unat (of_nat (length ?ops) :: u16) = length ?ops"
    using assms by (simp add: merkle_proof_ok_def)
  have "encodes (ser_vec 2 ser_hash (mp_nodes p)) (deser_vec 2 deser_hash) (mp_nodes p) (size_vec 2 (\<lambda>_. 32) (mp_nodes p))"
    using assms by (intro encodes_vec hash.encoded) (auto simp: merkle_proof_ok_def)
  then have "encodes (wseqs [ser_vec 2 ser_hash (mp_nodes p)])
      (dbind (deser_vec 2 deser_hash) (\<lambda>nodes. dret \<lparr>mp_nodes = nodes, mp_operations = ?ops\<rparr>)) p (size_vec 2 (\<lambda>_. 32) (mp_nodes p) + 0)"
    by (rule encodes_wseqs_Cons) (cases p, simp add: encodes_ret)
  then have "encodes (wseqs [Inr (proof_compress ?ops), ser_vec 2 ser_hash (mp_nodes p)])
      (dbind (read_exact (ceiling_div (unat (of_nat (length ?ops) :: u16)) 4)) (\<lambda>operation_bits.
         case proof_decompress (unat (of_nat (length ?ops) :: u16)) operation_bits of
           None \<Rightarrow> dfail (IoError UnexpectedEof)
         | Some operations \<Rightarrow> dbind (deser_vec 2 deser_hash) (\<lambda>nodes. dret \<lparr>mp_nodes = nodes, mp_operations = operations\<rparr>)))
      p (ceiling_div (length ?ops) 4 + (size_vec 2 (\<lambda>_. 32) (mp_nodes p) + 0))"
    unfolding n
    by (intro encodes_wseqs_Cons [where x = "proof_compress ?ops"] encodes_read_exact)
       (simp_all only: length_proof_compress proof_decompress_compress option.case)
  then have "encodes (wseqs [ser_u16 (of_nat (length ?ops)), Inr (proof_compress ?ops), ser_vec 2 ser_hash (mp_nodes p)])
      deser_merkle_proof p (2 + (ceiling_div (length ?ops) 4 + (size_vec 2 (\<lambda>_. 32) (mp_nodes p) + 0)))"
    unfolding deser_merkle_proof_def by (intro encodes_wseqs_Cons [OF u16.encoded]) simp_all
  then show ?thesis
    by (simp add: ser_merkle_proof_def proof_bytes_def add.assoc del: wseqs.simps)
qed

interpretation merkle_proof: codec ser_merkle_proof deser_merkle_proof proof_bytes merkle_proof_ok
  by unfold_locales (rule encodes_merkle_proof)

lemma size_merkle_proof_ok: "merkle_proof_ok p \<Longrightarrow> size_merkle_proof p = Inr (proof_bytes p)"
  by (simp add: size_merkle_proof_def serialized_size_vec_eq proof_bytes_def merkle_proof_ok_def)

text \<open>C16: A Merkle proof and a Merkle path that fit their length fields are read back from what is written
  of them, and occupy the announced number of bytes.\<close>

theorem merkle_wire_roundtrip:
  assumes "merkle_proof_ok p" "merkle_path_ok q"
  shows "(\<exists>bs. ser_merkle_proof p = Inr bs \<and> size_merkle_proof p = (Inr (length bs) :: (nat, serializing_error) result) \<and> deser_merkle_proof (bs @ rest) = Inr (p, rest)) \<and>
    (\<exists>bs. ser_merkle_path q = Inr bs \<and> length bs = size_merkle_path q \<and> deser_merkle_path (bs @ rest) = Inr (q, rest))"
  using merkle_proof.encoded [OF assms(1)] merkle_path.encoded [OF assms(2)] size_merkle_proof_ok [OF assms(1)]
  by (auto simp: encodes_def)

theorem merkle_wire_roundtrip_witness:
  "\<exists>bs. ser_merkle_proof \<lparr>mp_nodes = [replicate 32 7], mp_operations = [ConsumeProof, ConsumeInput, Hash]\<rparr> = Inr bs \<and>
    deser_merkle_proof (bs @ [1]) = Inr (\<lparr>mp_nodes = [replicate 32 7], mp_operations = [ConsumeProof, ConsumeInput, Hash]\<rparr>, [1])"
  using merkle_wire_roundtrip [of "\<lparr>mp_nodes = [replicate 32 7], mp_operations = [ConsumeProof, ConsumeInput, Hash]\<rparr>"
      "[\<lparr>pn_hash = replicate 32 1, pn_left = True\<rparr>]" "[1]"]
  by (auto simp: merkle_proof_ok_def merkle_path_ok_def hash_ok_def)

end
