(* ===== verification/Transaction.thy ===== *)
theory Transaction
  imports Merkle Float64
begin

text \<open>
  Transactions (\<open>primitives/transaction/src/lib.rs\<close>): the record, its two wire formats, the content that is
  signed and hashed, the order of transactions in a block, and the validity window.  A basic
  transaction is written with the public key and the signature only; the reader rebuilds the sender and
  the proof from them.
\<close>

section \<open>Signature proofs\<close>

record signature_proof =
  sp_public_key :: public_key
  sp_merkle_path :: merkle_path
  sp_signature :: signature

definition signature_proof_from :: "public_key \<Rightarrow> signature \<Rightarrow> signature_proof" where
  "signature_proof_from k s = \<lparr>sp_public_key = k, sp_merkle_path = [], sp_signature = s\<rparr>"

definition compute_signer :: "crypto \<Rightarrow> signature_proof \<Rightarrow> address" where
  "compute_signer cr sp = address_from_hash (path_compute_root (blake2b cr) (sp_merkle_path sp) (sp_public_key sp))"

definition is_signed_by :: "crypto \<Rightarrow> signature_proof \<Rightarrow> address \<Rightarrow> bool" where
  "is_signed_by cr sp a \<longleftrightarrow> compute_signer cr sp = a"

definition signature_proof_verify :: "crypto \<Rightarrow> signature_proof \<Rightarrow> bytes \<Rightarrow> bool" where
  "signature_proof_verify cr sp bs \<longleftrightarrow> ed_verify cr (sp_public_key sp) (sp_signature sp) bs"

definition ser_signature_proof :: "signature_proof \<Rightarrow> written" where
  "ser_signature_proof sp =
    wseqs [ser_public_key (sp_public_key sp), ser_merkle_path (sp_merkle_path sp), ser_signature (sp_signature sp)]"

definition deser_signature_proof :: "crypto \<Rightarrow> signature_proof reader" where
  "deser_signature_proof cr =
    dbind (deser_public_key cr) (\<lambda>k. dbind deser_merkle_path (\<lambda>p. dbind (deser_signature cr) (\<lambda>s.
    dret \<lparr>sp_public_key = k, sp_merkle_path = p, sp_signature = s\<rparr>)))"

definition size_signature_proof :: "signature_proof \<Rightarrow> nat" where
  "size_signature_proof sp = 32 + size_merkle_path (sp_merkle_path sp) + 64"

section \<open>The record\<close>

datatype transaction_format = TF_Basic | TF_Extended

type_synonym transaction_flags = u8

definition CONTRACT_CREATION :: transaction_flags where "CONTRACT_CREATION = 1"
definition SIGNALLING :: transaction_flags where "SIGNALLING = 2"

definition flags_contains :: "transaction_flags \<Rightarrow> transaction_flags \<Rightarrow> bool" where
  "flags_contains fs f \<longleftrightarrow> fs AND f = f"

definition flags_from_bits :: "u8 \<Rightarrow> transaction_flags option" where
  "flags_from_bits b = (if b AND NOT (CONTRACT_CREATION OR SIGNALLING) = 0 then Some b else None)"

record transaction =
  tx_data :: bytes
  tx_sender :: address
  tx_sender_type :: account_type
  tx_recipient :: address
  tx_recipient_type :: account_type
  tx_value :: coin
  tx_fee :: coin
  tx_validity_start_height :: u32
  tx_network_id :: network_id
  tx_flags :: transaction_flags
  tx_proof :: bytes
  tx_valid :: bool

definition new_basic :: "address \<Rightarrow> address \<Rightarrow> coin \<Rightarrow> coin \<Rightarrow> u32 \<Rightarrow> network_id \<Rightarrow> transaction" where
  "new_basic sender recipient v fee height network =
    \<lparr>tx_data = [], tx_sender = sender, tx_sender_type = AT_Basic, tx_recipient = recipient, tx_recipient_type = AT_Basic,
     tx_value = v, tx_fee = fee, tx_validity_start_height = height, tx_network_id = network, tx_flags = 0, tx_proof = [],
     tx_valid = False\<rparr>"

definition new_extended ::
  "address \<Rightarrow> account_type \<Rightarrow> address \<Rightarrow> account_type \<Rightarrow> coin \<Rightarrow> coin \<Rightarrow> bytes \<Rightarrow> u32 \<Rightarrow> network_id \<Rightarrow> transaction" where
  "new_extended sender sender_type recipient recipient_type v fee d height network =
    \<lparr>tx_data = d, tx_sender = sender, tx_sender_type = sender_type, tx_recipient = recipient,
     tx_recipient_type = recipient_type, tx_value = v, tx_fee = fee, tx_validity_start_height = height,
     tx_network_id = network, tx_flags = 0, tx_proof = [], tx_valid = False\<rparr>"

definition new_signalling ::
  "address \<Rightarrow> account_type \<Rightarrow> address \<Rightarrow> account_type \<Rightarrow> coin \<Rightarrow> coin \<Rightarrow> bytes \<Rightarrow> u32 \<Rightarrow> network_id \<Rightarrow> transaction" where
  "new_signalling sender sender_type recipient recipient_type v fee d height network =
    (new_extended sender sender_type recipient recipient_type v fee d height network)\<lparr>tx_flags := SIGNALLING\<rparr>"

datatype transaction_error =
    ForeignNetwork | ZeroValue | TxOverflow | SenderEqualsRecipient | InvalidForSender | InvalidProof
  | InvalidForRecipient | TxInvalidData | InvalidSerialization serializing_error

definition total_value :: "transaction \<Rightarrow> (coin, transaction_error) result" where
  "total_value tx = ok_or TxOverflow (coin_checked_add (tx_value tx) (tx_fee tx))"

text \<open>The upper bound wraps for a start height close to \<open>2 ^ 32\<close>.\<close>

definition is_valid_at :: "transaction \<Rightarrow> u32 \<Rightarrow> bool" where
  "is_valid_at tx block_height \<longleftrightarrow>
    block_height \<ge> tx_validity_start_height tx \<and> block_height < tx_validity_start_height tx + TRANSACTION_VALIDITY_WINDOW"

definition transaction_eq :: "transaction \<Rightarrow> transaction \<Rightarrow> bool" where
  "transaction_eq a b \<longleftrightarrow>
    tx_sender a = tx_sender b \<and> tx_sender_type a = tx_sender_type b \<and> tx_recipient a = tx_recipient b \<and>
    tx_recipient_type a = tx_recipient_type b \<and> tx_value a = tx_value b \<and> tx_fee a = tx_fee b \<and>
    tx_validity_start_height a = tx_validity_start_height b \<and> tx_network_id a = tx_network_id b \<and>
    tx_flags a = tx_flags b \<and> tx_data a = tx_data b"

section \<open>Content and wire formats\<close>

definition ser_transaction_content :: "transaction \<Rightarrow> written" where
  "ser_transaction_content tx =
    wseqs [ser_vec 2 ser_u8 (tx_data tx), ser_address (tx_sender tx), ser_account_type (tx_sender_type tx),
      ser_address (tx_recipient tx), ser_account_type (tx_recipient_type tx), ser_coin (tx_value tx), ser_coin (tx_fee tx),
      ser_u32 (tx_validity_start_height tx), ser_network_id (tx_network_id tx), ser_u8 (tx_flags tx)]"

definition serialize_content :: "transaction \<Rightarrow> (bytes, 'e) result" where
  "serialize_content tx = serialize_to_vec (ser_transaction_content tx)"

definition transaction_hash :: "crypto \<Rightarrow> transaction \<Rightarrow> (blake2b_hash, 'e) result" where
  "transaction_hash cr tx = rbind (unwrap_result (ser_transaction_content tx)) (\<lambda>bs. Inr (blake2b cr bs))"

definition contract_creation_address :: "crypto \<Rightarrow> transaction \<Rightarrow> (address, 'e) result" where
  "contract_creation_address cr tx =
    rbind (transaction_hash cr (tx\<lparr>tx_recipient := replicate 20 0\<rparr>)) (\<lambda>h. Inr (address_from_hash h))"

definition new_contract_creation ::
  "crypto \<Rightarrow> bytes \<Rightarrow> address \<Rightarrow> account_type \<Rightarrow> account_type \<Rightarrow> coin \<Rightarrow> coin \<Rightarrow> u32 \<Rightarrow> network_id \<Rightarrow> (transaction, 'e) result" where
  "new_contract_creation cr d sender sender_type recipient_type v fee height network =
    (let tx = (new_extended sender sender_type (replicate 20 0) recipient_type v fee d height network)
           \<lparr>tx_flags := CONTRACT_CREATION\<rparr> in
     rbind (contract_creation_address cr tx) (\<lambda>a. Inr (tx\<lparr>tx_recipient := a\<rparr>)))"

definition transaction_format :: "crypto \<Rightarrow> transaction \<Rightarrow> transaction_format" where
  "transaction_format cr tx =
    (if tx_sender_type tx = AT_Basic \<and> tx_recipient_type tx = AT_Basic \<and> tx_data tx = [] \<and> tx_flags tx = 0 then
       (case deserialize_from_vec (deser_signature_proof cr) (tx_proof tx) of
          Inr sp \<Rightarrow> if tx_sender tx = address_from_key cr (sp_public_key sp) \<and> sp_merkle_path sp = []
                    then TF_Basic else TF_Extended
        | Inl _ \<Rightarrow> TF_Extended)
     else TF_Extended)"

fun transaction_format_u8 :: "transaction_format \<Rightarrow> u8" where
  "transaction_format_u8 TF_Basic = 0"
| "transaction_format_u8 TF_Extended = 1"

definition deser_transaction_format :: "transaction_format reader" where
  "deser_transaction_format = deser_enum [(0, TF_Basic), (1, TF_Extended)]"

definition ser_transaction :: "crypto \<Rightarrow> transaction \<Rightarrow> written" where
  "ser_transaction cr tx =
    (case transaction_format cr tx of
       TF_Basic \<Rightarrow>
         rbind (deserialize_from_vec (deser_signature_proof cr) (tx_proof tx)) (\<lambda>sp.
         wseqs [ser_u8 (transaction_format_u8 TF_Basic), ser_public_key (sp_public_key sp), ser_address (tx_recipient tx),
           ser_coin (tx_value tx), ser_coin (tx_fee tx), ser_u32 (tx_validity_start_height tx),
           ser_network_id (tx_network_id tx), ser_signature (sp_signature sp)])
     | TF_Extended \<Rightarrow>
         wseqs [ser_u8 (transaction_format_u8 TF_Extended), ser_vec 2 ser_u8 (tx_data tx), ser_address (tx_sender tx),
           ser_account_type (tx_sender_type tx), ser_address (tx_recipient tx), ser_account_type (tx_recipient_type tx),
           ser_coin (tx_value tx), ser_coin (tx_fee tx), ser_u32 (tx_validity_start_height tx),
           ser_network_id (tx_network_id tx), ser_u8 (tx_flags tx), ser_vec 2 ser_u8 (tx_proof tx)])"

definition size_transaction :: "crypto \<Rightarrow> transaction \<Rightarrow> (nat, serializing_error) result" where
  "size_transaction cr tx =
    (case transaction_format cr tx of
       TF_Basic \<Rightarrow> Inr (1 + 32 + 20 + 8 + 8 + 4 + 1 + 64)
     | TF_Extended \<Rightarrow>
         rbind (serialized_size_vec 2 (\<lambda>_. 1) (tx_data tx)) (\<lambda>d.
         rbind (serialized_size_vec 2 (\<lambda>_. 1) (tx_proof tx)) (\<lambda>p.
         Inr (1 + d + 20 + 1 + 20 + 1 + 8 + 8 + 4 + 1 + 1 + p))))"

text \<open>The number of bytes when data and proof fit their length fields, as those of every received transaction do.\<close>

definition tx_fits :: "crypto \<Rightarrow> transaction \<Rightarrow> bool" where
  "tx_fits cr tx \<longleftrightarrow> transaction_format cr tx = TF_Basic \<or> length (tx_data tx) < 2 ^ 16 \<and> length (tx_proof tx) < 2 ^ 16"

definition tx_bytes :: "crypto \<Rightarrow> transaction \<Rightarrow> nat" where
  "tx_bytes cr tx =
    (case transaction_format cr tx of
       TF_Basic \<Rightarrow> 1 + 32 + 20 + 8 + 8 + 4 + 1 + 64
     | TF_Extended \<Rightarrow> 1 + size_vec 2 (\<lambda>_. 1) (tx_data tx) + 20 + 1 + 20 + 1 + 8 + 8 + 4 + 1 + 1 + size_vec 2 (\<lambda>_. 1) (tx_proof tx))"

lemma size_transaction_eq: "size_transaction cr tx = (if tx_fits cr tx then Inr (tx_bytes cr tx) else Inl Panic)"
  by (simp add: size_transaction_def tx_bytes_def tx_fits_def serialized_size_vec_eq split: transaction_format.split)

definition deser_flags :: "transaction_flags reader" where
  "deser_flags = dbind deser_u8 (\<lambda>b. case flags_from_bits b of Some f \<Rightarrow> dret f | None \<Rightarrow> dfail InvalidValue)"

text \<open>\<open>serialize_to_vec\<close> of the rebuilt proof unwraps.\<close>

definition dlift :: "('a, serializing_error) result \<Rightarrow> 'a reader" where
  "dlift r bs = (case r of Inl e \<Rightarrow> Inl e | Inr x \<Rightarrow> Inr (x, bs))"

definition deser_transaction :: "crypto \<Rightarrow> transaction reader" where
  "deser_transaction cr =
    dbind deser_transaction_format (\<lambda>ty. case ty of
      TF_Basic \<Rightarrow>
        dbind (deser_public_key cr) (\<lambda>key. dbind deser_address (\<lambda>recipient. dbind deser_coin (\<lambda>v. dbind deser_coin (\<lambda>fee.
        dbind deser_u32 (\<lambda>height. dbind deser_network_id (\<lambda>network. dbind (deser_signature cr) (\<lambda>sig.
        dbind (dlift (serialize_to_vec (ser_signature_proof (signature_proof_from key sig)))) (\<lambda>prf.
        dret \<lparr>tx_data = [], tx_sender = address_from_key cr key, tx_sender_type = AT_Basic, tx_recipient = recipient,
          tx_recipient_type = AT_Basic, tx_value = v, tx_fee = fee, tx_validity_start_height = height,
          tx_network_id = network, tx_flags = 0, tx_proof = prf, tx_valid = False\<rparr>))))))))
    | TF_Extended \<Rightarrow>
        dbind (deser_vec 2 deser_u8) (\<lambda>d. dbind deser_address (\<lambda>sender. dbind deser_account_type (\<lambda>sender_type.
        dbind deser_address (\<lambda>recipient. dbind deser_account_type (\<lambda>recipient_type. dbind deser_coin (\<lambda>v.
        dbind deser_coin (\<lambda>fee. dbind deser_u32 (\<lambda>height. dbind deser_network_id (\<lambda>network. dbind deser_flags (\<lambda>fl.
        dbind (deser_vec 2 deser_u8) (\<lambda>prf.
        dret \<lparr>tx_data = d, tx_sender = sender, tx_sender_type = sender_type, tx_recipient = recipient,
          tx_recipient_type = recipient_type, tx_value = v, tx_fee = fee, tx_validity_start_height = height,
          tx_network_id = network, tx_flags = fl, tx_proof = prf, tx_valid = False\<rparr>))))))))))))"

section \<open>Orders\<close>

definition fee_per_byte :: "crypto \<Rightarrow> transaction \<Rightarrow> (f64, serializing_error) result" where
  "fee_per_byte cr tx =
    rbind (size_transaction cr tx) (\<lambda>sz. Inr (f64_div (f64_of_nat (unat (lunas (tx_fee tx)))) (f64_of_nat sz)))"

definition cmp_mempool_order :: "crypto \<Rightarrow> transaction \<Rightarrow> transaction \<Rightarrow> (cmp_ordering, serializing_error) result" where
  "cmp_mempool_order cr a b =
    rbind (fee_per_byte cr a) (\<lambda>fa. rbind (fee_per_byte cr b) (\<lambda>fb. Inr (foldl then_with Equal
      [case f64_partial_cmp fa fb of Some ord \<Rightarrow> ord | None \<Rightarrow> Equal,
       ord_cmp (tx_fee a) (tx_fee b), ord_cmp (tx_value a) (tx_value b),
       ord_cmp (tx_recipient a) (tx_recipient b), ord_cmp (tx_validity_start_height a) (tx_validity_start_height b),
       ord_cmp (tx_sender a) (tx_sender b), ord_cmp (tx_recipient_type a) (tx_recipient_type b),
       ord_cmp (tx_sender_type a) (tx_sender_type b), ord_cmp (tx_flags a) (tx_flags b),
       ord_cmp (length (tx_data a)) (length (tx_data b)), ord_cmp (tx_data a) (tx_data b)])))"

definition cmp_block_order :: "transaction \<Rightarrow> transaction \<Rightarrow> cmp_ordering" where
  "cmp_block_order a b =
    foldl then_with Equal
      [ord_cmp (tx_recipient a) (tx_recipient b), ord_cmp (tx_validity_start_height a) (tx_validity_start_height b),
       ord_cmp (tx_fee b) (tx_fee a), ord_cmp (tx_value b) (tx_value a),
       ord_cmp (tx_sender a) (tx_sender b), ord_cmp (tx_recipient_type a) (tx_recipient_type b),
       ord_cmp (tx_sender_type a) (tx_sender_type b), ord_cmp (tx_flags a) (tx_flags b),
       ord_cmp (length (tx_data a)) (length (tx_data b)), ord_cmp (tx_data a) (tx_data b)]"

interpretation block_order: comparator cmp_block_order
  unfolding cmp_block_order_def foldl.simps by (intro comparator_intros)

text \<open>The mempool order of transactions that fit, with the number of bytes written out.\<close>

definition fee_rate :: "crypto \<Rightarrow> transaction \<Rightarrow> f64" where
  "fee_rate cr tx = f64_div (f64_of_nat (unat (lunas (tx_fee tx)))) (f64_of_nat (tx_bytes cr tx))"

definition mempool_cmp :: "crypto \<Rightarrow> transaction \<Rightarrow> transaction \<Rightarrow> cmp_ordering" where
  "mempool_cmp cr a b =
    foldl then_with Equal
      [case f64_partial_cmp (fee_rate cr a) (fee_rate cr b) of Some ord \<Rightarrow> ord | None \<Rightarrow> Equal,
       ord_cmp (tx_fee a) (tx_fee b), ord_cmp (tx_value a) (tx_value b),
       ord_cmp (tx_recipient a) (tx_recipient b), ord_cmp (tx_validity_start_height a) (tx_validity_start_height b),
       ord_cmp (tx_sender a) (tx_sender b), ord_cmp (tx_recipient_type a) (tx_recipient_type b),
       ord_cmp (tx_sender_type a) (tx_sender_type b), ord_cmp (tx_flags a) (tx_flags b),
       ord_cmp (length (tx_data a)) (length (tx_data b)), ord_cmp (tx_data a) (tx_data b)]"

lemma fee_rate_finite: "\<exists>q. fee_rate cr tx = Finite q"
proof -
  have "0 < tx_bytes cr tx"
    by (simp add: tx_bytes_def split: transaction_format.split)
  then have "(1 :: rat) \<le> round64 (of_nat (tx_bytes cr tx))"
    using round64_mono [of 1 "of_nat (tx_bytes cr tx)"] by simp
  then show ?thesis
    by (auto simp: fee_rate_def f64_of_nat_def)
qed

interpretation mempool_order: comparator "mempool_cmp cr" for cr
  unfolding mempool_cmp_def foldl.simps
  by (intro comparator_intros comparator_f64 fee_rate_finite)

lemma cmp_mempool_order_eq:
  "cmp_mempool_order cr a b = (if tx_fits cr a \<and> tx_fits cr b then Inr (mempool_cmp cr a b) else Inl Panic)"
  by (simp add: cmp_mempool_order_def fee_per_byte_def size_transaction_eq mempool_cmp_def fee_rate_def del: foldl_Cons)

text \<open>C12: The block order is a total preorder on transactions that is reversed when its arguments are
  swapped, and transactions of one network that it does not distinguish are equal as transactions.  The mempool order, which
  compares the fees per byte as floating-point numbers first, is a total preorder as well on the transactions it compares: it gives a
  result unless it panics, and it panics exactly when the data or the proof of an extended transaction does not fit its length
  field.\<close>

theorem block_order_total:
  "cmp_block_order b a = reverse_ordering (cmp_block_order a b) \<and>
   (cmp_block_order a b \<noteq> Greater \<longrightarrow> cmp_block_order b c \<noteq> Greater \<longrightarrow> cmp_block_order a c \<noteq> Greater) \<and>
   (cmp_block_order a b = Equal \<and> tx_network_id a = tx_network_id b \<longleftrightarrow> transaction_eq a b) \<and>
   cmp_mempool_order cr a b = (if tx_fits cr a \<and> tx_fits cr b then Inr (mempool_cmp cr a b) else Inl Panic) \<and>
   mempool_cmp cr b a = reverse_ordering (mempool_cmp cr a b) \<and>
   (mempool_cmp cr a b \<noteq> Greater \<longrightarrow> mempool_cmp cr b c \<noteq> Greater \<longrightarrow> mempool_cmp cr a c \<noteq> Greater)"
proof -
  have "cmp_block_order a b = Equal \<and> tx_network_id a = tx_network_id b \<longleftrightarrow> transaction_eq a b"
    by (auto simp: cmp_block_order_def transaction_eq_def)
  then show ?thesis
    using block_order.anti [of b a] block_order.trans [of a b c] mempool_order.anti [of cr b a] mempool_order.trans [of cr a b c]
      cmp_mempool_order_eq [of cr a b]
    by blast
qed

definition example_fee :: "u64 \<Rightarrow> transaction" where
  "example_fee n = new_basic [1] [2] (Coin 5) (Coin n) 10 Dummy"

lemma example_fee_order: "cmp_block_order (example_fee 3) (example_fee 2) = Less \<and> cmp_block_order (example_fee 2) (example_fee 1) = Less"
  by code_simp

theorem block_order_total_witness:
  "cmp_block_order (example_fee 3) (example_fee 1) \<noteq> Greater \<and> cmp_block_order (example_fee 1) (example_fee 3) \<noteq> Less"
  using block_order_total [of "example_fee 2" "example_fee 3" "example_fee 1"]
    block_order_total [of "example_fee 1" "example_fee 3" "example_fee 1"] example_fee_order
  by (cases "cmp_block_order (example_fee 3) (example_fee 1)") auto

section \<open>Round trip\<close>

definition signature_proof_ok :: "crypto \<Rightarrow> signature_proof \<Rightarrow> bool" where
  "signature_proof_ok cr sp \<longleftrightarrow>
    ed_key_ok cr (sp_public_key sp) \<and> merkle_path_ok (sp_merkle_path sp) \<and> ed_sig_ok cr (sp_signature sp)"

lemma encodes_signature_proof:
  assumes "signature_proof_ok cr sp"
  shows "encodes (ser_signature_proof sp) (deser_signature_proof cr) sp (size_signature_proof sp)"
proof -
  have "encodes (ser_signature_proof sp) (deser_signature_proof cr)
      \<lparr>sp_public_key = sp_public_key sp, sp_merkle_path = sp_merkle_path sp, sp_signature = sp_signature sp\<rparr>
      (32 + (size_merkle_path (sp_merkle_path sp) + (64 + 0)))"
    unfolding ser_signature_proof_def deser_signature_proof_def
    using assms unfolding signature_proof_ok_def
    by (intro encodes_fields) simp_all
  then show ?thesis
    by (cases sp) (simp add: size_signature_proof_def add.assoc)
qed

interpretation signature_proof: codec ser_signature_proof "deser_signature_proof cr" size_signature_proof "signature_proof_ok cr" for cr
  by unfold_locales (rule encodes_signature_proof)

lemma encodes_bytes_u16: "length bs < 2 ^ 16 \<Longrightarrow> encodes (ser_vec 2 ser_u8 bs) (deser_vec 2 deser_u8) bs (size_vec 2 (\<lambda>_. 1) bs)"
  by (intro encodes_vec u8.encoded) simp_all

lemma encodes_flags: "fl AND NOT 3 = 0 \<Longrightarrow> encodes (ser_u8 fl) deser_flags fl 1"
  unfolding deser_flags_def
  by (rule encodes_last [OF u8.encoded]) (simp_all add: flags_from_bits_def CONTRACT_CREATION_def SIGNALLING_def)

lemma encodes_format:
  "encodes (ser_u8 (transaction_format_u8 f)) deser_transaction_format f 1"
  unfolding deser_transaction_format_def by (rule encodes_enum) (cases f; simp)

definition transaction_ok :: "transaction \<Rightarrow> bool" where
  "transaction_ok tx \<longleftrightarrow>
    address_ok (tx_sender tx) \<and> address_ok (tx_recipient tx) \<and> coin_ok (tx_value tx) \<and> coin_ok (tx_fee tx) \<and>
    length (tx_data tx) < 2 ^ 16 \<and> length (tx_proof tx) < 2 ^ 16 \<and> tx_flags tx AND NOT 3 = 0"

text \<open>What the reader of a signature proof without path nodes consumes is what the writer writes.\<close>

lemma read_path_nodes_length: "read_path_nodes bits i n bs = Inr (nodes, rest) \<Longrightarrow> length nodes = n"
  by (induction bits i n arbitrary: bs nodes rest rule: read_path_nodes.induct)
     (fastforce simp: dret_def dbind_def split: sum.splits)+

lemma read_exact_Inr: "read_exact n bs = Inr (xs, rest) \<longleftrightarrow> bs = xs @ rest \<and> length xs = n"
  by (auto simp: read_exact_def)

lemma dbind_Inr: "dbind r f bs = Inr (y, rest) \<longleftrightarrow> (\<exists>x mid. r bs = Inr (x, mid) \<and> f x mid = Inr (y, rest))"
  by (auto simp: dbind_def split: sum.splits)

lemma deser_key_sig_Inr:
  "deser_public_key cr bs = Inr (k, rest) \<longleftrightarrow> bs = k @ rest \<and> ed_key_ok cr k"
  "deser_signature cr bs = Inr (s, rest) \<longleftrightarrow> bs = s @ rest \<and> ed_sig_ok cr s"
  by (auto simp: deser_public_key_def deser_signature_def dbind_Inr read_exact_Inr dret_def dfail_def ed_key_ok_def ed_sig_ok_def
      split: if_splits)

lemma deser_merkle_path_empty:
  assumes "deser_merkle_path bs = Inr ([], rest)"
  shows "bs = 0 # rest"
proof -
  obtain count mid bits mid' where "deser_u8 bs = Inr (count, mid)"
    "read_exact (ceiling_div (unat count) 8) mid = Inr (bits, mid')" "read_path_nodes bits 0 (unat count) mid' = Inr ([], rest)"
    using assms by (auto simp: deser_merkle_path_def dbind_Inr)
  moreover from this(3) have "unat count = 0"
    by (auto dest: read_path_nodes_length)
  ultimately show ?thesis
    by (auto simp: unat_eq_0 deser_u8_def read_exact_Inr dret_def ceiling_div_def split: list.splits)
qed

lemma deser_signature_proof_single:
  assumes "deserialize_from_vec (deser_signature_proof cr) bs = Inr sp" "sp_merkle_path sp = []"
  shows "ser_signature_proof (signature_proof_from (sp_public_key sp) (sp_signature sp)) = Inr (take 97 bs)"
    and "ed_key_ok cr (sp_public_key sp)" "ed_sig_ok cr (sp_signature sp)"
proof -
  obtain k m1 m2 s rest where "deser_public_key cr bs = Inr (k, m1)" "deser_merkle_path m1 = Inr ([], m2)"
    "deser_signature cr m2 = Inr (s, rest)" "sp = \<lparr>sp_public_key = k, sp_merkle_path = [], sp_signature = s\<rparr>"
    using assms by (auto simp: deserialize_from_vec_def deser_signature_proof_def dbind_Inr dret_def split: sum.splits)
  then have "bs = k @ 0 # s @ rest" "ed_key_ok cr k" "ed_sig_ok cr s" "sp_public_key sp = k" "sp_signature sp = s"
    by (auto simp: deser_key_sig_Inr dest: deser_merkle_path_empty)
  then show "ser_signature_proof (signature_proof_from (sp_public_key sp) (sp_signature sp)) = Inr (take 97 bs)"
    "ed_key_ok cr (sp_public_key sp)" "ed_sig_ok cr (sp_signature sp)"
    by (auto simp: ser_signature_proof_def signature_proof_from_def ser_public_key_def ser_signature_def ser_array_def
        ser_merkle_path_def path_compress_def ceiling_div_def ser_u8_def wseq_def ed_key_ok_def ed_sig_ok_def)
qed

definition canonical_transaction :: "crypto \<Rightarrow> transaction \<Rightarrow> transaction" where
  "canonical_transaction cr tx =
    (case transaction_format cr tx of
       TF_Basic \<Rightarrow> tx\<lparr>tx_proof := take 97 (tx_proof tx), tx_valid := False\<rparr>
     | TF_Extended \<Rightarrow> tx\<lparr>tx_valid := False\<rparr>)"

lemma encodes_extended:
  assumes "transaction_ok tx" "transaction_format cr tx = TF_Extended"
  shows "encodes (ser_transaction cr tx) (deser_transaction cr) (canonical_transaction cr tx) (tx_bytes cr tx)"
proof -
  have "encodes (ser_transaction cr tx) (deser_transaction cr)
     \<lparr>tx_data = tx_data tx, tx_sender = tx_sender tx, tx_sender_type = tx_sender_type tx, tx_recipient = tx_recipient tx,
      tx_recipient_type = tx_recipient_type tx, tx_value = tx_value tx, tx_fee = tx_fee tx,
      tx_validity_start_height = tx_validity_start_height tx, tx_network_id = tx_network_id tx, tx_flags = tx_flags tx,
      tx_proof = tx_proof tx, tx_valid = False\<rparr>
     (1 + (size_vec 2 (\<lambda>_. 1) (tx_data tx) + (20 + (1 + (20 + (1 + (8 + (8 + (4 + (1 + (1 + (size_vec 2 (\<lambda>_. 1) (tx_proof tx) + 0))))))))))))"
    unfolding ser_transaction_def deser_transaction_def assms(2) transaction_format.case
    using assms(1) unfolding transaction_ok_def
    by (intro encodes_fields encodes_wseqs_Cons [OF encodes_format] encodes_wseqs_Cons [OF encodes_bytes_u16]
        encodes_wseqs_Cons [OF encodes_flags]; simp only: transaction_format.case; intro encodes_fields encodes_wseqs_Cons [OF encodes_bytes_u16]
        encodes_wseqs_Cons [OF encodes_flags]; simp)
  then show ?thesis
    using assms(2) by (cases tx) (simp add: canonical_transaction_def tx_bytes_def add.assoc)
qed

lemma dbind_dlift_Inr: "dbind (dlift (Inr x)) f = f x"
  by (rule ext) (simp add: dbind_def dlift_def)

lemma format_BasicD:
  assumes "transaction_format cr tx = TF_Basic"
  obtains sp where "deserialize_from_vec (deser_signature_proof cr) (tx_proof tx) = Inr sp" "sp_merkle_path sp = []"
    "tx_sender tx = address_from_key cr (sp_public_key sp)" "tx_sender_type tx = AT_Basic" "tx_recipient_type tx = AT_Basic"
    "tx_data tx = []" "tx_flags tx = 0"
  using assms that by (auto simp: transaction_format_def split: if_splits sum.splits)

lemma encodes_basic:
  assumes ok: "transaction_ok tx" and f: "transaction_format cr tx = TF_Basic"
  shows "encodes (ser_transaction cr tx) (deser_transaction cr) (canonical_transaction cr tx) (tx_bytes cr tx)"
proof -
  obtain sp where sp: "deserialize_from_vec (deser_signature_proof cr) (tx_proof tx) = Inr sp" "sp_merkle_path sp = []"
    and eq: "tx_sender tx = address_from_key cr (sp_public_key sp)" "tx_sender_type tx = AT_Basic" "tx_recipient_type tx = AT_Basic"
    "tx_data tx = []" "tx_flags tx = 0"
    using f by (rule format_BasicD)
  note single = deser_signature_proof_single [OF sp]
  have oks: "address_ok (tx_recipient tx)" "coin_ok (tx_value tx)" "coin_ok (tx_fee tx)"
    using ok by (simp_all add: transaction_ok_def)
  have written: "serialize_to_vec (ser_signature_proof (signature_proof_from (sp_public_key sp) (sp_signature sp))) = Inr (take 97 (tx_proof tx))"
    using single(1) by simp
  have "encodes (ser_transaction cr tx) (deser_transaction cr)
     \<lparr>tx_data = [], tx_sender = address_from_key cr (sp_public_key sp), tx_sender_type = AT_Basic, tx_recipient = tx_recipient tx,
      tx_recipient_type = AT_Basic, tx_value = tx_value tx, tx_fee = tx_fee tx,
      tx_validity_start_height = tx_validity_start_height tx, tx_network_id = tx_network_id tx, tx_flags = 0,
      tx_proof = take 97 (tx_proof tx), tx_valid = False\<rparr> (1 + (32 + (20 + (8 + (8 + (4 + (1 + (64 + 0))))))))"
    unfolding ser_transaction_def deser_transaction_def f sp(1) rbind_Inr transaction_format.case
    by (rule encodes_wseqs_Cons [OF encodes_format], simp only: transaction_format.case,
        (rule encodes_fields single oks TrueI | simp only: written dbind_dlift_Inr)+)
  then show ?thesis
    using eq f by (cases tx) (simp add: canonical_transaction_def tx_bytes_def)
qed

text \<open>C11: A well-formed transaction is read back from its wire format, in the announced number of bytes, up to
  the cached validity flag and, for the basic format, trailing bytes of the proof; what is read back is
  equal as a transaction and has the same content.\<close>

theorem transaction_wire_roundtrip:
  assumes "transaction_ok tx"
  shows "\<exists>bs. ser_transaction cr tx = Inr bs \<and> size_transaction cr tx = Inr (length bs) \<and>
    deser_transaction cr (bs @ rest) = Inr (canonical_transaction cr tx, rest) \<and>
    transaction_eq (canonical_transaction cr tx) tx \<and>
    ser_transaction_content (canonical_transaction cr tx) = ser_transaction_content tx"
proof -
  have "encodes (ser_transaction cr tx) (deser_transaction cr) (canonical_transaction cr tx) (tx_bytes cr tx)"
    using encodes_basic [OF assms] encodes_extended [OF assms] by (cases "transaction_format cr tx") blast+
  moreover have "transaction_eq (canonical_transaction cr tx) tx"
    "ser_transaction_content (canonical_transaction cr tx) = ser_transaction_content tx"
    by (simp_all add: canonical_transaction_def transaction_eq_def ser_transaction_content_def split: transaction_format.splits)
  moreover have "tx_fits cr tx"
    using assms by (simp add: tx_fits_def transaction_ok_def)
  ultimately show ?thesis
    by (auto simp: encodes_def size_transaction_eq)
qed

theorem transaction_wire_roundtrip_witness:
  "\<exists>bs. ser_transaction example_crypto (new_basic (replicate 20 1) (replicate 20 2) (Coin 5) (Coin 1) 10 Dummy) = Inr bs \<and>
    deser_transaction example_crypto (bs @ [9]) =
      Inr (canonical_transaction example_crypto (new_basic (replicate 20 1) (replicate 20 2) (Coin 5) (Coin 1) 10 Dummy), [9])"
  using transaction_wire_roundtrip [of "new_basic (replicate 20 1) (replicate 20 2) (Coin 5) (Coin 1) 10 Dummy" example_crypto "[9]"]
  by (auto simp: transaction_ok_def new_basic_def address_ok_def coin_ok_def MAX_SAFE_VALUE_def)

lemma is_valid_at_window:
  assumes "unat (tx_validity_start_height tx) + 7200 < 2 ^ 32"
  shows "is_valid_at tx h \<longleftrightarrow> unat (tx_validity_start_height tx) \<le> unat h \<and> unat h < unat (tx_validity_start_height tx) + 7200"
  using assms by (simp add: is_valid_at_def TRANSACTION_VALIDITY_WINDOW_def word_le_nat_alt word_less_nat_alt unat_word_ariths)

text \<open>Near the end of the range the window's end wraps around and the transaction is never valid.\<close>

lemma is_valid_at_wrapped:
  assumes "unat (tx_validity_start_height tx) + 7200 \<ge> 2 ^ 32"
  shows "\<not> is_valid_at tx h"
proof -
  have "unat (tx_validity_start_height tx + 7200) = unat (tx_validity_start_height tx) + 7200 - 2 ^ 32"
    using assms unat_u32_less [of "tx_validity_start_height tx"] by (simp add: unat_word_ariths le_mod_geq)
  then show ?thesis
    using unat_u32_less [of "tx_validity_start_height tx"]
    by (auto simp: is_valid_at_def TRANSACTION_VALIDITY_WINDOW_def word_le_nat_alt word_less_nat_alt)
qed

end
