(* ===== verification/Staking_Data.thy ===== *)
theory Staking_Data
  imports Transaction
begin

text \<open>
  The data and proof fields of transactions to and from the staking contract
  (\<open>primitives/transaction/src/account/staking_contract/structs.rs\<close>): what they hold, their wire format, and the
  static checks on them.  The signature of a validator covers the whole transaction with the signature
  field of the data reset, which is why the data is parsed, changed and written again to be verified.
\<close>

section \<open>Incoming transactions\<close>

datatype incoming_staking_type =
  CreateValidatorT | UpdateValidatorT | RetireValidatorT | ReactivateValidatorT | UnparkValidatorT | StakeT

fun incoming_staking_type_u8 :: "incoming_staking_type \<Rightarrow> u8" where
  "incoming_staking_type_u8 CreateValidatorT = 0"
| "incoming_staking_type_u8 UpdateValidatorT = 1"
| "incoming_staking_type_u8 RetireValidatorT = 2"
| "incoming_staking_type_u8 ReactivateValidatorT = 3"
| "incoming_staking_type_u8 UnparkValidatorT = 4"
| "incoming_staking_type_u8 StakeT = 5"

definition ser_incoming_staking_type :: "incoming_staking_type \<Rightarrow> written" where
  "ser_incoming_staking_type t = ser_u8 (incoming_staking_type_u8 t)"

definition deser_incoming_staking_type :: "incoming_staking_type reader" where
  "deser_incoming_staking_type = deser_enum (map (\<lambda>t. (incoming_staking_type_u8 t, t))
     [CreateValidatorT, UpdateValidatorT, RetireValidatorT, ReactivateValidatorT, UnparkValidatorT, StakeT])"

datatype incoming_staking_data =
    CreateValidator bls_public_key bls_signature address
  | UpdateValidator bls_public_key "bls_public_key option" "bls_signature option" "address option" bls_signature
  | RetireValidator bls_public_key bls_signature
  | ReactivateValidator bls_public_key bls_signature
  | UnparkValidator bls_public_key bls_signature
  | Stake bls_public_key "address option"

fun incoming_is_signalling :: "incoming_staking_data \<Rightarrow> bool" where
  "incoming_is_signalling (Stake _ _) = False"
| "incoming_is_signalling (CreateValidator _ _ _) = False"
| "incoming_is_signalling _ = True"

fun set_validator_signature :: "bls_signature \<Rightarrow> incoming_staking_data \<Rightarrow> incoming_staking_data" where
  "set_validator_signature s (UpdateValidator k k' p a _) = UpdateValidator k k' p a s"
| "set_validator_signature s (RetireValidator k _) = RetireValidator k s"
| "set_validator_signature s (UnparkValidator k _) = UnparkValidator k s"
| "set_validator_signature s (ReactivateValidator k _) = ReactivateValidator k s"
| "set_validator_signature s d = d"

text \<open>A new key is written only together with its proof of knowledge, although the flag before it is set
  for the key alone.\<close>

fun ser_incoming_staking_data :: "incoming_staking_data \<Rightarrow> written" where
  "ser_incoming_staking_data (CreateValidator k p a) =
    wseqs [ser_incoming_staking_type CreateValidatorT, ser_bls_key k, ser_bls_sig p, ser_address a]"
| "ser_incoming_staking_data (UpdateValidator k k' p a s) =
    wseqs ([ser_incoming_staking_type UpdateValidatorT, ser_bls_key k, ser_bool (k' \<noteq> None), ser_bool (a \<noteq> None)] @
      (case (k', p) of (Some k'', Some p') \<Rightarrow> [ser_bls_key k'', ser_bls_sig p'] | _ \<Rightarrow> []) @
      (case a of Some a' \<Rightarrow> [ser_address a'] | None \<Rightarrow> []) @ [ser_bls_sig s])"
| "ser_incoming_staking_data (RetireValidator k s) =
    wseqs [ser_incoming_staking_type RetireValidatorT, ser_bls_key k, ser_bls_sig s]"
| "ser_incoming_staking_data (ReactivateValidator k s) =
    wseqs [ser_incoming_staking_type ReactivateValidatorT, ser_bls_key k, ser_bls_sig s]"
| "ser_incoming_staking_data (UnparkValidator k s) =
    wseqs [ser_incoming_staking_type UnparkValidatorT, ser_bls_key k, ser_bls_sig s]"
| "ser_incoming_staking_data (Stake k a) =
    wseqs [ser_incoming_staking_type StakeT, ser_bls_key k, ser_option ser_address a]"

fun size_incoming_staking_data :: "incoming_staking_data \<Rightarrow> nat" where
  "size_incoming_staking_data (CreateValidator k p a) = 1 + 285 + 95 + 20"
| "size_incoming_staking_data (UpdateValidator k k' p a s) =
    1 + 285 + 1 + 1 + (case (k', p) of (Some _, Some _) \<Rightarrow> 285 + 95 | _ \<Rightarrow> 0) + (case a of Some _ \<Rightarrow> 20 | None \<Rightarrow> 0) + 95"
| "size_incoming_staking_data (RetireValidator k s) = 1 + 285 + 95"
| "size_incoming_staking_data (ReactivateValidator k s) = 1 + 285 + 95"
| "size_incoming_staking_data (UnparkValidator k s) = 1 + 285 + 95"
| "size_incoming_staking_data (Stake k a) = 1 + 285 + size_option (\<lambda>_. 20) a"

definition deser_incoming_staking_data :: "incoming_staking_data reader" where
  "deser_incoming_staking_data =
    dbind deser_incoming_staking_type (\<lambda>ty. case ty of
      CreateValidatorT \<Rightarrow>
        dbind deser_bls_key (\<lambda>k. dbind deser_bls_sig (\<lambda>p. dbind deser_address (\<lambda>a. dret (CreateValidator k p a))))
    | UpdateValidatorT \<Rightarrow>
        dbind deser_bls_key (\<lambda>k. dbind deser_bool (\<lambda>updates_key. dbind deser_bool (\<lambda>updates_address.
        dbind (if updates_key then dbind deser_bls_key (\<lambda>k'. dbind deser_bls_sig (\<lambda>p. dret (Some k', Some p)))
               else dret (None, None)) (\<lambda>(k', p).
        dbind (if updates_address then dbind deser_address (\<lambda>a. dret (Some a)) else dret None) (\<lambda>a.
        dbind deser_bls_sig (\<lambda>s. dret (UpdateValidator k k' p a s)))))))
    | RetireValidatorT \<Rightarrow> dbind deser_bls_key (\<lambda>k. dbind deser_bls_sig (\<lambda>s. dret (RetireValidator k s)))
    | ReactivateValidatorT \<Rightarrow> dbind deser_bls_key (\<lambda>k. dbind deser_bls_sig (\<lambda>s. dret (ReactivateValidator k s)))
    | UnparkValidatorT \<Rightarrow> dbind deser_bls_key (\<lambda>k. dbind deser_bls_sig (\<lambda>s. dret (UnparkValidator k s)))
    | StakeT \<Rightarrow> dbind deser_bls_key (\<lambda>k. dbind (deser_option deser_address) (\<lambda>a. dret (Stake k a))))"

definition set_validator_signature_on_data :: "bytes \<Rightarrow> bls_signature \<Rightarrow> (bytes, serializing_error) result" where
  "set_validator_signature_on_data d s =
    rbind (deserialize_from_vec deser_incoming_staking_data d) (\<lambda>x.
    serialize_to_vec (ser_incoming_staking_data (set_validator_signature s x)))"

section \<open>Outgoing and self transactions\<close>

datatype outgoing_staking_type = DropValidatorT | UnstakeT

fun outgoing_staking_type_u8 :: "outgoing_staking_type \<Rightarrow> u8" where
  "outgoing_staking_type_u8 DropValidatorT = 0"
| "outgoing_staking_type_u8 UnstakeT = 5"

datatype outgoing_staking_proof = DropValidator bls_public_key bls_signature | Unstake signature_proof

fun ser_outgoing_staking_proof :: "outgoing_staking_proof \<Rightarrow> written" where
  "ser_outgoing_staking_proof (DropValidator k s) = 
    wseqs [ser_u8 (outgoing_staking_type_u8 DropValidatorT), ser_bls_key k, ser_bls_sig s]"
| "ser_outgoing_staking_proof (Unstake sp) = wseqs [ser_u8 (outgoing_staking_type_u8 UnstakeT), ser_signature_proof sp]"

definition deser_outgoing_staking_proof :: "crypto \<Rightarrow> outgoing_staking_proof reader" where
  "deser_outgoing_staking_proof cr =
    dbind (deser_enum [(0, DropValidatorT), (5, UnstakeT)]) (\<lambda>ty. case ty of
      DropValidatorT \<Rightarrow> dbind deser_bls_key (\<lambda>k. dbind deser_bls_sig (\<lambda>s. dret (DropValidator k s)))
    | UnstakeT \<Rightarrow> dbind (deser_signature_proof cr) (\<lambda>sp. dret (Unstake sp)))"

fun size_outgoing_staking_proof :: "outgoing_staking_proof \<Rightarrow> nat" where
  "size_outgoing_staking_proof (DropValidator k s) = 1 + 285 + 95"
| "size_outgoing_staking_proof (Unstake sp) = 1 + size_signature_proof sp"

datatype self_staking_type = RetireStakeT | ReactivateStakeT

fun self_staking_type_u8 :: "self_staking_type \<Rightarrow> u8" where
  "self_staking_type_u8 RetireStakeT = 0"
| "self_staking_type_u8 ReactivateStakeT = 1"

datatype self_staking_data = RetireStake bls_public_key | ReactivateStake bls_public_key

fun ser_self_staking_data :: "self_staking_data \<Rightarrow> written" where
  "ser_self_staking_data (RetireStake k) = wseqs [ser_u8 (self_staking_type_u8 RetireStakeT), ser_bls_key k]"
| "ser_self_staking_data (ReactivateStake k) = wseqs [ser_u8 (self_staking_type_u8 ReactivateStakeT), ser_bls_key k]"

definition deser_self_staking_data :: "self_staking_data reader" where
  "deser_self_staking_data =
    dbind (deser_enum [(0, RetireStakeT), (1, ReactivateStakeT)]) (\<lambda>ty. case ty of
      RetireStakeT \<Rightarrow> dbind deser_bls_key (\<lambda>k. dret (RetireStake k))
    | ReactivateStakeT \<Rightarrow> dbind deser_bls_key (\<lambda>k. dret (ReactivateStake k)))"

definition size_self_staking_data :: "self_staking_data \<Rightarrow> nat" where
  "size_self_staking_data d = 1 + 285"

section \<open>Parsing and static checks\<close>

text \<open>The data has to be read to its end.\<close>

definition full_parse :: "'a reader \<Rightarrow> bytes \<Rightarrow> ('a, transaction_error) result" where
  "full_parse r bs =
    rbind (map_err InvalidSerialization (r bs)) (\<lambda>(x, rest). if rest \<noteq> [] then Inl (Err TxInvalidData) else Inr x)"

definition parse_incoming :: "transaction \<Rightarrow> (incoming_staking_data, transaction_error) result" where
  "parse_incoming tx = full_parse deser_incoming_staking_data (tx_data tx)"

definition parse_outgoing :: "crypto \<Rightarrow> transaction \<Rightarrow> (outgoing_staking_proof, transaction_error) result" where
  "parse_outgoing cr tx = full_parse (deser_outgoing_staking_proof cr) (tx_proof tx)"

definition parse_self :: "transaction \<Rightarrow> (self_staking_data, transaction_error) result" where
  "parse_self tx = full_parse deser_self_staking_data (tx_data tx)"

definition ensure :: "bool \<Rightarrow> 'e \<Rightarrow> (unit, 'e) result" where
  "ensure b e = (if b then Inr () else Inl (Err e))"

definition signed_content :: "transaction \<Rightarrow> (bytes, transaction_error) result" where
  "signed_content tx =
    (if tx_recipient_type tx = AT_Staking then
       rbind (map_err InvalidSerialization (set_validator_signature_on_data (tx_data tx) bls_sig_default)) (\<lambda>d.
       serialize_content (tx\<lparr>tx_data := d\<rparr>))
     else serialize_content tx)"

definition verify_transaction_signature ::
  "crypto \<Rightarrow> transaction \<Rightarrow> bls_public_key \<Rightarrow> bls_signature \<Rightarrow> (unit, transaction_error) result" where
  "verify_transaction_signature cr tx k s =
    rbind (ensure (bls_key_valid cr k) InvalidProof) (\<lambda>_.
    rbind (ensure (bls_sig_valid cr s) InvalidProof) (\<lambda>_.
    rbind (signed_content tx) (\<lambda>content.
    ensure (bls_verify cr k content s) InvalidProof)))"

definition verify_proof_of_knowledge :: "crypto \<Rightarrow> bls_public_key \<Rightarrow> bls_signature \<Rightarrow> (unit, transaction_error) result" where
  "verify_proof_of_knowledge cr k p =
    rbind (ensure (bls_key_valid cr k) TxInvalidData) (\<lambda>_.
    rbind (ensure (bls_sig_valid cr p) TxInvalidData) (\<lambda>_.
    ensure (bls_verify cr k k p) TxInvalidData))"

fun incoming_verify :: "crypto \<Rightarrow> transaction \<Rightarrow> incoming_staking_data \<Rightarrow> (unit, transaction_error) result" where
  "incoming_verify cr tx (CreateValidator k p a) = verify_proof_of_knowledge cr k p"
| "incoming_verify cr tx (UpdateValidator k k' p a s) =
    rbind (verify_transaction_signature cr tx k s) (\<lambda>_.
    rbind (ensure (\<not> (k' = None \<and> a = None)) TxInvalidData) (\<lambda>_.
    case (k', p) of (Some k'', Some p') \<Rightarrow> verify_proof_of_knowledge cr k'' p' | _ \<Rightarrow> Inr ()))"
| "incoming_verify cr tx (RetireValidator k s) = verify_transaction_signature cr tx k s"
| "incoming_verify cr tx (ReactivateValidator k s) = verify_transaction_signature cr tx k s"
| "incoming_verify cr tx (UnparkValidator k s) = verify_transaction_signature cr tx k s"
| "incoming_verify cr tx (Stake k a) = Inr ()"

fun outgoing_verify :: "crypto \<Rightarrow> transaction \<Rightarrow> outgoing_staking_proof \<Rightarrow> (unit, transaction_error) result" where
  "outgoing_verify cr tx (DropValidator k s) = verify_transaction_signature cr tx k s"
| "outgoing_verify cr tx (Unstake sp) =
    rbind (serialize_content tx) (\<lambda>content. ensure (signature_proof_verify cr sp content) InvalidProof)"

definition self_verify :: "transaction \<Rightarrow> self_staking_data \<Rightarrow> (unit, transaction_error) result" where
  "self_verify tx d = Inr ()"

section \<open>Wire formats are codecs\<close>

fun incoming_ok :: "incoming_staking_data \<Rightarrow> bool" where
  "incoming_ok (CreateValidator k p a) \<longleftrightarrow> bls_key_ok k \<and> bls_sig_ok p \<and> address_ok a"
| "incoming_ok (UpdateValidator k k' p a s) \<longleftrightarrow>
    bls_key_ok k \<and> wf_option bls_key_ok k' \<and> wf_option bls_sig_ok p \<and> wf_option address_ok a \<and> bls_sig_ok s \<and>
    (k' = None \<longleftrightarrow> p = None)"
| "incoming_ok (RetireValidator k s) \<longleftrightarrow> bls_key_ok k \<and> bls_sig_ok s"
| "incoming_ok (ReactivateValidator k s) \<longleftrightarrow> bls_key_ok k \<and> bls_sig_ok s"
| "incoming_ok (UnparkValidator k s) \<longleftrightarrow> bls_key_ok k \<and> bls_sig_ok s"
| "incoming_ok (Stake k a) \<longleftrightarrow> bls_key_ok k \<and> wf_option address_ok a"

fun outgoing_ok :: "crypto \<Rightarrow> outgoing_staking_proof \<Rightarrow> bool" where
  "outgoing_ok cr (DropValidator k s) \<longleftrightarrow> bls_key_ok k \<and> bls_sig_ok s"
| "outgoing_ok cr (Unstake sp) \<longleftrightarrow> signature_proof_ok cr sp"

fun self_ok :: "self_staking_data \<Rightarrow> bool" where
  "self_ok (RetireStake k) \<longleftrightarrow> bls_key_ok k"
| "self_ok (ReactivateStake k) \<longleftrightarrow> bls_key_ok k"

lemma encodes_incoming_type [encodes_fields]:
  "encodes (wseqs ws) (f t) y m \<Longrightarrow> encodes (wseqs (ser_incoming_staking_type t # ws)) (dbind deser_incoming_staking_type f) y (1 + m)"
  unfolding ser_incoming_staking_type_def deser_incoming_staking_type_def
  by (rule encodes_wseqs_Cons [OF encodes_enum [of _ _ t]]) (cases t; simp)+

lemma encodes_option_address [encodes_fields]:
  "wf_option address_ok a \<Longrightarrow> encodes (wseqs ws) (f a) y m \<Longrightarrow>
   encodes (wseqs (ser_option ser_address a # ws)) (dbind (deser_option deser_address) f) y (size_option (\<lambda>_. 20) a + m)"
  by (rule encodes_wseqs_Cons [OF encodes_option]) (auto intro: address.encoded)

lemma dbind_assoc: "dbind (dbind r f) g = dbind r (\<lambda>x. dbind (f x) g)"
  by (rule ext) (auto simp: dbind_def split: sum.splits)

lemma dbind_dret: "dbind (dret x) f = f x"
  by (rule ext) (simp add: dbind_def dret_def)

lemma encodes_incoming:
  assumes "incoming_ok d"
  shows "encodes (ser_incoming_staking_data d) deser_incoming_staking_data d (size_incoming_staking_data d)"
proof (cases d)
  case (UpdateValidator k k' p a s)
  with assms have ok: "bls_key_ok k" "bls_sig_ok s" "k' = None \<longleftrightarrow> p = None"
    and opt: "\<And>x. k' = Some x \<Longrightarrow> bls_key_ok x" "\<And>x. p = Some x \<Longrightarrow> bls_sig_ok x" "\<And>x. a = Some x \<Longrightarrow> address_ok x"
    by auto
  have "encodes (ser_incoming_staking_data (UpdateValidator k k' p a s)) deser_incoming_staking_data (UpdateValidator k k' p a s)
      (1 + (285 + (1 + (1 + (case (k', p) of (Some _, Some _) \<Rightarrow> 285 + (95 + (case a of Some _ \<Rightarrow> 20 + (95 + 0) | None \<Rightarrow> 95 + 0))
         | _ \<Rightarrow> (case a of Some _ \<Rightarrow> 20 + (95 + 0) | None \<Rightarrow> 95 + 0))))))"
    unfolding deser_incoming_staking_data_def ser_incoming_staking_data.simps append.simps
    using ok opt
    by (intro encodes_fields, simp_all only: incoming_staking_type.case TrueI)
       (intro encodes_fields; cases k'; cases p; cases a;
        simp only: option.case prod.case append.simps not_True_eq_False if_True if_False dbind_assoc dbind_dret option.distinct simp_thms;
        intro encodes_fields; simp)
  then show ?thesis
    using UpdateValidator by (auto simp: add.assoc split: option.splits)
next
  case (CreateValidator k p a)
  have "encodes (ser_incoming_staking_data (CreateValidator k p a)) deser_incoming_staking_data (CreateValidator k p a) (1 + (285 + (95 + (20 + 0))))"
    unfolding ser_incoming_staking_data.simps deser_incoming_staking_data_def
    using assms unfolding CreateValidator incoming_ok.simps
    by (intro encodes_fields, simp only: incoming_staking_type.case) (intro encodes_fields; simp)
  then show ?thesis
    using CreateValidator by simp
next
  case (RetireValidator k s)
  have "encodes (ser_incoming_staking_data (RetireValidator k s)) deser_incoming_staking_data (RetireValidator k s) (1 + (285 + (95 + 0)))"
    unfolding ser_incoming_staking_data.simps deser_incoming_staking_data_def
    using assms unfolding RetireValidator incoming_ok.simps
    by (intro encodes_fields, simp only: incoming_staking_type.case) (intro encodes_fields; simp)
  then show ?thesis
    using RetireValidator by simp
next
  case (ReactivateValidator k s)
  have "encodes (ser_incoming_staking_data (ReactivateValidator k s)) deser_incoming_staking_data (ReactivateValidator k s) (1 + (285 + (95 + 0)))"
    unfolding ser_incoming_staking_data.simps deser_incoming_staking_data_def
    using assms unfolding ReactivateValidator incoming_ok.simps
    by (intro encodes_fields, simp only: incoming_staking_type.case) (intro encodes_fields; simp)
  then show ?thesis
    using ReactivateValidator by simp
next
  case (UnparkValidator k s)
  have "encodes (ser_incoming_staking_data (UnparkValidator k s)) deser_incoming_staking_data (UnparkValidator k s) (1 + (285 + (95 + 0)))"
    unfolding ser_incoming_staking_data.simps deser_incoming_staking_data_def
    using assms unfolding UnparkValidator incoming_ok.simps
    by (intro encodes_fields, simp only: incoming_staking_type.case) (intro encodes_fields; simp)
  then show ?thesis
    using UnparkValidator by simp
next
  case (Stake k a)
  have "encodes (ser_incoming_staking_data (Stake k a)) deser_incoming_staking_data (Stake k a) (1 + (285 + (size_option (\<lambda>_. 20) a + 0)))"
    unfolding ser_incoming_staking_data.simps deser_incoming_staking_data_def
    using assms unfolding Stake incoming_ok.simps
    by (intro encodes_fields, simp only: incoming_staking_type.case) (intro encodes_fields; simp)
  then show ?thesis
    using Stake by simp
qed


interpretation incoming: codec ser_incoming_staking_data deser_incoming_staking_data size_incoming_staking_data incoming_ok
  by unfold_locales (rule encodes_incoming)

lemma encodes_outgoing:
  assumes "outgoing_ok cr p"
  shows "encodes (ser_outgoing_staking_proof p) (deser_outgoing_staking_proof cr) p (size_outgoing_staking_proof p)"
proof (cases p)
  case (DropValidator k s)
  have "encodes (ser_outgoing_staking_proof (DropValidator k s)) (deser_outgoing_staking_proof cr) (DropValidator k s) (1 + (285 + (95 + 0)))"
    unfolding ser_outgoing_staking_proof.simps deser_outgoing_staking_proof_def
    using assms unfolding DropValidator outgoing_ok.simps
    by (intro encodes_wseqs_Cons [OF encodes_enum [of _ _ DropValidatorT]], simp, simp only: outgoing_staking_type.case)
       (intro encodes_fields; simp)
  then show ?thesis
    using DropValidator by simp
next
  case (Unstake sp)
  have "encodes (ser_outgoing_staking_proof (Unstake sp)) (deser_outgoing_staking_proof cr) (Unstake sp) (1 + (size_signature_proof sp + 0))"
    unfolding ser_outgoing_staking_proof.simps deser_outgoing_staking_proof_def
    using assms unfolding Unstake outgoing_ok.simps
    by (intro encodes_wseqs_Cons [OF encodes_enum [of _ _ UnstakeT]], simp, simp only: outgoing_staking_type.case)
       (intro encodes_wseqs_Cons [OF signature_proof.encoded] encodes_wseqs_Nil; simp)
  then show ?thesis
    using Unstake by simp
qed

interpretation outgoing: codec ser_outgoing_staking_proof "deser_outgoing_staking_proof cr" size_outgoing_staking_proof "outgoing_ok cr" for cr
  by unfold_locales (rule encodes_outgoing)

lemma encodes_self:
  assumes "self_ok d"
  shows "encodes (ser_self_staking_data d) deser_self_staking_data d (size_self_staking_data d)"
proof (cases d)
  case (RetireStake k)
  have "encodes (ser_self_staking_data (RetireStake k)) deser_self_staking_data (RetireStake k) (1 + (285 + 0))"
    unfolding ser_self_staking_data.simps deser_self_staking_data_def
    using assms unfolding RetireStake self_ok.simps
    by (intro encodes_wseqs_Cons [OF encodes_enum [of _ _ RetireStakeT]], simp, simp only: self_staking_type.case)
       (intro encodes_fields; simp)
  then show ?thesis
    using RetireStake by (simp add: size_self_staking_data_def)
next
  case (ReactivateStake k)
  have "encodes (ser_self_staking_data (ReactivateStake k)) deser_self_staking_data (ReactivateStake k) (1 + (285 + 0))"
    unfolding ser_self_staking_data.simps deser_self_staking_data_def
    using assms unfolding ReactivateStake self_ok.simps
    by (intro encodes_wseqs_Cons [OF encodes_enum [of _ _ ReactivateStakeT]], simp, simp only: self_staking_type.case)
       (intro encodes_fields; simp)
  then show ?thesis
    using ReactivateStake by (simp add: size_self_staking_data_def)
qed

interpretation self_data: codec ser_self_staking_data deser_self_staking_data size_self_staking_data self_ok
  by unfold_locales (rule encodes_self)

section \<open>Parsing is total on what was written, and only on that\<close>

lemma full_parse_encoded: "encodes w r x n \<Longrightarrow> w = Inr bs \<Longrightarrow> full_parse r bs = Inr x"
  by (force simp: encodes_def full_parse_def dest: spec [of _ "[]"])

lemma full_parse_trailing: "encodes w r x n \<Longrightarrow> w = Inr bs \<Longrightarrow> rest \<noteq> [] \<Longrightarrow> full_parse r (bs @ rest) = Inl (Err TxInvalidData)"
  by (auto simp: encodes_def full_parse_def)

lemma incoming_ok_set_signature: "incoming_ok d \<Longrightarrow> bls_sig_ok s \<Longrightarrow> incoming_ok (set_validator_signature s d)"
  by (cases d) auto

text \<open>C17: The message a validator signs is the content of the transaction with the signature field of the data reset: whatever signature
  the data of an update, retirement, reactivation or unparking carries, the signed content is that of the transaction with the default
  signature in its place, so that the signature can be computed first and inserted afterwards.\<close>

theorem signed_content_ignores_signature:
  assumes "tx_recipient_type tx = AT_Staking" "incoming_ok d"
    and "d = UpdateValidator k k' p a s \<and> d0 = UpdateValidator k k' p a bls_sig_default \<or>
      d = RetireValidator k s \<and> d0 = RetireValidator k bls_sig_default \<or>
      d = ReactivateValidator k s \<and> d0 = ReactivateValidator k bls_sig_default \<or>
      d = UnparkValidator k s \<and> d0 = UnparkValidator k bls_sig_default"
  shows "\<exists>bs bs0. ser_incoming_staking_data d = Inr bs \<and> ser_incoming_staking_data d0 = Inr bs0 \<and>
    signed_content (tx\<lparr>tx_data := bs\<rparr>) = serialize_content (tx\<lparr>tx_data := bs0\<rparr>)"
proof -
  have d0: "incoming_ok d0" "set_validator_signature bls_sig_default d = d0"
    using assms(2,3) bls_sig_default_ok by auto
  obtain bs bs0 where bs: "ser_incoming_staking_data d = Inr bs" "ser_incoming_staking_data d0 = Inr bs0"
    using incoming.ser_defined [OF assms(2)] incoming.ser_defined [OF d0(1)] by blast
  have "deserialize_from_vec deser_incoming_staking_data bs = Inr d"
    using incoming.from_vec_to_vec [OF assms(2)] bs(1) by simp
  with bs d0(2) assms(1) show ?thesis
    by (simp add: signed_content_def set_validator_signature_on_data_def serialize_to_vec_def del: ser_incoming_staking_data.simps)
qed

theorem signed_content_ignores_signature_witness:
  "\<exists>bs bs0. ser_incoming_staking_data (RetireValidator (replicate 285 1) (replicate 95 7)) = Inr bs \<and>
    ser_incoming_staking_data (RetireValidator (replicate 285 1) bls_sig_default) = Inr bs0 \<and>
    signed_content ((new_signalling [] AT_Basic [] AT_Staking (Coin 0) (Coin 0) [] 1 Dummy)\<lparr>tx_data := bs\<rparr>)
      = serialize_content ((new_signalling [] AT_Basic [] AT_Staking (Coin 0) (Coin 0) [] 1 Dummy)\<lparr>tx_data := bs0\<rparr>)"
proof (rule signed_content_ignores_signature)
  show "tx_recipient_type (new_signalling [] AT_Basic [] AT_Staking (Coin 0) (Coin 0) [] 1 Dummy) = AT_Staking"
    by (simp add: new_signalling_def new_extended_def)
  show "incoming_ok (RetireValidator (replicate 285 1) (replicate 95 7))"
    by (simp add: bls_key_ok_def bls_sig_ok_def)
qed blast

text \<open>C18: The data of every well-formed staking transaction is parsed back from what is written of it, whichever
  of the three kinds it is, and is rejected with anything appended.\<close>

theorem staking_data_parse:
  assumes "incoming_ok d" "outgoing_ok cr p" "self_ok e"
  shows "(\<exists>bs. ser_incoming_staking_data d = Inr bs \<and> full_parse deser_incoming_staking_data bs = Inr d \<and>
      (\<forall>rest. rest \<noteq> [] \<longrightarrow> full_parse deser_incoming_staking_data (bs @ rest) = Inl (Err TxInvalidData))) \<and>
    (\<exists>bs. ser_outgoing_staking_proof p = Inr bs \<and> full_parse (deser_outgoing_staking_proof cr) bs = Inr p \<and>
      (\<forall>rest. rest \<noteq> [] \<longrightarrow> full_parse (deser_outgoing_staking_proof cr) (bs @ rest) = Inl (Err TxInvalidData))) \<and>
    (\<exists>bs. ser_self_staking_data e = Inr bs \<and> full_parse deser_self_staking_data bs = Inr e \<and>
      (\<forall>rest. rest \<noteq> [] \<longrightarrow> full_parse deser_self_staking_data (bs @ rest) = Inl (Err TxInvalidData)))"
proof -
  obtain bs1 bs2 bs3 where "ser_incoming_staking_data d = Inr bs1" "ser_outgoing_staking_proof p = Inr bs2"
    "ser_self_staking_data e = Inr bs3"
    using incoming.ser_defined [OF assms(1)] outgoing.ser_defined [OF assms(2)] self_data.ser_defined [OF assms(3)] by blast
  then show ?thesis
    using full_parse_encoded [OF incoming.encoded [OF assms(1)]] full_parse_trailing [OF incoming.encoded [OF assms(1)]]
      full_parse_encoded [OF outgoing.encoded [OF assms(2)]] full_parse_trailing [OF outgoing.encoded [OF assms(2)]]
      full_parse_encoded [OF self_data.encoded [OF assms(3)]] full_parse_trailing [OF self_data.encoded [OF assms(3)]]
    by blast
qed

theorem staking_data_parse_witness:
  "\<exists>bs. ser_incoming_staking_data (Stake (replicate 285 1) (Some (replicate 20 2))) = Inr bs \<and>
    full_parse deser_incoming_staking_data bs = Inr (Stake (replicate 285 1) (Some (replicate 20 2)))"
proof -
  have "incoming_ok (Stake (replicate 285 1) (Some (replicate 20 2)))"
    "outgoing_ok example_crypto (DropValidator (replicate 285 1) (replicate 95 2))" "self_ok (RetireStake (replicate 285 1))"
    by (simp_all add: bls_key_ok_def bls_sig_ok_def address_ok_def)
  from staking_data_parse [OF this] show ?thesis by blast
qed

end
