(* ===== verification/Transaction_Verify.thy ===== *)
theory Transaction_Verify
  imports Staking_Data
begin

text \<open>
  Static verification of transactions: \<open>Transaction::verify\<close> and the verifiers of the four account types
  (\<open>primitives/transaction/src/lib.rs\<close>, \<open>account/mod.rs\<close>, \<open>account/basic_account.rs\<close>,
  \<open>account/vesting_contract.rs\<close>, \<open>account/htlc_contract.rs\<close>, \<open>account/staking_contract/mod.rs\<close>), with the
  creation data of vesting and hashed time-locked contracts.
\<close>

section \<open>Creation data\<close>

record vesting_creation =
  vc_owner :: address
  vc_start_time :: u64
  vc_time_step :: u64
  vc_step_amount :: coin
  vc_total_amount :: coin

definition read_tx :: "'a reader \<Rightarrow> bytes \<Rightarrow> ('a \<times> bytes, transaction_error) result" where
  "read_tx r bs = map_err InvalidSerialization (r bs)"

definition vesting_parse :: "transaction \<Rightarrow> (vesting_creation, transaction_error) result" where
  "vesting_parse tx =
    rbind (read_tx deser_address (tx_data tx)) (\<lambda>(owner, b1).
    if length (tx_data tx) = 20 + 8 then
      rbind (read_tx deser_u64 b1) (\<lambda>(time_step, _).
      Inr \<lparr>vc_owner = owner, vc_start_time = 0, vc_time_step = time_step, vc_step_amount = tx_value tx, vc_total_amount = tx_value tx\<rparr>)
    else if length (tx_data tx) = 20 + 24 then
      rbind (read_tx deser_u64 b1) (\<lambda>(start_time, b2). rbind (read_tx deser_u64 b2) (\<lambda>(time_step, b3).
      rbind (read_tx deser_coin b3) (\<lambda>(step_amount, _).
      Inr \<lparr>vc_owner = owner, vc_start_time = start_time, vc_time_step = time_step, vc_step_amount = step_amount, vc_total_amount = tx_value tx\<rparr>)))
    else if length (tx_data tx) = 20 + 32 then
      rbind (read_tx deser_u64 b1) (\<lambda>(start_time, b2). rbind (read_tx deser_u64 b2) (\<lambda>(time_step, b3).
      rbind (read_tx deser_coin b3) (\<lambda>(step_amount, b4). rbind (read_tx deser_coin b4) (\<lambda>(total_amount, _).
      Inr \<lparr>vc_owner = owner, vc_start_time = start_time, vc_time_step = time_step, vc_step_amount = step_amount, vc_total_amount = total_amount\<rparr>))))
    else Inl (Err TxInvalidData))"

definition ser_vesting_creation :: "vesting_creation \<Rightarrow> written" where
  "ser_vesting_creation d =
    wseqs (ser_address (vc_owner d) #
     (if vc_step_amount d = vc_total_amount d then
        (if vc_start_time d = 0 then [ser_u64 (vc_time_step d)]
         else [ser_u64 (vc_start_time d), ser_u64 (vc_time_step d), ser_coin (vc_step_amount d)])
      else [ser_u64 (vc_start_time d), ser_u64 (vc_time_step d), ser_coin (vc_step_amount d), ser_coin (vc_total_amount d)]))"

definition size_vesting_creation :: "vesting_creation \<Rightarrow> nat" where
  "size_vesting_creation d =
    (if vc_step_amount d = vc_total_amount d then (if vc_start_time d = 0 then 20 + 8 else 20 + 24) else 20 + 32)"

datatype hash_algorithm = Blake2b | Sha256

fun hash_algorithm_u8 :: "hash_algorithm \<Rightarrow> u8" where
  "hash_algorithm_u8 Blake2b = 1"
| "hash_algorithm_u8 Sha256 = 3"

definition ser_hash_algorithm :: "hash_algorithm \<Rightarrow> written" where
  "ser_hash_algorithm a = ser_u8 (hash_algorithm_u8 a)"

definition deser_hash_algorithm :: "hash_algorithm reader" where
  "deser_hash_algorithm = deser_enum [(1, Blake2b), (3, Sha256)]"

datatype proof_type = RegularTransfer | EarlyResolve | TimeoutResolve

definition deser_proof_type :: "proof_type reader" where
  "deser_proof_type = deser_enum [(1, RegularTransfer), (2, EarlyResolve), (3, TimeoutResolve)]"

text \<open>\<open>AnyHash\<close>: 32 bytes of either hash function.\<close>

type_synonym any_hash = bytes

definition ser_any_hash :: "any_hash \<Rightarrow> written" where "ser_any_hash = ser_array"
definition deser_any_hash :: "any_hash reader" where "deser_any_hash = deser_array 32"

record htlc_creation =
  hc_sender :: address
  hc_recipient :: address
  hc_hash_algorithm :: hash_algorithm
  hc_hash_root :: any_hash
  hc_hash_count :: u8
  hc_timeout :: u64

definition ser_htlc_creation :: "htlc_creation \<Rightarrow> written" where
  "ser_htlc_creation d =
    wseqs [ser_address (hc_sender d), ser_address (hc_recipient d), ser_hash_algorithm (hc_hash_algorithm d),
      ser_any_hash (hc_hash_root d), ser_u8 (hc_hash_count d), ser_u64 (hc_timeout d)]"

definition deser_htlc_creation :: "htlc_creation reader" where
  "deser_htlc_creation =
    dbind deser_address (\<lambda>s. dbind deser_address (\<lambda>r. dbind deser_hash_algorithm (\<lambda>a. dbind deser_any_hash (\<lambda>h.
    dbind deser_u8 (\<lambda>n. dbind deser_u64 (\<lambda>t.
    dret \<lparr>hc_sender = s, hc_recipient = r, hc_hash_algorithm = a, hc_hash_root = h, hc_hash_count = n, hc_timeout = t\<rparr>))))))"

definition htlc_parse :: "transaction \<Rightarrow> (htlc_creation, transaction_error) result" where
  "htlc_parse tx = rbind (read_tx deser_htlc_creation (tx_data tx)) (\<lambda>(d, _). Inr d)"

definition htlc_creation_verify :: "htlc_creation \<Rightarrow> (unit, transaction_error) result" where
  "htlc_creation_verify d = ensure (hc_hash_count d \<noteq> 0) TxInvalidData"

section \<open>Verifiers of the account types\<close>

definition assert_that :: "bool \<Rightarrow> (unit, 'e) result" where
  "assert_that b = (if b then Inr () else Inl Panic)"

definition basic_verify_incoming :: "transaction \<Rightarrow> (unit, transaction_error) result" where
  "basic_verify_incoming tx =
    rbind (assert_that (tx_recipient_type tx = AT_Basic)) (\<lambda>_.
    rbind (ensure (tx_sender tx \<noteq> tx_recipient tx) SenderEqualsRecipient) (\<lambda>_.
    ensure (\<not> (flags_contains (tx_flags tx) CONTRACT_CREATION \<or> flags_contains (tx_flags tx) SIGNALLING)) InvalidForRecipient))"

definition basic_verify_outgoing :: "crypto \<Rightarrow> transaction \<Rightarrow> (unit, transaction_error) result" where
  "basic_verify_outgoing cr tx =
    rbind (assert_that (tx_sender_type tx = AT_Basic)) (\<lambda>_.
    rbind (read_tx (deser_signature_proof cr) (tx_proof tx)) (\<lambda>(sp, _).
    if \<not> is_signed_by cr sp (tx_sender tx) then Inl (Err InvalidProof)
    else rbind (serialize_content tx) (\<lambda>content. ensure (signature_proof_verify cr sp content) InvalidProof)))"

text \<open>The checks that both contract types make on their creation.\<close>

definition verify_creation_flags :: "crypto \<Rightarrow> transaction \<Rightarrow> (unit, transaction_error) result" where
  "verify_creation_flags cr tx =
    rbind (ensure (tx_sender tx \<noteq> tx_recipient tx) SenderEqualsRecipient) (\<lambda>_.
    rbind (ensure (flags_contains (tx_flags tx) CONTRACT_CREATION) InvalidForRecipient) (\<lambda>_.
    rbind (ensure (\<not> flags_contains (tx_flags tx) SIGNALLING) InvalidForRecipient) (\<lambda>_.
    rbind (contract_creation_address cr tx) (\<lambda>a.
    ensure (tx_recipient tx = a) InvalidForRecipient))))"

definition vesting_verify_incoming :: "crypto \<Rightarrow> transaction \<Rightarrow> (unit, transaction_error) result" where
  "vesting_verify_incoming cr tx =
    rbind (assert_that (tx_recipient_type tx = AT_Vesting)) (\<lambda>_.
    rbind (verify_creation_flags cr tx) (\<lambda>_.
    rbind (ensure (length (tx_data tx) \<in> {20 + 8, 20 + 24, 20 + 32}) TxInvalidData) (\<lambda>_.
    rbind (vesting_parse tx) (\<lambda>_. Inr ()))))"

definition vesting_verify_outgoing :: "crypto \<Rightarrow> transaction \<Rightarrow> (unit, transaction_error) result" where
  "vesting_verify_outgoing cr tx =
    rbind (assert_that (tx_sender_type tx = AT_Vesting)) (\<lambda>_.
    rbind (read_tx (deser_signature_proof cr) (tx_proof tx)) (\<lambda>(sp, _).
    rbind (serialize_content tx) (\<lambda>content. ensure (signature_proof_verify cr sp content) InvalidProof)))"

definition htlc_verify_incoming :: "crypto \<Rightarrow> transaction \<Rightarrow> (unit, transaction_error) result" where
  "htlc_verify_incoming cr tx =
    rbind (assert_that (tx_recipient_type tx = AT_HTLC)) (\<lambda>_.
    rbind (verify_creation_flags cr tx) (\<lambda>_.
    rbind (ensure (length (tx_data tx) = 20 * 2 + 1 + 32 + 1 + 8) TxInvalidData) (\<lambda>_.
    rbind (htlc_parse tx) htlc_creation_verify)))"

fun hash_times :: "crypto \<Rightarrow> hash_algorithm \<Rightarrow> nat \<Rightarrow> any_hash \<Rightarrow> any_hash" where
  "hash_times cr a 0 h = h"
| "hash_times cr a (Suc n) h = hash_times cr a n (case a of Blake2b \<Rightarrow> blake2b cr h | Sha256 \<Rightarrow> sha256 cr h)"

definition htlc_verify_outgoing :: "crypto \<Rightarrow> transaction \<Rightarrow> (unit, transaction_error) result" where
  "htlc_verify_outgoing cr tx =
    rbind (assert_that (tx_sender_type tx = AT_HTLC)) (\<lambda>_.
    rbind (serialize_content tx) (\<lambda>content.
    rbind (read_tx deser_proof_type (tx_proof tx)) (\<lambda>(ty, b1). case ty of
      RegularTransfer \<Rightarrow>
        rbind (read_tx deser_hash_algorithm b1) (\<lambda>(alg, b2). rbind (read_tx deser_u8 b2) (\<lambda>(depth, b3).
        rbind (read_tx deser_any_hash b3) (\<lambda>(hash_root, b4). rbind (read_tx deser_any_hash b4) (\<lambda>(pre_image, b5).
        rbind (read_tx (deser_signature_proof cr) b5) (\<lambda>(sp, b6).
        rbind (ensure (b6 = []) InvalidProof) (\<lambda>_.
        rbind (ensure (hash_root = hash_times cr alg (unat depth) pre_image) InvalidProof) (\<lambda>_.
        ensure (signature_proof_verify cr sp content) InvalidProof)))))))
    | EarlyResolve \<Rightarrow>
        rbind (read_tx (deser_signature_proof cr) b1) (\<lambda>(sp_recipient, b2).
        rbind (read_tx (deser_signature_proof cr) b2) (\<lambda>(sp_sender, b3).
        rbind (ensure (b3 = []) InvalidProof) (\<lambda>_.
        ensure (signature_proof_verify cr sp_recipient content \<and> signature_proof_verify cr sp_sender content) InvalidProof)))
    | TimeoutResolve \<Rightarrow>
        rbind (read_tx (deser_signature_proof cr) b1) (\<lambda>(sp, b2).
        rbind (ensure (b2 = []) InvalidProof) (\<lambda>_.
        ensure (signature_proof_verify cr sp content) InvalidProof)))))"

definition staking_verify_incoming :: "crypto \<Rightarrow> transaction \<Rightarrow> (unit, transaction_error) result" where
  "staking_verify_incoming cr tx =
    rbind (assert_that (tx_recipient_type tx = AT_Staking)) (\<lambda>_.
    rbind (ensure (\<not> flags_contains (tx_flags tx) CONTRACT_CREATION) InvalidForRecipient) (\<lambda>_.
    if tx_sender tx \<noteq> tx_recipient tx then
      rbind (parse_incoming tx) (\<lambda>d.
      rbind (incoming_verify cr tx d) (\<lambda>_.
      rbind (ensure (incoming_is_signalling d = flags_contains (tx_flags tx) SIGNALLING) InvalidForRecipient) (\<lambda>_.
      case d of
        Stake _ _ \<Rightarrow> ensure (\<not> tx_value tx < from_u64_unchecked MIN_STAKE) InvalidForRecipient
      | CreateValidator _ _ _ \<Rightarrow> ensure (\<not> tx_value tx < from_u64_unchecked MIN_VALIDATOR_STAKE) InvalidForRecipient
      | _ \<Rightarrow> Inr ())))
    else
      rbind (ensure (\<not> flags_contains (tx_flags tx) SIGNALLING) InvalidForRecipient) (\<lambda>_.
      rbind (parse_self tx) (self_verify tx))))"

definition staking_verify_outgoing :: "crypto \<Rightarrow> transaction \<Rightarrow> (unit, transaction_error) result" where
  "staking_verify_outgoing cr tx =
    rbind (assert_that (tx_sender_type tx = AT_Staking)) (\<lambda>_.
    rbind (ensure (tx_value tx \<noteq> coin_ZERO) ZeroValue) (\<lambda>_.
    if tx_sender tx = tx_recipient tx then
      rbind (read_tx (deser_signature_proof cr) (tx_proof tx)) (\<lambda>(sp, _).
      rbind (serialize_content tx) (\<lambda>content. ensure (signature_proof_verify cr sp content) InvalidProof))
    else rbind (parse_outgoing cr tx) (outgoing_verify cr tx)))"

definition verify_incoming_transaction :: "crypto \<Rightarrow> transaction \<Rightarrow> (unit, transaction_error) result" where
  "verify_incoming_transaction cr tx =
    (case tx_recipient_type tx of
       AT_Basic \<Rightarrow> basic_verify_incoming tx
     | AT_Vesting \<Rightarrow> vesting_verify_incoming cr tx
     | AT_HTLC \<Rightarrow> htlc_verify_incoming cr tx
     | AT_Staking \<Rightarrow> staking_verify_incoming cr tx)"

definition verify_outgoing_transaction :: "crypto \<Rightarrow> transaction \<Rightarrow> (unit, transaction_error) result" where
  "verify_outgoing_transaction cr tx =
    (case tx_sender_type tx of
       AT_Basic \<Rightarrow> basic_verify_outgoing cr tx
     | AT_Vesting \<Rightarrow> vesting_verify_outgoing cr tx
     | AT_HTLC \<Rightarrow> htlc_verify_outgoing cr tx
     | AT_Staking \<Rightarrow> staking_verify_outgoing cr tx)"

section \<open>Verification of a transaction\<close>

definition transaction_verify :: "crypto \<Rightarrow> network_id \<Rightarrow> transaction \<Rightarrow> (unit, transaction_error) result" where
  "transaction_verify cr network tx =
    (if tx_valid tx then Inr ()
     else
       rbind (ensure (tx_network_id tx = network) ForeignNetwork) (\<lambda>_.
       rbind (if flags_contains (tx_flags tx) SIGNALLING then ensure (tx_value tx = coin_ZERO) InvalidForRecipient
              else ensure (tx_value tx \<noteq> coin_ZERO) ZeroValue) (\<lambda>_.
       rbind (case coin_checked_add (tx_value tx) (tx_fee tx) of
                Some c \<Rightarrow> ensure (\<not> c > from_u64_unchecked TOTAL_SUPPLY) TxOverflow
              | None \<Rightarrow> Inl (Err TxOverflow)) (\<lambda>_.
       rbind (verify_outgoing_transaction cr tx) (\<lambda>_.
       verify_incoming_transaction cr tx)))))"

definition transaction_verify_mut :: "crypto \<Rightarrow> network_id \<Rightarrow> transaction \<Rightarrow> (unit, transaction_error) result \<times> transaction" where
  "transaction_verify_mut cr network tx =
    (case transaction_verify cr network tx of
       Inr u \<Rightarrow> (Inr u, tx\<lparr>tx_valid := True\<rparr>)
     | Inl e \<Rightarrow> (Inl e, tx))"

definition check_set_valid :: "crypto \<Rightarrow> transaction \<Rightarrow> transaction \<Rightarrow> (transaction, 'e) result" where
  "check_set_valid cr tx other =
    (if tx_valid other then
       rbind (transaction_hash cr tx) (\<lambda>h. rbind (transaction_hash cr other) (\<lambda>h'.
       Inr (if h = h' then tx\<lparr>tx_valid := True\<rparr> else tx)))
     else Inr tx)"

section \<open>What verification establishes\<close>

lemma ensure_Inr [simp]: "ensure b e = Inr u \<longleftrightarrow> b"
  by (simp add: ensure_def)

lemma assert_that_Inr [simp]: "assert_that b = Inr u \<longleftrightarrow> b"
  by (simp add: assert_that_def)

lemma flags_contains_0 [simp]: "f \<noteq> 0 \<Longrightarrow> \<not> flags_contains 0 f"
  by (simp add: flags_contains_def)

lemma verify_incoming_distinct:
  "verify_incoming_transaction cr tx = Inr () \<Longrightarrow> tx_sender tx = tx_recipient tx \<Longrightarrow>
    tx_recipient_type tx = AT_Staking \<and> (\<exists>d. parse_self tx = Inr d \<and> self_verify tx d = Inr ())"
  by (auto simp: verify_incoming_transaction_def basic_verify_incoming_def vesting_verify_incoming_def htlc_verify_incoming_def
      staking_verify_incoming_def verify_creation_flags_def rbind_eq_Inr split: account_type.splits)

text \<open>C7: A transaction that passes verification without a cached result is of the right network, moves coins exactly
  when it is not a signalling transaction, and moves at most the total supply including the fee.  When its
  sender and recipient are one address, the recipient is of staking type and the data is that of a transaction of the staking contract
  to itself, which passes its own check; the type of the sender is not compared.\<close>

theorem transaction_verify_sound:
  assumes "transaction_verify cr network tx = Inr ()" "\<not> tx_valid tx"
  shows "tx_network_id tx = network \<and>
    (flags_contains (tx_flags tx) SIGNALLING \<longleftrightarrow> val (tx_value tx) = 0) \<and>
    val (tx_value tx) + val (tx_fee tx) \<le> unat TOTAL_SUPPLY \<and>
    (tx_sender tx = tx_recipient tx \<longrightarrow>
      tx_recipient_type tx = AT_Staking \<and> (\<exists>d. parse_self tx = Inr d \<and> self_verify tx d = Inr ()))"
proof -
  have net: "tx_network_id tx = network"
    and sig: "(if flags_contains (tx_flags tx) SIGNALLING then ensure (tx_value tx = coin_ZERO) InvalidForRecipient
              else ensure (tx_value tx \<noteq> coin_ZERO) ZeroValue) = Inr ()"
    and sum: "(case coin_checked_add (tx_value tx) (tx_fee tx) of
                Some c \<Rightarrow> ensure (\<not> c > from_u64_unchecked TOTAL_SUPPLY) TxOverflow
              | None \<Rightarrow> Inl (Err TxOverflow)) = Inr ()"
    and inc: "verify_incoming_transaction cr tx = Inr ()"
    using assms by (simp_all add: transaction_verify_def rbind_eq_Inr)
  have "flags_contains (tx_flags tx) SIGNALLING \<longleftrightarrow> val (tx_value tx) = 0"
    using sig by (auto simp: coin_eq_iff coin_ZERO_def split: if_splits)
  moreover have "val (tx_value tx) + val (tx_fee tx) \<le> unat TOTAL_SUPPLY"
    using sum by (auto simp: coin_checked_add_Some coin_less_val from_u64_unchecked_def not_less split: option.splits)
  ultimately show ?thesis
    using net verify_incoming_distinct [OF inc] by simp
qed

text \<open>C9: A verified transaction of a basic account carries a proof whose key leads to the sender's address and whose
  signature covers the transaction's content.\<close>

theorem basic_transaction_signed:
  assumes "transaction_verify cr network tx = Inr ()" "\<not> tx_valid tx" "tx_sender_type tx = AT_Basic"
  shows "\<exists>sp rest content. deser_signature_proof cr (tx_proof tx) = Inr (sp, rest) \<and> compute_signer cr sp = tx_sender tx \<and>
    ser_transaction_content tx = Inr content \<and> ed_verify cr (sp_public_key sp) (sp_signature sp) content"
  using assms
  by (auto simp: transaction_verify_def verify_outgoing_transaction_def basic_verify_outgoing_def rbind_eq_Inr read_tx_def
      is_signed_by_def serialize_content_def signature_proof_verify_def split: if_splits)

text \<open>C10: A verified transaction to a vesting or hashed time-locked contract creates that contract at the address derived
  from the transaction's own content.\<close>

theorem contract_creation_verified:
  assumes "transaction_verify cr network tx = Inr ()" "\<not> tx_valid tx" "tx_recipient_type tx = AT_Vesting \<or> tx_recipient_type tx = AT_HTLC"
  shows "flags_contains (tx_flags tx) CONTRACT_CREATION \<and>
    (contract_creation_address cr tx :: (address, transaction_error) result) = Inr (tx_recipient tx) \<and>
    (tx_recipient_type tx = AT_Vesting \<longrightarrow> (\<exists>d. vesting_parse tx = Inr d)) \<and>
    (tx_recipient_type tx = AT_HTLC \<longrightarrow> (\<exists>d. htlc_parse tx = Inr d \<and> hc_hash_count d \<noteq> 0))"
  using assms
  by (auto simp: transaction_verify_def verify_incoming_transaction_def vesting_verify_incoming_def htlc_verify_incoming_def
      verify_creation_flags_def htlc_creation_verify_def rbind_eq_Inr)

section \<open>Verification does not panic\<close>

definition no_panic :: "'a reader \<Rightarrow> bool" where
  "no_panic r \<longleftrightarrow> (\<forall>bs. r bs \<noteq> Inl Panic)"

lemma no_panic_intros:
  "no_panic (dret x)" "no_panic (dfail e)" "no_panic (read_exact n)" "no_panic deser_u8"
  "no_panic r \<Longrightarrow> (\<And>x. no_panic (f x)) \<Longrightarrow> no_panic (dbind r f)"
  by (auto simp: no_panic_def dret_def dfail_def read_exact_def deser_u8_def dbind_def split: list.splits sum.splits)

lemma no_panic_readers:
  "no_panic deser_address" "no_panic deser_hash" "no_panic deser_any_hash" "no_panic deser_bls_key" "no_panic deser_bls_sig"
  "no_panic (deser_uint n)" "no_panic deser_bool" "no_panic deser_coin" "no_panic (deser_public_key cr)" "no_panic (deser_signature cr)"
  "no_panic (deser_enum t)"
  by (auto simp: deser_address_def deser_hash_def deser_any_hash_def deser_bls_key_def deser_bls_sig_def deser_array_def
      deser_uint_def deser_bool_def deser_coin_def deser_u64_def deser_public_key_def deser_signature_def deser_enum_def
      intro!: no_panic_intros split: option.splits)

lemma no_panic_option: "no_panic r \<Longrightarrow> no_panic (deser_option r)"
  by (auto simp: deser_option_def intro!: no_panic_intros)

lemma no_panic_path_nodes: "no_panic (read_path_nodes bits i n)"
  by (induction n arbitrary: i) (auto intro!: no_panic_intros no_panic_readers)

lemma no_panic_signature_proof: "no_panic (deser_signature_proof cr)"
  by (auto simp: deser_signature_proof_def deser_merkle_path_def intro!: no_panic_intros no_panic_readers no_panic_path_nodes)

lemma no_panic_incoming: "no_panic deser_incoming_staking_data"
  unfolding deser_incoming_staking_data_def deser_incoming_staking_type_def
  by (auto intro!: no_panic_intros no_panic_readers no_panic_option split: incoming_staking_type.splits)

lemma no_panic_outgoing: "no_panic (deser_outgoing_staking_proof cr)"
  unfolding deser_outgoing_staking_proof_def
  by (auto intro!: no_panic_intros no_panic_readers no_panic_signature_proof split: outgoing_staking_type.splits)

lemma no_panic_self: "no_panic deser_self_staking_data"
  unfolding deser_self_staking_data_def
  by (auto intro!: no_panic_intros no_panic_readers split: self_staking_type.splits)

lemma wseqs_map_u8: "wseqs (map ser_u8 bs) = Inr bs"
  by (induction bs) (simp_all add: wseq_def ser_u8_def)

lemma ser_content_defined:
  assumes "transaction_ok tx"
  shows "\<exists>content. ser_transaction_content tx = Inr content"
  using assms
  by (simp add: transaction_ok_def ser_transaction_content_def ser_vec_def ser_len_def wseqs_map_u8 wseq_def coin_ok_def
      ser_address_def ser_array_def ser_account_type_def ser_coin_def ser_u32_def ser_u64_def ser_uint_def ser_network_id_def ser_u8_def)

lemma content_no_panic: "transaction_ok tx \<Longrightarrow> serialize_content tx \<noteq> Inl Panic"
  using ser_content_defined [of tx] by (auto simp: serialize_content_def serialize_to_vec_def)

lemma deser_fixed_ok:
  "deser_bls_key bs = Inr (k, rest) \<Longrightarrow> bls_key_ok k"
  "deser_bls_sig bs = Inr (s, rest) \<Longrightarrow> bls_sig_ok s"
  "deser_address bs = Inr (a, rest) \<Longrightarrow> address_ok a"
  by (auto simp: deser_bls_key_def deser_bls_sig_def deser_address_def deser_array_def read_exact_Inr bls_key_ok_def
      bls_sig_ok_def address_ok_def)

lemma deser_option_ok: "deser_option r bs = Inr (x, rest) \<Longrightarrow> (\<And>bs y rest. r bs = Inr (y, rest) \<Longrightarrow> P y) \<Longrightarrow> wf_option P x"
  by (auto simp: deser_option_def dbind_Inr dret_def dfail_def split: if_splits)

lemma deser_incoming_ok:
  assumes "deser_incoming_staking_data bs = Inr (d, rest)"
  shows "incoming_ok d"
proof -
  obtain t mid where "deser_incoming_staking_type bs = Inr (t, mid)"
    using assms by (auto simp: deser_incoming_staking_data_def dbind_Inr)
  with assms show ?thesis
    by (cases t) (auto simp: deser_incoming_staking_data_def dbind_Inr dret_def deser_fixed_ok dest: deser_option_ok [where P = address_ok]
        split: if_splits)
qed

lemma size_incoming_bound: "size_incoming_staking_data d < 2 ^ 16"
proof (cases d)
  case (Stake k a)
  then show ?thesis by (cases a) simp_all
qed (auto split: option.splits)

lemma set_signature_on_data_cases:
  assumes "set_validator_signature_on_data d bls_sig_default = r"
  obtains e where "r = Inl (Err e)" | d' where "r = Inr d'" "length d' < 2 ^ 16"
proof (cases "deser_incoming_staking_data d")
  case (Inl f)
  then have "f \<noteq> Panic"
    using no_panic_incoming by (auto simp: no_panic_def)
  with Inl assms that show ?thesis
    by (cases f) (auto simp: set_validator_signature_on_data_def deserialize_from_vec_def)
next
  case (Inr p)
  obtain x rest where p: "p = (x, rest)" by (cases p)
  then have "incoming_ok (set_validator_signature bls_sig_default x)"
    using Inr deser_incoming_ok by (auto intro: incoming_ok_set_signature)
  from incoming.ser_defined [OF this] obtain bs where
    "ser_incoming_staking_data (set_validator_signature bls_sig_default x) = Inr bs" "length bs < 2 ^ 16"
    using size_incoming_bound by metis
  with Inr p assms that show ?thesis
    by (auto simp: set_validator_signature_on_data_def deserialize_from_vec_def serialize_to_vec_def)
qed

lemma signed_content_no_panic:
  assumes "transaction_ok tx"
  shows "signed_content tx \<noteq> Inl Panic"
proof (cases "tx_recipient_type tx = AT_Staking")
  case True
  obtain r where r: "set_validator_signature_on_data (tx_data tx) bls_sig_default = r" by simp
  then show ?thesis
  proof (rule set_signature_on_data_cases)
    fix e
    assume "r = Inl (Err e)"
    with True r show ?thesis by (simp add: signed_content_def)
  next
    fix d
    assume d: "r = Inr d" "length d < 2 ^ 16"
    with assms have "transaction_ok (tx\<lparr>tx_data := d\<rparr>)"
      by (simp add: transaction_ok_def)
    with True r d show ?thesis by (simp add: signed_content_def content_no_panic)
  qed
next
  case False
  with content_no_panic [OF assms] show ?thesis
    by (simp add: signed_content_def)
qed

text \<open>Results that are not a panic, step by step.\<close>

lemma rbind_no_panic: "r \<noteq> Inl Panic \<Longrightarrow> (\<And>x. r = Inr x \<Longrightarrow> f x \<noteq> Inl Panic) \<Longrightarrow> rbind r f \<noteq> Inl Panic"
  by (cases r) auto

lemma map_err_no_panic: "r \<noteq> Inl Panic \<Longrightarrow> map_err f r \<noteq> Inl Panic"
  by (cases r; cases "projl r") (auto simp: map_err_def)

lemma ensure_no_panic: "ensure b e \<noteq> Inl Panic"
  by (simp add: ensure_def)

lemma assert_no_panic: "b \<Longrightarrow> assert_that b \<noteq> Inl Panic"
  by (simp add: assert_that_def)

lemma read_tx_no_panic: "no_panic r \<Longrightarrow> read_tx r bs \<noteq> Inl Panic"
  by (auto simp: read_tx_def no_panic_def intro!: map_err_no_panic)

lemma full_parse_no_panic: "no_panic r \<Longrightarrow> full_parse r bs \<noteq> Inl Panic"
  unfolding full_parse_def by (rule rbind_no_panic, rule map_err_no_panic) (auto simp: no_panic_def split: prod.splits)

lemma creation_address_no_panic: "transaction_ok tx \<Longrightarrow> contract_creation_address cr tx \<noteq> Inl Panic"
  using ser_content_defined [of "tx\<lparr>tx_recipient := replicate 20 0\<rparr>"]
  by (auto simp: contract_creation_address_def transaction_hash_def transaction_ok_def address_ok_def)

lemmas no_panic_rules = rbind_no_panic ensure_no_panic assert_no_panic read_tx_no_panic full_parse_no_panic
  content_no_panic creation_address_no_panic signed_content_no_panic
  no_panic_readers no_panic_signature_proof no_panic_incoming no_panic_outgoing no_panic_self no_panic_intros

lemma signature_no_panic: "transaction_ok tx \<Longrightarrow> verify_transaction_signature cr tx k s \<noteq> Inl Panic"
  unfolding verify_transaction_signature_def by (intro no_panic_rules) auto

lemma knowledge_no_panic: "verify_proof_of_knowledge cr k p \<noteq> Inl Panic"
  unfolding verify_proof_of_knowledge_def by (intro no_panic_rules)

lemma incoming_verify_no_panic: "transaction_ok tx \<Longrightarrow> incoming_verify cr tx d \<noteq> Inl Panic"
  by (cases d) (auto simp: rbind_eq_Inl signature_no_panic knowledge_no_panic ensure_no_panic split: option.splits)

lemma outgoing_verify_no_panic: "transaction_ok tx \<Longrightarrow> outgoing_verify cr tx p \<noteq> Inl Panic"
  by (cases p) (auto simp: rbind_eq_Inl signature_no_panic ensure_no_panic content_no_panic)

lemma self_verify_no_panic: "self_verify tx d \<noteq> Inl Panic"
  by (auto simp: self_verify_def ensure_no_panic split: self_staking_data.splits)

lemma no_panic_u64: "no_panic deser_u64"
  by (simp add: deser_u64_def no_panic_readers)

lemma no_panic_htlc: "no_panic deser_proof_type" "no_panic deser_hash_algorithm" "no_panic deser_htlc_creation"
proof -
  show *: "no_panic deser_proof_type" "no_panic deser_hash_algorithm"
    by (simp_all add: deser_hash_algorithm_def deser_proof_type_def no_panic_readers)
  show "no_panic deser_htlc_creation"
    unfolding deser_htlc_creation_def by (intro no_panic_intros no_panic_readers no_panic_u64 *)
qed

lemmas never_panics = rbind_eq_Inl assert_that_def ensure_no_panic read_tx_no_panic full_parse_no_panic no_panic_readers
  no_panic_u64 no_panic_intros no_panic_htlc no_panic_signature_proof no_panic_incoming no_panic_outgoing no_panic_self
  content_no_panic creation_address_no_panic incoming_verify_no_panic outgoing_verify_no_panic self_verify_no_panic

lemma vesting_parse_no_panic: "vesting_parse tx \<noteq> Inl Panic"
  by (auto simp: vesting_parse_def never_panics split: if_splits)

lemma htlc_parse_no_panic: "htlc_parse tx \<noteq> Inl Panic"
  by (auto simp: htlc_parse_def never_panics)

lemma creation_flags_no_panic: "transaction_ok tx \<Longrightarrow> verify_creation_flags cr tx \<noteq> Inl Panic"
  by (auto simp: verify_creation_flags_def never_panics)

lemma verify_incoming_no_panic: "transaction_ok tx \<Longrightarrow> verify_incoming_transaction cr tx \<noteq> Inl Panic"
  by (cases "tx_recipient_type tx")
    (auto simp: verify_incoming_transaction_def basic_verify_incoming_def vesting_verify_incoming_def htlc_verify_incoming_def
      staking_verify_incoming_def htlc_creation_verify_def parse_incoming_def parse_self_def never_panics vesting_parse_no_panic
      htlc_parse_no_panic creation_flags_no_panic split: if_splits incoming_staking_data.splits)

lemma verify_outgoing_no_panic: "transaction_ok tx \<Longrightarrow> verify_outgoing_transaction cr tx \<noteq> Inl Panic"
  by (cases "tx_sender_type tx")
    (auto simp: verify_outgoing_transaction_def basic_verify_outgoing_def vesting_verify_outgoing_def htlc_verify_outgoing_def
      staking_verify_outgoing_def parse_outgoing_def never_panics split: if_splits proof_type.splits)

text \<open>C8: Verifying any well-typed transaction, however its data and proof are malformed, ends in a verdict: neither the
  assertions on the account types nor the unwrapped serializations of the content can panic.\<close>

theorem transaction_verify_no_panic:
  assumes "transaction_ok tx"
  shows "transaction_verify cr network tx \<noteq> Inl Panic"
  using assms
  by (auto simp: transaction_verify_def rbind_eq_Inl ensure_no_panic verify_incoming_no_panic verify_outgoing_no_panic
      split: option.splits if_splits)

section \<open>Examples\<close>

text \<open>A transfer and the creation of a vesting contract, both signed under \<open>example_crypto\<close> by the key of 32 ones.\<close>

definition example_proof :: bytes where
  "example_proof = replicate 32 1 @ [0] @ replicate 64 1"

definition example_transfer :: transaction where
  "example_transfer = (new_basic (replicate 20 1) (replicate 20 2) (Coin 5) (Coin 1) 10 Dummy)\<lparr>tx_proof := example_proof\<rparr>"

definition example_vesting :: transaction where
  "example_vesting = example_transfer
    \<lparr>tx_recipient := [0, 28] @ replicate 18 2, tx_recipient_type := AT_Vesting, tx_flags := CONTRACT_CREATION,
     tx_data := replicate 20 2 @ [0, 0, 0, 0, 0, 0, 0, 1]\<rparr>"

lemma example_transfer_verified: "transaction_verify example_crypto Dummy example_transfer = Inr ()"
  by code_simp

lemma example_vesting_verified: "transaction_verify example_crypto Dummy example_vesting = Inr ()"
  by code_simp

theorem transaction_verify_sound_witness:
  "transaction_verify example_crypto Dummy example_transfer = Inr () \<and>
   val (tx_value example_transfer) + val (tx_fee example_transfer) \<le> unat TOTAL_SUPPLY"
  using transaction_verify_sound [OF example_transfer_verified] example_transfer_verified
  by (simp add: example_transfer_def new_basic_def)

theorem basic_transaction_signed_witness:
  "\<exists>sp rest content. deser_signature_proof example_crypto example_proof = Inr (sp, rest) \<and>
    compute_signer example_crypto sp = replicate 20 1 \<and> ser_transaction_content example_transfer = Inr content \<and>
    ed_verify example_crypto (sp_public_key sp) (sp_signature sp) content"
  using basic_transaction_signed [OF example_transfer_verified]
  by (simp add: example_transfer_def new_basic_def)

theorem contract_creation_verified_witness:
  "(contract_creation_address example_crypto example_vesting :: (address, transaction_error) result) = Inr (tx_recipient example_vesting) \<and>
   (\<exists>d. vesting_parse example_vesting = Inr d)"
  using contract_creation_verified [OF example_vesting_verified]
  by (simp add: example_vesting_def example_transfer_def new_basic_def)

theorem transaction_verify_no_panic_witness:
  "transaction_verify example_crypto Main (example_transfer\<lparr>tx_proof := [1, 2, 3]\<rparr>) \<noteq> Inl Panic"
  by (rule transaction_verify_no_panic)
    (simp add: example_transfer_def new_basic_def transaction_ok_def address_ok_def coin_ok_def MAX_SAFE_VALUE_def)

end
