(* ===== verification/Account_Base.thy ===== *)
theory Account_Base
  imports Staking_Data
begin

text \<open>
  What all account types share (\<open>primitives/account/src/lib.rs\<close>, \<open>inherent.rs\<close>): errors, inherents, the checked
  changes of a balance, and the contract between committing and reverting.  Every handler takes the
  account and returns its result together with the account it leaves behind, so that a failing handler
  that has already written something is visible.  The interface \<open>reversible\<close> says what the accounts tree
  relies on when it reverts a block; its lemmas extend it to sequences of operations.
\<close>

section \<open>Errors and inherents\<close>

datatype account_error =
    InsufficientFunds (needed: coin) (available: coin)
  | TypeMismatch account_type account_type
  | AE_InvalidSignature
  | AE_InvalidForSender
  | AE_InvalidForRecipient
  | AE_InvalidForTarget
  | AE_InvalidReceipt
  | AE_InvalidSerialization serializing_error
  | AE_InvalidTransaction transaction_error
  | AE_InvalidCoinValue
  | AE_CoinParse coin_parse_error
  | AE_CoinConvert coin_convert_error
  | AE_InvalidInherent

datatype inherent_type = Reward | Slash | FinalizeBatch | FinalizeEpoch

fun inherent_type_u8 :: "inherent_type \<Rightarrow> u8" where
  "inherent_type_u8 Reward = 0"
| "inherent_type_u8 Slash = 1"
| "inherent_type_u8 FinalizeBatch = 2"
| "inherent_type_u8 FinalizeEpoch = 3"

definition inherent_type_is_pre_transactions :: "inherent_type \<Rightarrow> bool" where
  "inherent_type_is_pre_transactions t \<longleftrightarrow> t = Slash"

record inherent =
  inh_ty :: inherent_type
  inh_target :: address
  inh_value :: coin
  inh_data :: bytes

definition inherent_is_pre_transactions :: "inherent \<Rightarrow> bool" where
  "inherent_is_pre_transactions i \<longleftrightarrow> inherent_type_is_pre_transactions (inh_ty i)"

definition deser_inherent_type :: "inherent_type reader" where
  "deser_inherent_type = deser_enum [(0, Reward), (1, Slash), (2, FinalizeBatch), (3, FinalizeEpoch)]"

definition ser_inherent :: "inherent \<Rightarrow> written" where
  "ser_inherent i =
    wseqs ([ser_u8 (inherent_type_u8 (inh_ty i)), ser_address (inh_target i), ser_coin (inh_value i),
      ser_u32 (of_nat (length (inh_data i)))] @ map ser_u8 (inh_data i))"

text \<open>The loop \<open>0..length\<close> runs over a signed integer.\<close>

definition deser_inherent :: "inherent reader" where
  "deser_inherent =
    dbind deser_inherent_type (\<lambda>ty. dbind deser_address (\<lambda>target. dbind deser_coin (\<lambda>v. dbind deser_u32 (\<lambda>n.
    dbind (read_vec deser_u8 (nat (sint n))) (\<lambda>d.
    dret \<lparr>inh_ty = ty, inh_target = target, inh_value = v, inh_data = d\<rparr>)))))"

definition size_inherent :: "inherent \<Rightarrow> nat" where
  "size_inherent i = 1 + 20 + 8 + 4 + length (inh_data i)"

section \<open>Balances\<close>

definition balance_add :: "coin \<Rightarrow> coin \<Rightarrow> (coin, account_error) result" where
  "balance_add b v = ok_or AE_InvalidCoinValue (coin_checked_add b v)"

definition balance_sub :: "coin \<Rightarrow> coin \<Rightarrow> (coin, account_error) result" where
  "balance_sub b v = (case coin_checked_sub b v of Some r \<Rightarrow> Inr r | None \<Rightarrow> Inl (Err (InsufficientFunds v b)))"

definition balance_sufficient :: "coin \<Rightarrow> coin \<Rightarrow> (unit, account_error) result" where
  "balance_sufficient b v = (if b < v then Inl (Err (InsufficientFunds v b)) else Inr ())"

text \<open>\<open>transaction.total_value()?\<close> inside an account's method.\<close>

definition tx_total :: "transaction \<Rightarrow> (coin, account_error) result" where
  "tx_total tx = map_err AE_InvalidTransaction (total_value tx)"

lemma balance_add_Inr: "balance_add b v = Inr r \<longleftrightarrow> val r = val b + val v \<and> val r \<le> max_safe"
  by (simp add: balance_add_def coin_checked_add_Some)

lemma balance_add_Inl: "balance_add b v = Inl e \<longleftrightarrow> e = Err AE_InvalidCoinValue \<and> max_safe < val b + val v"
  using coin_checked_add_None [of b v] by (cases "coin_checked_add b v") (auto simp: balance_add_def)

lemma balance_sub_Inr: "balance_sub b v = Inr r \<longleftrightarrow> val b = val r + val v \<and> val r \<le> max_safe"
  by (simp add: balance_sub_def coin_checked_sub_Some [symmetric] split: option.split)

lemma balance_sub_Inl:
  "balance_sub b v = Inl e \<longleftrightarrow> e = Err (InsufficientFunds v b) \<and> (val b < val v \<or> max_safe < val b - val v)"
  using coin_checked_sub_None [of b v] by (cases "coin_checked_sub b v") (auto simp: balance_sub_def)

lemma balance_add_sub: "coin_ok b \<Longrightarrow> balance_add b v = Inr r \<Longrightarrow> balance_sub r v = Inr b"
  by (simp add: balance_add_Inr balance_sub_Inr coin_ok_val)

lemma balance_sub_add: "coin_ok b \<Longrightarrow> balance_sub b v = Inr r \<Longrightarrow> balance_add r v = Inr b"
  by (simp add: balance_add_Inr balance_sub_Inr coin_ok_val)

lemma balance_ops_ok: "balance_add b v = Inr r \<Longrightarrow> coin_ok r" "balance_sub b v = Inr r \<Longrightarrow> coin_ok r"
  by (simp_all add: balance_add_Inr balance_sub_Inr coin_ok_val)

lemma tx_total_Inr: "tx_total tx = Inr t \<longleftrightarrow> val t = val (tx_value tx) + val (tx_fee tx) \<and> val t \<le> max_safe"
  by (simp add: tx_total_def total_value_def coin_checked_add_Some)

section \<open>Handlers and their composition\<close>

type_synonym receipt_data = "bytes option"
type_synonym ('x, 'a) committer = "'x \<Rightarrow> 'a \<Rightarrow> (receipt_data, account_error) result \<times> 'a"
type_synonym ('x, 'a) reverter = "'x \<Rightarrow> receipt_data \<Rightarrow> 'a \<Rightarrow> (unit, account_error) result \<times> 'a"

text \<open>Operations applied one after the other, stopping at the first failure, and their receipts reverted from
  the last to the first, as the accounts tree does it for the transactions of a block.\<close>

fun commit_all :: "('x, 'a) committer \<Rightarrow> 'x list \<Rightarrow> 'a \<Rightarrow> (('x \<times> receipt_data) list, account_error) result \<times> 'a" where
  "commit_all commit [] a = (Inr [], a)"
| "commit_all commit (x # xs) a =
    (case commit x a of
       (Inl e, a') \<Rightarrow> (Inl e, a')
     | (Inr r, a') \<Rightarrow> (case commit_all commit xs a' of (Inl e, a'') \<Rightarrow> (Inl e, a'') | (Inr rs, a'') \<Rightarrow> (Inr ((x, r) # rs), a'')))"

fun revert_all :: "('x, 'a) reverter \<Rightarrow> ('x \<times> receipt_data) list \<Rightarrow> 'a \<Rightarrow> (unit, account_error) result \<times> 'a" where
  "revert_all revert [] a = (Inr (), a)"
| "revert_all revert ((x, r) # rs) a =
    (case revert_all revert rs a of
       (Inl e, a') \<Rightarrow> (Inl e, a')
     | (Inr _, a') \<Rightarrow> revert x r a')"

locale reversible =
  fixes commit :: "('x, 'a) committer" and revert :: "('x, 'a) reverter"
    and inv :: "'a \<Rightarrow> bool" and allowed :: "'x \<Rightarrow> 'a \<Rightarrow> bool"
  assumes commit_inv: "inv a \<Longrightarrow> allowed x a \<Longrightarrow> commit x a = (Inr r, a') \<Longrightarrow> inv a'"
    and revert_commit: "inv a \<Longrightarrow> allowed x a \<Longrightarrow> commit x a = (Inr r, a') \<Longrightarrow> revert x r a' = (Inr (), a)"
begin

fun all_allowed :: "'x list \<Rightarrow> 'a \<Rightarrow> bool" where
  "all_allowed [] a = True"
| "all_allowed (x # xs) a = (allowed x a \<and> (\<forall>r a'. commit x a = (Inr r, a') \<longrightarrow> all_allowed xs a'))"

lemma commit_all_inv: "inv a \<Longrightarrow> all_allowed xs a \<Longrightarrow> commit_all commit xs a = (Inr rs, a') \<Longrightarrow> inv a'"
  by (induction xs arbitrary: a rs) (fastforce split: prod.splits sum.splits dest: commit_inv)+

lemma revert_all_commit_all:
  "inv a \<Longrightarrow> all_allowed xs a \<Longrightarrow> commit_all commit xs a = (Inr rs, a') \<Longrightarrow> revert_all revert rs a' = (Inr (), a)"
proof (induction xs arbitrary: a rs)
  case (Cons x xs)
  obtain r a1 rs' where c: "commit x a = (Inr r, a1)" "commit_all commit xs a1 = (Inr rs', a')" "rs = (x, r) # rs'"
    using Cons.prems(3) by (auto split: prod.splits sum.splits)
  with Cons.prems have "revert_all revert rs' a' = (Inr (), a1)"
    by (intro Cons.IH) (auto dest: commit_inv)
  with c Cons.prems show ?case
    by (simp add: revert_commit)
qed simp

end

section \<open>Inherents are encoded\<close>

definition inherent_ok :: "inherent \<Rightarrow> bool" where
  "inherent_ok i \<longleftrightarrow> address_ok (inh_target i) \<and> coin_ok (inh_value i) \<and> length (inh_data i) < 2 ^ 31"

lemma nat_sint_of_nat: "n < 2 ^ 31 \<Longrightarrow> nat (sint (of_nat n :: u32)) = n"
  by (simp add: sint_uint unsigned_of_nat signed_take_bit_int_eq_self take_bit_nat_eq_self)

lemma encodes_inherent:
  assumes "inherent_ok i"
  shows "encodes (ser_inherent i) deser_inherent i (size_inherent i)"
proof -
  have ok: "address_ok (inh_target i)" "coin_ok (inh_value i)" "length (inh_data i) < 2 ^ 31"
    using assms by (simp_all add: inherent_ok_def)
  have d: "encodes (wseqs (map ser_u8 (inh_data i)))
      (dbind (read_vec deser_u8 (nat (sint (of_nat (length (inh_data i)) :: u32)))) (\<lambda>d.
        dret \<lparr>inh_ty = inh_ty i, inh_target = inh_target i, inh_value = inh_value i, inh_data = d\<rparr>)) i (sum_list (map (\<lambda>_. 1) (inh_data i)))"
    unfolding nat_sint_of_nat [OF ok(3)]
    by (rule encodes_last [OF encodes_read_vec], rule u8.encoded, simp, cases i, simp)
  have ty: "map_of [(0, Reward), (1, Slash), (2, FinalizeBatch), (3, FinalizeEpoch)] (inherent_type_u8 (inh_ty i)) = Some (inh_ty i)"
    by (cases "inh_ty i") simp_all
  have "encodes (ser_inherent i) deser_inherent i (1 + (20 + (8 + (4 + sum_list (map (\<lambda>_. 1) (inh_data i))))))"
    unfolding ser_inherent_def deser_inherent_def deser_inherent_type_def append.simps
    by (intro encodes_wseqs_Cons [OF encodes_enum [OF ty]] encodes_fields ok d) simp_all
  then show ?thesis
    by (simp add: size_inherent_def sum_list_triv)
qed

interpretation inherent: codec ser_inherent deser_inherent size_inherent inherent_ok
  by unfold_locales (rule encodes_inherent)

end
