(* ===== verification/Simple_Accounts.thy ===== *)
theory Simple_Accounts
  imports Account_Base Transaction_Verify "HOL-Library.Signed_Division"
begin

text \<open>
  The three account types with a plain balance (\<open>primitives/account/src/basic_account.rs\<close>, \<open>vesting_contract.rs\<close>,
  \<open>htlc_contract.rs\<close>): creation, the checks of outgoing transactions, committing and reverting.  All three
  are instances of the interface \<open>reversible\<close>.
\<close>

section \<open>Updating a balance\<close>

text \<open>\<open>self.balance = r?; Ok(v)\<close>: on an error the account is left as it is.\<close>

definition set_balance :: "(coin, account_error) result \<Rightarrow> 'r \<Rightarrow> (coin \<Rightarrow> 'a) \<Rightarrow> 'a \<Rightarrow> ('r, account_error) result \<times> 'a" where
  "set_balance r v upd a = (case r of Inl e \<Rightarrow> (Inl e, a) | Inr b \<Rightarrow> (Inr v, upd b))"

definition balance_sub_total :: "coin \<Rightarrow> transaction \<Rightarrow> (coin, account_error) result" where
  "balance_sub_total b tx = rbind (tx_total tx) (balance_sub b)"

definition balance_add_total :: "coin \<Rightarrow> transaction \<Rightarrow> (coin, account_error) result" where
  "balance_add_total b tx = rbind (tx_total tx) (balance_add b)"

definition read_acc :: "'a reader \<Rightarrow> bytes \<Rightarrow> ('a \<times> bytes, account_error) result" where
  "read_acc r bs = map_err AE_InvalidSerialization (r bs)"

section \<open>Basic accounts\<close>

record basic_account =
  ba_balance :: coin

definition basic_commit_incoming :: "transaction \<Rightarrow> basic_account \<Rightarrow> (receipt_data, account_error) result \<times> basic_account" where
  "basic_commit_incoming tx a =
    set_balance (balance_add (ba_balance a) (tx_value tx)) None (\<lambda>b. a\<lparr>ba_balance := b\<rparr>) a"

definition basic_revert_incoming :: "transaction \<Rightarrow> receipt_data \<Rightarrow> basic_account \<Rightarrow> (unit, account_error) result \<times> basic_account" where
  "basic_revert_incoming tx receipt a =
    (if receipt \<noteq> None then (Inl (Err AE_InvalidReceipt), a)
     else set_balance (balance_sub (ba_balance a) (tx_value tx)) () (\<lambda>b. a\<lparr>ba_balance := b\<rparr>) a)"

definition basic_check_outgoing :: "transaction \<Rightarrow> basic_account \<Rightarrow> (unit, account_error) result" where
  "basic_check_outgoing tx a = rbind (tx_total tx) (balance_sufficient (ba_balance a))"

definition basic_commit_outgoing :: "transaction \<Rightarrow> basic_account \<Rightarrow> (receipt_data, account_error) result \<times> basic_account" where
  "basic_commit_outgoing tx a =
    set_balance (balance_sub_total (ba_balance a) tx) None (\<lambda>b. a\<lparr>ba_balance := b\<rparr>) a"

definition basic_revert_outgoing :: "transaction \<Rightarrow> receipt_data \<Rightarrow> basic_account \<Rightarrow> (unit, account_error) result \<times> basic_account" where
  "basic_revert_outgoing tx receipt a =
    (if receipt \<noteq> None then (Inl (Err AE_InvalidReceipt), a)
     else set_balance (balance_add_total (ba_balance a) tx) () (\<lambda>b. a\<lparr>ba_balance := b\<rparr>) a)"

definition basic_check_inherent :: "inherent \<Rightarrow> (unit, account_error) result" where
  "basic_check_inherent i = (case inh_ty i of Reward \<Rightarrow> Inr () | _ \<Rightarrow> Inl (Err AE_InvalidInherent))"

definition basic_commit_inherent :: "inherent \<Rightarrow> basic_account \<Rightarrow> (receipt_data, account_error) result \<times> basic_account" where
  "basic_commit_inherent i a =
    set_balance (rbind (basic_check_inherent i) (\<lambda>_. balance_add (ba_balance a) (inh_value i))) None (\<lambda>b. a\<lparr>ba_balance := b\<rparr>) a"

definition basic_revert_inherent :: "inherent \<Rightarrow> receipt_data \<Rightarrow> basic_account \<Rightarrow> (unit, account_error) result \<times> basic_account" where
  "basic_revert_inherent i receipt a =
    (if receipt \<noteq> None then (Inl (Err AE_InvalidReceipt), a)
     else set_balance (rbind (basic_check_inherent i) (\<lambda>_. balance_sub (ba_balance a) (inh_value i))) () (\<lambda>b. a\<lparr>ba_balance := b\<rparr>) a)"

section \<open>Vesting contracts\<close>

record vesting_contract =
  vs_balance :: coin
  vs_owner :: address
  vs_start_time :: u64
  vs_time_step :: u64
  vs_step_amount :: coin
  vs_total_amount :: coin

text \<open>\<open>min_cap\<close> computes in \<open>i128\<close>, where nothing overflows for coin values in range (\<open>min_cap_fits_i128\<close> below), with
  truncating division; the cast to \<open>u64\<close> drops the high bits.\<close>

definition min_cap_i128 :: "vesting_contract \<Rightarrow> u64 \<Rightarrow> int" where
  "min_cap_i128 v t =
    (let steps = (uint t - uint (vs_start_time v)) sdiv uint (vs_time_step v) in
     uint (lunas (vs_total_amount v)) - steps * uint (lunas (vs_step_amount v)))"

definition min_cap :: "vesting_contract \<Rightarrow> u64 \<Rightarrow> coin" where
  "min_cap v t =
    (if vs_time_step v > 0 \<and> vs_step_amount v > coin_ZERO
     then from_u64_unchecked (word_of_int (max (min_cap_i128 v t) 0)) else coin_ZERO)"

definition vesting_create :: "coin \<Rightarrow> transaction \<Rightarrow> (vesting_contract, account_error) result" where
  "vesting_create b tx =
    rbind (map_err AE_InvalidTransaction (vesting_parse tx)) (\<lambda>d.
    Inr \<lparr>vs_balance = b, vs_owner = vc_owner d, vs_start_time = vc_start_time d, vs_time_step = vc_time_step d,
      vs_step_amount = vc_step_amount d, vs_total_amount = vc_total_amount d\<rparr>)"

definition vesting_check_outgoing :: "crypto \<Rightarrow> u64 \<Rightarrow> transaction \<Rightarrow> vesting_contract \<Rightarrow> (unit, account_error) result" where
  "vesting_check_outgoing cr time tx v =
    rbind (balance_sub_total (vs_balance v) tx) (\<lambda>b.
    if b < min_cap v time then Inl (Err (InsufficientFunds (min_cap v time) b))
    else rbind (read_acc (deser_signature_proof cr) (tx_proof tx)) (\<lambda>(sp, _).
    if \<not> is_signed_by cr sp (vs_owner v) then Inl (Err AE_InvalidSignature) else Inr ()))"

definition vesting_commit_outgoing :: "crypto \<Rightarrow> u64 \<Rightarrow> transaction \<Rightarrow> vesting_contract \<Rightarrow> (receipt_data, account_error) result \<times> vesting_contract" where
  "vesting_commit_outgoing cr time tx v =
    set_balance (rbind (vesting_check_outgoing cr time tx v) (\<lambda>_. balance_sub_total (vs_balance v) tx)) None
      (\<lambda>b. v\<lparr>vs_balance := b\<rparr>) v"

definition vesting_revert_outgoing :: "transaction \<Rightarrow> receipt_data \<Rightarrow> vesting_contract \<Rightarrow> (unit, account_error) result \<times> vesting_contract" where
  "vesting_revert_outgoing tx receipt v =
    (if receipt \<noteq> None then (Inl (Err AE_InvalidReceipt), v)
     else set_balance (balance_add_total (vs_balance v) tx) () (\<lambda>b. v\<lparr>vs_balance := b\<rparr>) v)"

section \<open>Hashed time-locked contracts\<close>

record htlc_contract =
  ht_balance :: coin
  ht_sender :: address
  ht_recipient :: address
  ht_hash_algorithm :: hash_algorithm
  ht_hash_root :: any_hash
  ht_hash_count :: u8
  ht_timeout :: u64
  ht_total_amount :: coin

definition htlc_create :: "coin \<Rightarrow> transaction \<Rightarrow> (htlc_contract, account_error) result" where
  "htlc_create b tx =
    rbind (map_err AE_InvalidTransaction (htlc_parse tx)) (\<lambda>d.
    Inr \<lparr>ht_balance = b, ht_sender = hc_sender d, ht_recipient = hc_recipient d, ht_hash_algorithm = hc_hash_algorithm d,
      ht_hash_root = hc_hash_root d, ht_hash_count = hc_hash_count d, ht_timeout = hc_timeout d, ht_total_amount = tx_value tx\<rparr>)"

text \<open>\<open>((1f64 - depth / count) * total).floor().max(0f64) as u64\<close>\<close>

definition htlc_min_cap :: "u8 \<Rightarrow> u8 \<Rightarrow> coin \<Rightarrow> u64" where
  "htlc_min_cap depth count amount =
    (let cap_ratio = f64_sub (Finite 1) (f64_div (f64_of_nat (unat depth)) (f64_of_nat (unat count))) in
     f64_as_u64 (f64_max (f64_floor (f64_mul cap_ratio (f64_of_nat (unat (lunas amount))))) (Finite 0)))"

definition htlc_check_outgoing :: "crypto \<Rightarrow> u64 \<Rightarrow> transaction \<Rightarrow> htlc_contract \<Rightarrow> (unit, account_error) result" where
  "htlc_check_outgoing cr time tx h =
    rbind (balance_sub_total (ht_balance h) tx) (\<lambda>b.
    rbind (read_acc deser_proof_type (tx_proof tx)) (\<lambda>(ty, b1). case ty of
      RegularTransfer \<Rightarrow>
        if ht_timeout h < time then Inl (Err AE_InvalidForSender)
        else
          rbind (read_acc deser_hash_algorithm b1) (\<lambda>(alg, b2). rbind (read_acc deser_u8 b2) (\<lambda>(depth, b3).
          rbind (read_acc deser_any_hash b3) (\<lambda>(root, b4).
          if alg \<noteq> ht_hash_algorithm h \<or> root \<noteq> ht_hash_root h then Inl (Err AE_InvalidForSender)
          else
            rbind (read_acc deser_any_hash b4) (\<lambda>(_, b5).
            rbind (read_acc (deser_signature_proof cr) b5) (\<lambda>(sp, _).
            if \<not> is_signed_by cr sp (ht_recipient h) then Inl (Err AE_InvalidSignature)
            else
              rbind (map_err AE_CoinConvert (coin_try_from (htlc_min_cap depth (ht_hash_count h) (ht_total_amount h)))) (\<lambda>cap.
              if b < cap then Inl (Err (InsufficientFunds cap b)) else Inr ()))))))
    | EarlyResolve \<Rightarrow>
        rbind (read_acc (deser_signature_proof cr) b1) (\<lambda>(sp_recipient, b2).
        rbind (read_acc (deser_signature_proof cr) b2) (\<lambda>(sp_sender, _).
        if \<not> is_signed_by cr sp_recipient (ht_recipient h) \<or> \<not> is_signed_by cr sp_sender (ht_sender h)
        then Inl (Err AE_InvalidSignature) else Inr ()))
    | TimeoutResolve \<Rightarrow>
        if ht_timeout h \<ge> time then Inl (Err AE_InvalidForSender)
        else rbind (read_acc (deser_signature_proof cr) b1) (\<lambda>(sp, _).
          if \<not> is_signed_by cr sp (ht_sender h) then Inl (Err AE_InvalidSignature) else Inr ())))"

definition htlc_commit_outgoing :: "crypto \<Rightarrow> u64 \<Rightarrow> transaction \<Rightarrow> htlc_contract \<Rightarrow> (receipt_data, account_error) result \<times> htlc_contract" where
  "htlc_commit_outgoing cr time tx h =
    set_balance (rbind (htlc_check_outgoing cr time tx h) (\<lambda>_. balance_sub_total (ht_balance h) tx)) None
      (\<lambda>b. h\<lparr>ht_balance := b\<rparr>) h"

definition htlc_revert_outgoing :: "transaction \<Rightarrow> receipt_data \<Rightarrow> htlc_contract \<Rightarrow> (unit, account_error) result \<times> htlc_contract" where
  "htlc_revert_outgoing tx receipt h =
    (if receipt \<noteq> None then (Inl (Err AE_InvalidReceipt), h)
     else set_balance (balance_add_total (ht_balance h) tx) () (\<lambda>b. h\<lparr>ht_balance := b\<rparr>) h)"

section \<open>Committing and reverting\<close>

lemma set_balance_Inr: "set_balance r v upd a = (Inr w, a') \<longleftrightarrow> (\<exists>b. r = Inr b \<and> w = v \<and> a' = upd b)"
  by (auto simp: set_balance_def split: sum.splits)

lemma set_balance_eq [simp]: "set_balance (Inr b) v upd a = (Inr v, upd b)"
  by (simp add: set_balance_def)

lemma balance_total_Inr:
  "balance_sub_total b tx = Inr r \<longleftrightarrow> (\<exists>t. tx_total tx = Inr t \<and> balance_sub b t = Inr r)"
  "balance_add_total b tx = Inr r \<longleftrightarrow> (\<exists>t. tx_total tx = Inr t \<and> balance_add b t = Inr r)"
  by (simp_all add: balance_sub_total_def balance_add_total_def rbind_eq_Inr)

lemma balance_sub_add_total: "coin_ok b \<Longrightarrow> balance_sub_total b tx = Inr r \<Longrightarrow> balance_add_total r tx = Inr b"
  using balance_sub_add by (fastforce simp: balance_total_Inr)

lemma balance_sub_total_ok: "balance_sub_total b tx = Inr r \<Longrightarrow> coin_ok r"
  by (auto simp: balance_total_Inr dest: balance_ops_ok)

interpretation basic_incoming: reversible basic_commit_incoming basic_revert_incoming "\<lambda>a. coin_ok (ba_balance a)" "\<lambda>tx a. True"
  by unfold_locales
    (auto simp: basic_commit_incoming_def basic_revert_incoming_def set_balance_Inr dest: balance_ops_ok balance_add_sub)

interpretation basic_outgoing: reversible basic_commit_outgoing basic_revert_outgoing "\<lambda>a. coin_ok (ba_balance a)" "\<lambda>tx a. True"
  by unfold_locales
    (auto simp: basic_commit_outgoing_def basic_revert_outgoing_def set_balance_Inr dest: balance_sub_total_ok balance_sub_add_total)

interpretation basic_inherent: reversible basic_commit_inherent basic_revert_inherent "\<lambda>a. coin_ok (ba_balance a)" "\<lambda>i a. True"
  by unfold_locales
    (auto simp: basic_commit_inherent_def basic_revert_inherent_def set_balance_Inr rbind_eq_Inr dest: balance_ops_ok balance_add_sub)

interpretation vesting: reversible "vesting_commit_outgoing cr time" vesting_revert_outgoing "\<lambda>v. coin_ok (vs_balance v)" "\<lambda>tx v. True"
  for cr time
  by unfold_locales
    (auto simp: vesting_commit_outgoing_def vesting_revert_outgoing_def set_balance_Inr rbind_eq_Inr dest: balance_sub_total_ok balance_sub_add_total)

interpretation htlc: reversible "htlc_commit_outgoing cr time" htlc_revert_outgoing "\<lambda>h. coin_ok (ht_balance h)" "\<lambda>tx h. True"
  for cr time
  by unfold_locales
    (auto simp: htlc_commit_outgoing_def htlc_revert_outgoing_def set_balance_Inr rbind_eq_Inr dest: balance_sub_total_ok balance_sub_add_total)

section \<open>Vesting\<close>

definition vesting_ok :: "vesting_contract \<Rightarrow> bool" where
  "vesting_ok v \<longleftrightarrow> coin_ok (vs_balance v) \<and> coin_ok (vs_step_amount v) \<and> coin_ok (vs_total_amount v)"

text \<open>The steps of the contract that have been completed at a time after its start.\<close>

definition vested_steps :: "vesting_contract \<Rightarrow> u64 \<Rightarrow> nat" where
  "vested_steps v t = (unat t - unat (vs_start_time v)) div unat (vs_time_step v)"

lemma sdiv_bound: "\<bar>a\<bar> < m \<Longrightarrow> \<bar>a sdiv b\<bar> < m" for a b m :: int
proof -
  assume a: "\<bar>a\<bar> < m"
  have "\<bar>sgn a * sgn b\<bar> \<le> 1" "0 \<le> \<bar>a\<bar> div \<bar>b\<bar>"
    by (auto simp: sgn_if pos_imp_zdiv_nonneg_iff abs_mult div_int_pos_iff)
  then have "\<bar>a sdiv b\<bar> \<le> 1 * (\<bar>a\<bar> div \<bar>b\<bar>)"
    unfolding signed_divide_int_def abs_mult [of "sgn a * sgn b"] by (intro mult_mono) auto
  also have "\<dots> \<le> \<bar>a\<bar>"
    using zdiv_mono2 [of "\<bar>a\<bar>" 1 "\<bar>b\<bar>"] by (cases "b = 0") auto
  finally show ?thesis
    using a by simp
qed

lemma min_cap_fits_i128:
  assumes "vesting_ok v"
  shows "\<bar>min_cap_i128 v t\<bar> < 2 ^ 127"
proof -
  define a where "a = uint t - uint (vs_start_time v)"
  define s where "s = a sdiv uint (vs_time_step v)"
  have u: "0 \<le> uint t" "uint t < 2 ^ 64" "0 \<le> uint (vs_start_time v)" "uint (vs_start_time v) < 2 ^ 64"
    using uint_lt2p [of t] uint_lt2p [of "vs_start_time v"] by simp_all
  then have "\<bar>a\<bar> < 2 ^ 64"
    unfolding a_def by linarith
  then have s: "\<bar>s\<bar> < 2 ^ 64"
    unfolding s_def by (rule sdiv_bound)
  have c: "0 \<le> uint (lunas (vs_step_amount v))" "uint (lunas (vs_step_amount v)) < 2 ^ 53"
    "0 \<le> uint (lunas (vs_total_amount v))" "uint (lunas (vs_total_amount v)) < 2 ^ 53"
    using assms by (simp_all add: vesting_ok_def coin_ok_def MAX_SAFE_VALUE_def word_le_def)
  have "\<bar>s * uint (lunas (vs_step_amount v))\<bar> \<le> 2 ^ 64 * 2 ^ 53"
    unfolding abs_mult using s c by (intro mult_mono) auto
  moreover have "\<bar>uint (lunas (vs_total_amount v)) - s * uint (lunas (vs_step_amount v))\<bar>
      \<le> \<bar>uint (lunas (vs_total_amount v))\<bar> + \<bar>s * uint (lunas (vs_step_amount v))\<bar>"
    by (rule abs_triangle_ineq4)
  ultimately have "\<bar>uint (lunas (vs_total_amount v)) - s * uint (lunas (vs_step_amount v))\<bar> < 2 ^ 53 + 2 ^ 64 * 2 ^ 53"
    using c(3,4) by linarith
  then show ?thesis
    unfolding min_cap_i128_def Let_def a_def [symmetric] s_def [symmetric] by simp
qed

lemma sdiv_nonneg: "0 \<le> a \<Longrightarrow> 0 \<le> b \<Longrightarrow> a sdiv b = a div b" for a b :: int
  by (cases "a = 0"; cases "b = 0") (auto simp: signed_divide_int_def)

lemma min_cap_after_start:
  assumes "vesting_ok v" "vs_start_time v \<le> t" "vs_time_step v > 0" "vs_step_amount v > coin_ZERO"
  shows "val (min_cap v t) = val (vs_total_amount v) - vested_steps v t * val (vs_step_amount v)"
proof -
  have t: "uint t - uint (vs_start_time v) = int (unat t - unat (vs_start_time v))"
    using assms(2) by (simp add: word_le_nat_alt of_nat_diff)
  have cap: "min_cap_i128 v t = int (val (vs_total_amount v)) - int (vested_steps v t * val (vs_step_amount v))"
    unfolding min_cap_i128_def Let_def t by (simp add: sdiv_nonneg vested_steps_def zdiv_int)
  have "max (min_cap_i128 v t) 0 = int (val (vs_total_amount v) - vested_steps v t * val (vs_step_amount v))"
    unfolding cap by linarith
  then have "min_cap v t = Coin (of_nat (val (vs_total_amount v) - vested_steps v t * val (vs_step_amount v)))"
    using assms(3,4) by (simp add: min_cap_def from_u64_unchecked_def)
  moreover have "val (vs_total_amount v) - vested_steps v t * val (vs_step_amount v) < 2 ^ 64"
    using val_bound [of "vs_total_amount v"] by (simp add: less_imp_diff_less)
  ultimately show ?thesis
    by (simp add: unat_of_nat)
qed

text \<open>C26: From its start time on, a vesting contract whose time step and step amount are positive pays out only what has vested: a committed transaction is signed by
  the owner, is paid from the balance, and leaves at least the total amount minus the steps completed so far; the
  amount to be left behind never grows.\<close>

theorem vesting_outgoing_vested:
  assumes "vesting_ok v" "vs_start_time v \<le> t" "vs_time_step v > 0" "vs_step_amount v > coin_ZERO"
    and "vesting_commit_outgoing cr t tx v = (Inr r, v')"
  shows "val (vs_balance v) = val (vs_balance v') + (val (tx_value tx) + val (tx_fee tx)) \<and>
    val (vs_total_amount v) \<le> val (vs_balance v') + vested_steps v t * val (vs_step_amount v) \<and>
    (\<exists>sp rest. deser_signature_proof cr (tx_proof tx) = Inr (sp, rest) \<and> compute_signer cr sp = vs_owner v) \<and>
    (\<forall>t'. t \<le> t' \<longrightarrow> val (min_cap v t') \<le> val (min_cap v t))"
proof -
  obtain b where chk: "vesting_check_outgoing cr t tx v = Inr ()" and sub: "balance_sub_total (vs_balance v) tx = Inr b"
    and v': "v' = v\<lparr>vs_balance := b\<rparr>"
    using assms(5) by (auto simp: vesting_commit_outgoing_def set_balance_Inr rbind_eq_Inr)
  have bal: "val (vs_balance v) = val b + (val (tx_value tx) + val (tx_fee tx))"
    using sub by (auto simp: balance_total_Inr balance_sub_Inr tx_total_Inr)
  have cap: "\<not> b < min_cap v t" and
    sig: "\<exists>sp rest. deser_signature_proof cr (tx_proof tx) = Inr (sp, rest) \<and> compute_signer cr sp = vs_owner v"
    using chk sub by (auto simp: vesting_check_outgoing_def read_acc_def rbind_eq_Inr is_signed_by_def split: if_splits)
  have mono: "val (min_cap v t') \<le> val (min_cap v t)" if "t \<le> t'" for t'
  proof -
    have "vs_start_time v \<le> t'"
      using assms(2) that by (rule order_trans)
    moreover have "vested_steps v t \<le> vested_steps v t'"
      using that unfolding vested_steps_def by (intro div_le_mono diff_le_mono) (simp add: word_le_nat_alt)
    ultimately show ?thesis
      using assms(1-4) by (simp add: min_cap_after_start diff_le_mono2)
  qed
  have "val (vs_total_amount v) - vested_steps v t * val (vs_step_amount v) \<le> val b"
    using cap min_cap_after_start [OF assms(1-4)] by (simp add: coin_less_val)
  with bal sig mono v' show ?thesis
    by (auto simp: vesting_ok_def)
qed

text \<open>C30: Before its start time the amount that a vesting contract must keep is computed from a negative number of
  steps; cast to 64 bits it can wrap around to zero, so that everything can be withdrawn before vesting begins.\<close>

theorem min_cap_wraps_before_start:
  assumes "n \<noteq> 0"
  shows "min_cap \<lparr>vs_balance = Coin n, vs_owner = a, vs_start_time = - n, vs_time_step = 1, vs_step_amount = Coin 1, vs_total_amount = Coin n\<rparr> 0
    = coin_ZERO"
proof -
  have "uint n < 2 ^ 64" "0 < uint n"
    using uint_lt2p [of n] assms by (simp_all add: word_neq_0_conv word_less_def)
  then have "uint (- n) = 2 ^ 64 - uint n"
    by (simp add: uint_word_ariths zmod_zminus1_eq_if)
  moreover have "(uint n - 2 ^ 64) sdiv 1 = uint n - 2 ^ 64"
    by (auto simp: signed_divide_int_def sgn_if)
  ultimately show ?thesis
    by (simp add: min_cap_def min_cap_i128_def coin_less_val coin_ZERO_def from_u64_unchecked_def)
qed

definition example_vesting_contract :: vesting_contract where
  "example_vesting_contract =
    \<lparr>vs_balance = Coin 100, vs_owner = replicate 20 1, vs_start_time = 10, vs_time_step = 5, vs_step_amount = Coin 30, vs_total_amount = Coin 100\<rparr>"

lemma example_vesting_commit:
  "vesting_commit_outgoing example_crypto 21 example_transfer example_vesting_contract =
    (Inr None, example_vesting_contract\<lparr>vs_balance := Coin 94\<rparr>)"
  by code_simp

theorem vesting_outgoing_vested_witness:
  "val (vs_total_amount example_vesting_contract) \<le> 94 + vested_steps example_vesting_contract 21 * val (vs_step_amount example_vesting_contract) \<and>
   val (min_cap example_vesting_contract 30) \<le> val (min_cap example_vesting_contract 21)"
proof -
  have "vesting_ok example_vesting_contract"
    by (simp add: vesting_ok_def example_vesting_contract_def coin_ok_def MAX_SAFE_VALUE_def)
  then show ?thesis
    using vesting_outgoing_vested [OF _ _ _ _ example_vesting_commit]
    by (simp add: example_vesting_contract_def coin_less_val coin_ZERO_def)
qed

theorem min_cap_wraps_before_start_witness:
  "min_cap \<lparr>vs_balance = Coin 1000, vs_owner = [], vs_start_time = - 1000, vs_time_step = 1, vs_step_amount = Coin 1, vs_total_amount = Coin 1000\<rparr> 0
    = coin_ZERO"
  by (rule min_cap_wraps_before_start) simp

section \<open>Hashed time-locked contracts\<close>

text \<open>The amount as an integer, before the cast.\<close>

definition cap_int :: "rat \<Rightarrow> nat \<Rightarrow> int" where
  "cap_int q m = max \<lfloor>round64 (round64 (1 - q) * of_nat m)\<rfloor> 0"

lemma ratio_nonpos: "1 \<le> q \<Longrightarrow> round64 (round64 (1 - q) * of_nat m) \<le> 0"
  by (intro round64_nonpos mult_nonpos_nonneg) auto

lemma cap_int_antimono:
  assumes "0 \<le> q" "q \<le> q'"
  shows "cap_int q' m \<le> cap_int q m"
proof (cases "1 \<le> q'")
  case True
  then have "\<lfloor>round64 (round64 (1 - q') * of_nat m)\<rfloor> \<le> 0"
    using ratio_nonpos [OF True, of m] floor_mono [of _ 0] by fastforce
  then show ?thesis
    by (simp add: cap_int_def)
next
  case False
  with assms have "round64 (1 - q') \<le> round64 (1 - q)" "0 \<le> round64 (1 - q')"
    by (auto intro: round64_mono round64_nonneg)
  then have "round64 (round64 (1 - q') * of_nat m) \<le> round64 (round64 (1 - q) * of_nat m)"
    by (intro round64_mono [of "round64 (1 - q') * of_nat m"] mult_right_mono mult_nonneg_nonneg) auto
  then show ?thesis
    by (auto simp: cap_int_def intro: max.coboundedI1 floor_mono)
qed

lemma cap_int_0: "m < 2 ^ 53 \<Longrightarrow> cap_int 0 m = int m"
  by (simp add: cap_int_def round64_of_nat)

lemma cap_int_full: "1 \<le> q \<Longrightarrow> cap_int q m = 0"
  using cap_int_antimono [of 1 q m] by (simp add: cap_int_def)

lemma cap_int_bounds: "0 \<le> q \<Longrightarrow> m < 2 ^ 53 \<Longrightarrow> 0 \<le> cap_int q m \<and> cap_int q m \<le> int m"
  using cap_int_antimono [of 0 q m] by (simp add: cap_int_0) (simp add: cap_int_def)

lemma cap_int_f64:
  fixes d n m :: nat
  assumes "n \<noteq> 0" "d < 2 ^ 53" "n < 2 ^ 53" "m < 2 ^ 53"
  shows "f64_as_u64 (f64_max (f64_floor (f64_mul (f64_sub (Finite 1) (f64_div (f64_of_nat d) (f64_of_nat n))) (f64_of_nat m))) (Finite 0))
    = word_of_int (cap_int (round64 (of_nat d / of_nat n)) m)" (is "?lhs = word_of_int ?cap")
proof -
  have q: "0 \<le> round64 (of_nat d / of_nat n)"
    by (simp add: round64_nonneg)
  have "?lhs = f64_as_u64 (Finite (of_int ?cap))"
    using assms by (simp add: f64_of_nat_exact cap_int_def of_int_max)
  also have "\<dots> = word_of_int ?cap"
    using cap_int_bounds [OF q assms(4)] assms(4) by auto
  finally show ?thesis .
qed

lemma htlc_min_cap_val:
  assumes "coin_ok c" "n \<noteq> 0"
  shows "int (unat (htlc_min_cap d n c)) = cap_int (round64 (of_nat (unat d) / of_nat (unat n))) (val c)"
proof -
  have small: "unat d < 2 ^ 53" "unat n < 2 ^ 53"
    by (rule less_trans [OF unsigned_less], simp)+
  have c: "val c < 2 ^ 53"
    using assms(1) by (simp add: coin_ok_val)
  have q: "0 \<le> round64 (of_nat (unat d) / of_nat (unat n))"
    by (intro round64_nonneg divide_nonneg_nonneg of_nat_0_le_iff)
  have "unat n \<noteq> 0"
    using assms(2) by (simp add: unat_eq_zero)
  from cap_int_f64 [OF this small c]
  have "htlc_min_cap d n c = word_of_int (cap_int (round64 (of_nat (unat d) / of_nat (unat n))) (val c))"
    unfolding htlc_min_cap_def Let_def .
  then have "uint (htlc_min_cap d n c) = cap_int (round64 (of_nat (unat d) / of_nat (unat n))) (val c) mod 2 ^ 64"
    by (simp add: uint_word_of_int del: of_nat_unat)
  with cap_int_bounds [OF q c] c show ?thesis
    by (simp add: mod_pos_pos_trivial uint_nat del: of_nat_unat)
qed

text \<open>C28: The amount that must remain in a hashed time-locked contract is all of it when no hash of the chain is
  revealed, nothing when all are, never more than the total, and never grows with the number of revealed hashes; so the
  conversion to a coin value never fails.\<close>

theorem htlc_min_cap_bounds:
  assumes "coin_ok c" "n \<noteq> 0" "d \<le> d'"
  shows "htlc_min_cap 0 n c = lunas c \<and> (n \<le> d \<longrightarrow> htlc_min_cap d n c = 0) \<and>
    htlc_min_cap d' n c \<le> htlc_min_cap d n c \<and> htlc_min_cap d n c \<le> lunas c \<and>
    (\<exists>cap. coin_try_from (htlc_min_cap d n c) = Inr cap)"
proof -
  have q: "0 \<le> round64 (of_nat (unat d) / of_nat (unat n))"
    by (intro round64_nonneg divide_nonneg_nonneg of_nat_0_le_iff)
  have mono: "round64 (of_nat (unat d) / of_nat (unat n)) \<le> round64 (of_nat (unat d') / of_nat (unat n))"
    using assms(3) by (intro round64_mono divide_right_mono divide_nonneg_nonneg) (simp_all add: word_le_nat_alt del: of_nat_unat)
  have "1 \<le> round64 (of_nat (unat d) / of_nat (unat n))" if "n \<le> d"
    using that assms(2) round64_mono [of 1 "of_nat (unat d) / of_nat (unat n)"]
    by (simp add: word_le_nat_alt unat_gt_0 del: of_nat_unat)
  then have full: "n \<le> d \<longrightarrow> htlc_min_cap d n c = 0"
    using htlc_min_cap_val [OF assms(1,2), of d] by (auto simp: cap_int_full unat_eq_zero simp del: of_nat_unat)
  have c: "val c < 2 ^ 53"
    using assms(1) by (simp add: coin_ok_val)
  have le: "htlc_min_cap d n c \<le> lunas c"
    using htlc_min_cap_val [OF assms(1,2), of d] cap_int_bounds [OF q c] unfolding word_le_nat_alt by linarith
  moreover have "htlc_min_cap 0 n c = lunas c"
    using htlc_min_cap_val [OF assms(1,2), of 0] by (simp add: cap_int_0 [OF c] word_unat_eq_iff del: of_nat_unat)
  moreover have "htlc_min_cap d' n c \<le> htlc_min_cap d n c"
    using htlc_min_cap_val [OF assms(1,2), of d] htlc_min_cap_val [OF assms(1,2), of d'] cap_int_antimono [OF q mono, of "val c"]
    unfolding word_le_nat_alt by linarith
  moreover have "\<exists>cap. coin_try_from (htlc_min_cap d n c) = Inr cap"
    using le assms(1) by (auto simp: coin_try_from_def coin_ok_def)
  ultimately show ?thesis
    using full by blast
qed

text \<open>C27: A hashed time-locked contract pays out in three ways only: until the timeout to the recipient who presents
  the contract's hash root, leaving the amount that belongs to the hashes not revealed; at any time when both parties
  sign; after the timeout to the sender.\<close>

theorem htlc_outgoing_cases:
  assumes "htlc_commit_outgoing cr t tx h = (Inr r, h')"
  shows "val (ht_balance h) = val (ht_balance h') + (val (tx_value tx) + val (tx_fee tx)) \<and> h' = h\<lparr>ht_balance := ht_balance h'\<rparr> \<and>
    (\<exists>ty rest. deser_proof_type (tx_proof tx) = Inr (ty, rest) \<and>
      (case ty of
         RegularTransfer \<Rightarrow> t \<le> ht_timeout h \<and>
           (\<exists>b2 depth b3 b4 pre b5 sp b6. deser_hash_algorithm rest = Inr (ht_hash_algorithm h, b2) \<and> deser_u8 b2 = Inr (depth, b3) \<and>
             deser_any_hash b3 = Inr (ht_hash_root h, b4) \<and> deser_any_hash b4 = Inr (pre, b5) \<and>
             deser_signature_proof cr b5 = Inr (sp, b6) \<and> compute_signer cr sp = ht_recipient h \<and>
             unat (htlc_min_cap depth (ht_hash_count h) (ht_total_amount h)) \<le> val (ht_balance h'))
       | EarlyResolve \<Rightarrow>
           (\<exists>sp sp' b2 b3. deser_signature_proof cr rest = Inr (sp, b2) \<and> deser_signature_proof cr b2 = Inr (sp', b3) \<and>
             compute_signer cr sp = ht_recipient h \<and> compute_signer cr sp' = ht_sender h)
       | TimeoutResolve \<Rightarrow> ht_timeout h < t \<and>
           (\<exists>sp b2. deser_signature_proof cr rest = Inr (sp, b2) \<and> compute_signer cr sp = ht_sender h)))"
proof -
  obtain b where chk: "htlc_check_outgoing cr t tx h = Inr ()" and sub: "balance_sub_total (ht_balance h) tx = Inr b"
    and h': "h' = h\<lparr>ht_balance := b\<rparr>"
    using assms by (auto simp: htlc_commit_outgoing_def set_balance_Inr rbind_eq_Inr)
  have bal: "val (ht_balance h) = val b + (val (tx_value tx) + val (tx_fee tx))"
    using sub by (auto simp: balance_total_Inr balance_sub_Inr tx_total_Inr)
  obtain ty rest where ty: "deser_proof_type (tx_proof tx) = Inr (ty, rest)"
    using chk sub by (auto simp: htlc_check_outgoing_def read_acc_def rbind_eq_Inr)
  have coin: "coin_try_from n = Inr c \<longleftrightarrow> c = Coin n \<and> n \<le> MAX_SAFE_VALUE" for n c
    by (auto simp: coin_try_from_def)
  show ?thesis
    using chk sub ty h' bal
    by (cases ty)
      (auto simp: htlc_check_outgoing_def read_acc_def rbind_eq_Inr is_signed_by_def coin coin_less_val not_less split: if_splits)
qed

definition example_htlc :: htlc_contract where
  "example_htlc =
    \<lparr>ht_balance = Coin 100, ht_sender = replicate 20 1, ht_recipient = replicate 20 2, ht_hash_algorithm = Blake2b,
     ht_hash_root = replicate 32 7, ht_hash_count = 4, ht_timeout = 50, ht_total_amount = Coin 100\<rparr>"

definition example_timeout_resolve :: transaction where
  "example_timeout_resolve = example_transfer\<lparr>tx_proof := 3 # example_proof\<rparr>"

lemma example_htlc_commit:
  "htlc_commit_outgoing example_crypto 51 example_timeout_resolve example_htlc = (Inr None, example_htlc\<lparr>ht_balance := Coin 94\<rparr>)"
  by code_simp

theorem htlc_outgoing_cases_witness:
  "val (ht_balance example_htlc) = 94 + (val (tx_value example_timeout_resolve) + val (tx_fee example_timeout_resolve)) \<and>
   (\<exists>ty rest. deser_proof_type (tx_proof example_timeout_resolve) = Inr (ty, rest))"
  using htlc_outgoing_cases [OF example_htlc_commit] by auto

theorem htlc_min_cap_bounds_witness:
  "htlc_min_cap 0 4 (Coin 100) = 100 \<and> htlc_min_cap 3 4 (Coin 100) \<le> htlc_min_cap 1 4 (Coin 100) \<and> htlc_min_cap 1 4 (Coin 100) \<le> 100"
  using htlc_min_cap_bounds [of "Coin 100" 4 1 3] by (simp add: coin_ok_def MAX_SAFE_VALUE_def)

end
