(* ===== verification/Bitset.thy ===== *)
theory Bitset
  imports Uvar
begin

text \<open>
  The bit set of \<open>collections/src/bitset.rs\<close>: 64-bit blocks with a cached element count.  The abstraction
  \<open>bitset_set\<close> maps it to the set of numbers it contains; the operations are shown to implement those of sets, and
  \<open>BitSet\<close> is an instance of the interface \<open>elem_set\<close>.  The in-place operators are modelled as written and
  shown not to implement theirs.
\<close>

section \<open>Model\<close>

record bitset =
  bs_store :: "u64 list"
  bs_count :: nat

definition index_and_mask :: "nat \<Rightarrow> nat \<times> u64" where
  "index_and_mask v = (drop_bit 6 v, push_bit (v AND 63) 1)"

definition bitset_new :: bitset where
  "bitset_new = \<lparr>bs_store = [], bs_count = 0\<rparr>"


definition bitset_len :: "bitset \<Rightarrow> nat" where
  "bitset_len s = bs_count s"

definition bitset_is_empty :: "bitset \<Rightarrow> bool" where
  "bitset_is_empty s = (bs_count s = 0)"

definition bitset_contains :: "bitset \<Rightarrow> nat \<Rightarrow> bool" where
  "bitset_contains s v =
    (let (i, m) = index_and_mask v in if i < length (bs_store s) then bs_store s ! i AND m \<noteq> 0 else False)"

text \<open>\<open>Vec::resize(n, 0)\<close> to a larger length.\<close>

definition resize0 :: "nat \<Rightarrow> u64 list \<Rightarrow> u64 list" where
  "resize0 n xs = xs @ replicate (n - length xs) 0"

definition bitset_insert :: "nat \<Rightarrow> bitset \<Rightarrow> bitset" where
  "bitset_insert v s =
    (let (i, m) = index_and_mask v;
         st = (if i \<ge> length (bs_store s) then resize0 (i + 1) (bs_store s) else bs_store s) in
     \<lparr>bs_store = st[i := st ! i OR m], bs_count = (if st ! i AND m = 0 then bs_count s + 1 else bs_count s)\<rparr>)"

definition compact_store :: "u64 list \<Rightarrow> u64 list" where
  "compact_store st = take (length st - length (takeWhile (\<lambda>x. x = 0) (rev st))) st"

definition bitset_remove :: "nat \<Rightarrow> bitset \<Rightarrow> bitset" where
  "bitset_remove v s =
    (let (i, m) = index_and_mask v;
         s' = (if i < length (bs_store s)
               then \<lparr>bs_store = (bs_store s)[i := bs_store s ! i AND NOT m],
                     bs_count = (if bs_store s ! i AND m \<noteq> 0 then bs_count s - 1 else bs_count s)\<rparr>
               else s) in
     s'\<lparr>bs_store := compact_store (bs_store s')\<rparr>)"

definition count_ones :: "u64 \<Rightarrow> nat" where
  "count_ones w = length (filter (bit w) [0..<64])"

fun zip_blocks :: "(u64 \<Rightarrow> u64 \<Rightarrow> u64) \<Rightarrow> u64 list \<Rightarrow> u64 list \<Rightarrow> u64 list" where
  "zip_blocks f (a # as) (b # bs) = f a b # zip_blocks f as bs"
| "zip_blocks f (a # as) [] = f a 0 # zip_blocks f as []"
| "zip_blocks f [] (b # bs) = f 0 b # zip_blocks f [] bs"
| "zip_blocks f [] [] = []"

definition apply_op :: "(u64 \<Rightarrow> u64 \<Rightarrow> u64) \<Rightarrow> bitset \<Rightarrow> bitset \<Rightarrow> bitset" where
  "apply_op f a b =
    (let st = zip_blocks f (bs_store a) (bs_store b) in
     \<lparr>bs_store = compact_store st, bs_count = sum_list (map count_ones st)\<rparr>)"

definition bitset_bitand :: "bitset \<Rightarrow> bitset \<Rightarrow> bitset" where "bitset_bitand = apply_op (AND)"
definition bitset_bitor :: "bitset \<Rightarrow> bitset \<Rightarrow> bitset" where "bitset_bitor = apply_op (OR)"
definition bitset_bitxor :: "bitset \<Rightarrow> bitset \<Rightarrow> bitset" where "bitset_bitxor = apply_op (XOR)"




definition bits64 :: "u64 \<Rightarrow> bool list" where
  "bits64 w = map (\<lambda>i. w AND push_bit i 1 \<noteq> 0) [0..<64]"

definition bitset_iter :: "bitset \<Rightarrow> nat list" where
  "bitset_iter s = map fst (filter snd (enumerate 0 (concat (map bits64 (bs_store s)))))"

fun superset_loop :: "u64 list \<Rightarrow> u64 list \<Rightarrow> bool" where
  "superset_loop (a # as) (b # bs) = (if a AND b = b then superset_loop as bs else False)"
| "superset_loop as [] = True"
| "superset_loop [] (b # bs) = (if b = 0 then superset_loop [] bs else False)"

definition bitset_is_superset :: "bitset \<Rightarrow> bitset \<Rightarrow> bool" where
  "bitset_is_superset a b = superset_loop (bs_store a) (bs_store b)"

definition bitset_is_subset :: "bitset \<Rightarrow> bitset \<Rightarrow> bool" where
  "bitset_is_subset a b = bitset_is_superset b a"

definition bitset_intersection_size :: "bitset \<Rightarrow> bitset \<Rightarrow> nat" where
  "bitset_intersection_size a b = sum_list (map (\<lambda>(x, y). count_ones (x AND y)) (zip (bs_store a) (bs_store b)))"

fun eq_blocks :: "u64 list \<Rightarrow> u64 list \<Rightarrow> bool" where
  "eq_blocks (a # as) (b # bs) = (a = b \<and> eq_blocks as bs)"
| "eq_blocks (a # as) [] = (a = 0 \<and> eq_blocks as [])"
| "eq_blocks [] (b # bs) = (b = 0 \<and> eq_blocks [] bs)"
| "eq_blocks [] [] = True"

definition bitset_eq :: "bitset \<Rightarrow> bitset \<Rightarrow> bool" where
  "bitset_eq a b = eq_blocks (bs_store a) (bs_store b)"

definition bitset_from_iter :: "nat list \<Rightarrow> bitset" where
  "bitset_from_iter xs = foldl (\<lambda>s x. bitset_insert x s) bitset_new xs"

definition ser_bitset :: "bitset \<Rightarrow> written" where
  "ser_bitset s = wseqs (ser_uvar (of_nat (length (bs_store s))) # map ser_u64 (bs_store s))"

definition size_bitset :: "bitset \<Rightarrow> nat" where
  "size_bitset s = size_uvar (of_nat (length (bs_store s))) + length (bs_store s) * 8"

definition deser_bitset :: "bitset reader" where
  "deser_bitset =
    dbind deser_uvar (\<lambda>n. dbind (read_vec deser_u64 (unat n)) (\<lambda>st.
    dret \<lparr>bs_store = st, bs_count = sum_list (map count_ones st)\<rparr>))"

section \<open>Abstraction\<close>

definition bitset_set :: "bitset \<Rightarrow> nat set" where
  "bitset_set s = {v. bitset_contains s v}"

definition store_bit :: "u64 list \<Rightarrow> nat \<Rightarrow> bool" where
  "store_bit st v \<longleftrightarrow> v div 64 < length st \<and> bit (st ! (v div 64)) (v mod 64)"

definition bitset_wf :: "bitset \<Rightarrow> bool" where
  "bitset_wf s \<longleftrightarrow> bs_count s = sum_list (map count_ones (bs_store s)) \<and> (bs_store s \<noteq> [] \<longrightarrow> last (bs_store s) \<noteq> 0)"

lemma index_and_mask_eq: "index_and_mask v = (v div 64, 2 ^ (v mod 64))"
  using mask_eq_exp_minus_1 [of 6, where 'a = nat] take_bit_eq_mask [of 6 v]
  by (simp add: index_and_mask_def drop_bit_eq_div take_bit_eq_mod)

lemma and_mask_bit: "w AND 2 ^ n = 0 \<longleftrightarrow> \<not> bit w n" for w :: u64
  using bit_iff_and_push_bit_not_eq_0 [of w n] by simp

lemma bit_set_bit: "n < 64 \<Longrightarrow> bit (w OR 2 ^ n) k \<longleftrightarrow> k = n \<or> bit w k" for w :: u64
  by (auto simp: bit_or_iff bit_exp_iff)

lemma bit_unset_bit: "bit (w AND NOT (2 ^ n)) k \<longleftrightarrow> k \<noteq> n \<and> bit w k" for w :: u64
  by (auto simp: bit_and_iff bit_not_iff bit_exp_iff dest: bit_imp_le_length)

lemma count_ones_card: "count_ones w = card {k. bit w k}"
proof -
  have "{k. bit w k} = set (filter (bit w) [0..<64])"
    by (auto dest: bit_imp_le_length)
  moreover have "card (set (filter (bit w) [0..<64])) = length (filter (bit w) [0..<64])"
    by (intro distinct_card distinct_filter) simp
  ultimately show ?thesis
    by (simp add: count_ones_def)
qed

lemma finite_bits: "finite {k. bit (w :: u64) k}"
  by (rule finite_subset [of _ "{..<64}"]) (auto dest: bit_imp_le_length)

lemma count_ones_set_bit: "n < 64 \<Longrightarrow> \<not> bit w n \<Longrightarrow> count_ones (w OR 2 ^ n) = Suc (count_ones w)"
proof -
  assume "n < 64" "\<not> bit w n"
  moreover from this have "{k. bit (w OR 2 ^ n) k} = insert n {k. bit w k}"
    by (auto simp: bit_set_bit)
  ultimately show ?thesis
    by (simp add: count_ones_card finite_bits)
qed

lemma count_ones_unset_bit: "bit w n \<Longrightarrow> Suc (count_ones (w AND NOT (2 ^ n))) = count_ones w"
proof -
  assume "bit w n"
  moreover have "{k. bit (w AND NOT (2 ^ n)) k} = {k. bit w k} - {n}"
    by (auto simp: bit_unset_bit)
  ultimately show ?thesis
    by (simp only: count_ones_card card_Suc_Diff1 finite_bits mem_Collect_eq)
qed

lemma count_ones_0 [simp]: "count_ones 0 = 0"
  by (simp add: count_ones_def)

lemma set_bit_idem: "n < 64 \<Longrightarrow> bit w n \<Longrightarrow> w OR 2 ^ n = w" for w :: u64
  by (rule bit_eqI) (auto simp: bit_set_bit)

lemma unset_bit_idem: "\<not> bit w n \<Longrightarrow> w AND NOT (2 ^ n) = w" for w :: u64
  by (rule bit_eqI) (auto simp: bit_unset_bit)

lemma contains_store_bit: "bitset_contains s v = store_bit (bs_store s) v"
  by (simp add: bitset_contains_def index_and_mask_eq store_bit_def and_mask_bit)

lemma same_div_mod: "v div 64 = u div 64 \<Longrightarrow> v mod 64 = u mod 64 \<Longrightarrow> v = (u :: nat)"
  by (metis div_mult_mod_eq)

lemma store_bit_resize [simp]: "store_bit (resize0 n st) v = store_bit st v"
  by (auto simp: store_bit_def resize0_def nth_append)

lemma store_bit_update:
  assumes "v div 64 < length st"
  shows "store_bit (st[v div 64 := st ! (v div 64) OR 2 ^ (v mod 64)]) u \<longleftrightarrow> u = v \<or> store_bit st u"
    and "store_bit (st[v div 64 := st ! (v div 64) AND NOT (2 ^ (v mod 64))]) u \<longleftrightarrow> u \<noteq> v \<and> store_bit st u"
  using assms same_div_mod [of u v]
  by (cases "u div 64 = v div 64"; auto simp: store_bit_def bit_set_bit bit_unset_bit)+

lemma sum_list_update_map:
  "i < length xs \<Longrightarrow> sum_list (map f (xs[i := x])) + f (xs ! i) = sum_list (map f xs) + (f x :: nat)"
proof (induction xs arbitrary: i)
  case (Cons a xs)
  then show ?case by (cases i) auto
qed simp

lemma compact_snoc: "compact_store (st @ [x]) = (if x = 0 then compact_store st else st @ [x])"
  by (simp add: compact_store_def)

lemma compact_store_facts:
  "store_bit (compact_store st) v = store_bit st v"
  "compact_store st \<noteq> [] \<Longrightarrow> last (compact_store st) \<noteq> 0"
  "sum_list (map count_ones (compact_store st)) = sum_list (map count_ones st)"
proof (induction st rule: rev_induct)
  case (snoc x st)
  {
    case 1
    have "store_bit (st @ [0]) v = store_bit st v"
      by (auto simp: store_bit_def nth_append less_Suc_eq)
    with snoc(1) show ?case by (simp add: compact_snoc)
  next
    case 2
    then show ?case using snoc(2) by (simp add: compact_snoc split: if_splits)
  next
    case 3
    then show ?case using snoc(3) by (simp add: compact_snoc)
  }
qed (simp_all add: compact_store_def)

lemma length_resize0 [simp]: "length (resize0 n st) = max n (length st)"
  by (simp add: resize0_def)

lemma insert_contains: "bitset_contains (bitset_insert v s) u \<longleftrightarrow> u = v \<or> bitset_contains s u"
  by (auto simp: contains_store_bit bitset_insert_def index_and_mask_eq store_bit_update Let_def)

lemma remove_contains: "bitset_contains (bitset_remove v s) u \<longleftrightarrow> u \<noteq> v \<and> bitset_contains s u"
proof -
  have "\<not> store_bit (bs_store s) v" if "\<not> v div 64 < length (bs_store s)"
    using that by (simp add: store_bit_def)
  then show ?thesis
    by (auto simp: contains_store_bit bitset_remove_def index_and_mask_eq Let_def compact_store_facts store_bit_update)
qed

lemma sum_resize0 [simp]: "sum_list (map count_ones (resize0 n st)) = sum_list (map count_ones st)"
  by (simp add: resize0_def sum_list_replicate)

lemma count_update_set:
  assumes "v div 64 < length st"
  shows "sum_list (map count_ones (st[v div 64 := st ! (v div 64) OR 2 ^ (v mod 64)]))
    = (if store_bit st v then 0 else 1) + sum_list (map count_ones st)"
proof (cases "store_bit st v")
  case True
  then show ?thesis
    by (simp add: store_bit_def set_bit_idem)
next
  case False
  then show ?thesis
    using sum_list_update_map [OF assms, of count_ones "st ! (v div 64) OR 2 ^ (v mod 64)"] assms
    by (simp add: store_bit_def count_ones_set_bit)
qed

lemma count_update_unset:
  assumes "v div 64 < length st"
  shows "sum_list (map count_ones (st[v div 64 := st ! (v div 64) AND NOT (2 ^ (v mod 64))]))
    = sum_list (map count_ones st) - (if store_bit st v then 1 else 0)"
proof (cases "store_bit st v")
  case True
  then have "Suc (count_ones (st ! (v div 64) AND NOT (2 ^ (v mod 64)))) = count_ones (st ! (v div 64))"
    by (intro count_ones_unset_bit) (simp add: store_bit_def)
  then show ?thesis
    using sum_list_update_map [OF assms, of count_ones "st ! (v div 64) AND NOT (2 ^ (v mod 64))"]
    by (simp only: True if_True) linarith
next
  case False
  with assms show ?thesis
    by (simp add: store_bit_def unset_bit_idem)
qed

lemma set_bit_nonzero: "n < 64 \<Longrightarrow> w OR 2 ^ n \<noteq> (0 :: u64)"
  using bit_set_bit [of n w n] by (auto dest: arg_cong [of _ _ "\<lambda>x. bit x n"])

lemma insert_wf:
  assumes "bitset_wf s"
  shows "bitset_wf (bitset_insert v s)"
proof -
  define st where "st = (if v div 64 \<ge> length (bs_store s) then resize0 (v div 64 + 1) (bs_store s) else bs_store s)"
  have len: "v div 64 < length st"
    by (auto simp: st_def)
  then have ne: "st \<noteq> []"
    by auto
  have same: "sum_list (map count_ones st) = bs_count s"
    using assms by (simp add: st_def bitset_wf_def)
  have "last (st[v div 64 := st ! (v div 64) OR 2 ^ (v mod 64)]) \<noteq> 0"
  proof (cases "v div 64 = length st - 1")
    case True
    then show ?thesis
      using set_bit_nonzero [of "v mod 64" "st ! (v div 64)"] by (simp add: last_list_update [OF ne])
  next
    case False
    then have "st = bs_store s"
      by (auto simp: st_def split: if_splits)
    with False ne assms show ?thesis
      unfolding last_list_update [OF ne] by (simp add: bitset_wf_def)
  qed
  then show ?thesis
    using len same
    by (simp add: bitset_wf_def bitset_insert_def index_and_mask_eq st_def [symmetric] Let_def count_update_set store_bit_def and_mask_bit)
qed

lemma remove_wf: "bitset_wf s \<Longrightarrow> bitset_wf (bitset_remove v s)"
  by (auto simp: bitset_wf_def bitset_remove_def index_and_mask_eq Let_def compact_store_facts count_update_unset store_bit_def and_mask_bit)

text \<open>Blocks are determined by their bits once trailing zeros are gone.\<close>

lemma last_bit: "st \<noteq> [] \<Longrightarrow> last st \<noteq> 0 \<Longrightarrow> \<exists>v. store_bit st v \<and> v div 64 = length st - 1"
proof -
  assume st: "st \<noteq> []" "last st \<noteq> 0"
  then obtain k where k: "bit (last st) k"
    using bit_eqI [of "last st" 0] by auto
  then have "k < 64"
    by (auto dest: bit_imp_le_length)
  with k st have "store_bit st (64 * (length st - 1) + k)"
    by (simp add: store_bit_def last_conv_nth)
  with \<open>k < 64\<close> show ?thesis
    by (intro exI [of _ "64 * (length st - 1) + k"]) simp
qed

lemma store_length_le:
  assumes "st \<noteq> [] \<longrightarrow> last st \<noteq> 0" "\<And>v. store_bit st v = store_bit st' v"
  shows "length st \<le> length st'"
proof (cases "st = []")
  case False
  with assms(1) obtain v where "store_bit st v" "v div 64 = length st - 1"
    using last_bit by blast
  then have "length st - 1 < length st'"
    using assms(2) [of v] by (auto simp: store_bit_def)
  then show ?thesis by simp
qed simp

lemma bitset_extensional:
  assumes "bitset_wf s" "bitset_wf s'" "\<And>v. bitset_contains s v = bitset_contains s' v"
  shows "s = s'"
proof -
  have bits: "store_bit (bs_store s) v = store_bit (bs_store s') v" for v
    using assms(3) [of v] by (simp add: contains_store_bit)
  then have len: "length (bs_store s) = length (bs_store s')"
    using assms(1,2) by (intro antisym store_length_le) (auto simp: bitset_wf_def)
  have "bs_store s = bs_store s'"
  proof (rule nth_equalityI [OF len])
    fix i
    assume i: "i < length (bs_store s)"
    show "bs_store s ! i = bs_store s' ! i"
    proof (rule bit_eqI)
      fix n
      assume "possible_bit TYPE(u64) n"
      then have "n < 64" by simp
      with bits [of "64 * i + n"] i len show "bit (bs_store s ! i) n = bit (bs_store s' ! i) n"
        by (simp add: store_bit_def)
    qed
  qed
  with assms(1,2) show ?thesis
    by (cases s; cases s') (simp add: bitset_wf_def)
qed

interpretation bitset: elem_set bitset_new bitset_contains bitset_insert bitset_remove bitset_wf
proof unfold_locales
  show "\<not> bitset_contains bitset_new x" for x
    by (simp add: contains_store_bit bitset_new_def store_bit_def)
  show "bitset_wf bitset_new"
    by (simp add: bitset_wf_def bitset_new_def)
qed (simp_all add: insert_contains remove_contains insert_wf remove_wf bitset_extensional)

section \<open>Operators\<close>

lemma store_bit_Cons: "store_bit (w # ws) v = (if v < 64 then bit w v else store_bit ws (v - 64))"
proof (cases "v < 64")
  case False
  then obtain u where u: "v = u + 64"
    using le_Suc_ex [of 64 v] by (auto simp: not_less)
  have "(u + 64) div 64 = Suc (u div 64)"
    by (simp add: div_add_self2)
  with u show ?thesis by (simp add: store_bit_def)
qed (simp add: store_bit_def)

lemma store_bit_Nil [simp]: "\<not> store_bit [] v"
  by (simp add: store_bit_def)

lemma store_bits_Cons: "{v. store_bit (w # ws) v} = {k. bit w k} \<union> (\<lambda>v. v + 64) ` {v. store_bit ws v}"
proof (rule set_eqI)
  fix v
  have "v \<in> (\<lambda>v. v + 64) ` {v. store_bit ws v} \<longleftrightarrow> 64 \<le> v \<and> store_bit ws (v - 64)"
    by (auto intro: image_eqI [of _ _ "v - 64"])
  moreover have "bit w v \<Longrightarrow> v < 64"
    by (auto dest: bit_imp_le_length)
  ultimately show "v \<in> {v. store_bit (w # ws) v} \<longleftrightarrow> v \<in> {k. bit w k} \<union> (\<lambda>v. v + 64) ` {v. store_bit ws v}"
    by (auto simp: store_bit_Cons)
qed

lemma finite_store_bits: "finite {v. store_bit st v}"
proof (rule finite_subset)
  show "{v. store_bit st v} \<subseteq> {..< 64 * length st}"
    by (auto simp: store_bit_def)
qed simp

lemma card_store_bits: "card {v. store_bit st v} = sum_list (map count_ones st)"
proof (induction st)
  case (Cons w ws)
  have "{k. bit w k} \<inter> (\<lambda>v. v + 64) ` {v. store_bit ws v} = {}"
    by (auto dest: bit_imp_le_length)
  then show ?case
    using Cons by (simp add: store_bits_Cons card_Un_disjoint finite_bits finite_store_bits card_image count_ones_card)
qed (simp add: store_bit_def)

lemma store_bit_zip:
  assumes "\<And>a b n. bit (f a b) n \<longleftrightarrow> g (bit a n) (bit b n)" "\<not> g False False"
  shows "store_bit (zip_blocks f as bs) v \<longleftrightarrow> g (store_bit as v) (store_bit bs v)"
  using assms by (induction f as bs arbitrary: v rule: zip_blocks.induct) (simp_all add: store_bit_Cons)

lemma apply_op_set:
  assumes "\<And>a b n. bit (f a b) n \<longleftrightarrow> g (bit a n) (bit b n)" "\<not> g False False"
  shows "bitset_wf (apply_op f a b)" "bitset_set (apply_op f a b) = {v. g (v \<in> bitset_set a) (v \<in> bitset_set b)}"
  using store_bit_zip [where f = f and g = g and as = "bs_store a" and bs = "bs_store b"] assms
  by (simp_all add: bitset_wf_def apply_op_def Let_def compact_store_facts bitset_set_def contains_store_bit)

lemma bitset_len_card: "bitset_wf s \<Longrightarrow> bitset_len s = card (bitset_set s)"
  by (simp add: bitset_len_def bitset_wf_def bitset_set_def contains_store_bit card_store_bits)

lemma bits_Cons_iff:
  "(\<forall>v. P (store_bit (a # as) v) (store_bit (b # bs) v)) \<longleftrightarrow> (\<forall>n < 64. P (bit a n) (bit b n)) \<and> (\<forall>v. P (store_bit as v) (store_bit bs v))"
  (is "?L \<longleftrightarrow> ?R")
proof
  assume ?L
  then have "P (bit a n) (bit b n)" if "n < 64" for n
    using that by (auto simp: store_bit_Cons dest: spec [of _ n])
  moreover have "P (store_bit as v) (store_bit bs v)" for v
    using \<open>?L\<close> [rule_format, of "v + 64"] by (simp add: store_bit_Cons)
  ultimately show ?R by blast
qed (simp add: store_bit_Cons)

lemma bits_Cons_Nil_iff:
  "(\<forall>v. P (store_bit (a # as) v)) \<longleftrightarrow> (\<forall>n < 64. P (bit a n)) \<and> (\<forall>v. P (store_bit as v))"
  using bits_Cons_iff [of "\<lambda>x y. P x" a as a as] by simp

lemma u64_eq_bits: "a = b \<longleftrightarrow> (\<forall>n < 64. bit a n = bit b n)" for a b :: u64
  by (auto intro: bit_eqI)

lemma u64_sub_bits: "a AND b = b \<longleftrightarrow> (\<forall>n < 64. bit b n \<longrightarrow> bit a n)" for a b :: u64
  by (auto simp: u64_eq_bits bit_and_iff)

lemma eq_blocks_iff: "eq_blocks as bs \<longleftrightarrow> (\<forall>v. store_bit as v = store_bit bs v)"
  by (induction as bs rule: eq_blocks.induct)
    (auto simp: bits_Cons_iff [of "(=)"] bits_Cons_Nil_iff [of Not] u64_eq_bits)

lemma superset_loop_iff: "superset_loop as bs \<longleftrightarrow> (\<forall>v. store_bit bs v \<longrightarrow> store_bit as v)"
  by (induction as bs rule: superset_loop.induct)
    (auto simp: bits_Cons_iff [of "\<lambda>x y. y \<longrightarrow> x"] bits_Cons_Nil_iff [of Not] u64_eq_bits [of _ 0] u64_sub_bits)

lemma bits64_nth: "n < 64 \<Longrightarrow> bits64 w ! n = bit w n"
  using and_mask_bit [of w n] by (simp add: bits64_def)

lemma concat_bits_nth: "v < 64 * length st \<Longrightarrow> concat (map bits64 st) ! v = store_bit st v"
proof (induction st arbitrary: v)
  case (Cons w ws)
  have "length (bits64 w) = 64"
    by (simp add: bits64_def)
  with Cons show ?case
    by (auto simp: nth_append store_bit_Cons bits64_nth)
qed simp

lemma length_concat_bits: "length (concat (map bits64 st)) = 64 * length st"
  by (induction st) (simp_all add: bits64_def)

lemma enumerate_filter: "map fst (filter snd (enumerate n L)) = filter (\<lambda>i. L ! (i - n)) [n..<n + length L]"
proof (induction L arbitrary: n)
  case (Cons b L)
  have "(b # L) ! (i - n) = L ! (i - Suc n)" if "Suc n \<le> i" for i
    using that by (subst nth_Cons_pos) auto
  then have "filter (\<lambda>i. (b # L) ! (i - n)) [Suc n..<Suc n + length L] = filter (\<lambda>i. L ! (i - Suc n)) [Suc n..<Suc n + length L]"
    by (intro filter_cong refl) (simp only: set_upt atLeastLessThan_iff)
  moreover have "[n..<n + length (b # L)] = n # [Suc n..<Suc n + length L]"
    by (subst upt_conv_Cons) simp_all
  ultimately show ?case
    using Cons [of "Suc n"] by (cases b) (simp_all only: enumerate_simps filter.simps list.map fst_conv snd_conv nth_Cons_0 diff_self_eq_0 if_True if_False)
qed simp

lemma bitset_iter_eq: "bitset_iter s = filter (bitset_contains s) [0..<64 * length (bs_store s)]"
  unfolding bitset_iter_def enumerate_filter length_concat_bits
  by (rule trans [OF filter_cong]) (auto simp: concat_bits_nth contains_store_bit)

lemma set_bitset_iter: "set (bitset_iter s) = bitset_set s"
  by (auto simp: bitset_iter_eq bitset_set_def contains_store_bit store_bit_def)

lemma zip_and_eq: "sum_list (map (\<lambda>(x, y). count_ones (x AND y)) (zip as bs)) = sum_list (map count_ones (zip_blocks (AND) as bs))"
proof (induction "(AND) :: u64 \<Rightarrow> u64 \<Rightarrow> u64" as bs rule: zip_blocks.induct)
  case (2 a as)
  then show ?case by (cases as) simp_all
next
  case (3 b bs)
  then show ?case by (cases bs) simp_all
qed simp_all

lemma bitset_ops_set:
  "bitset_wf (bitset_bitand a b)" "bitset_set (bitset_bitand a b) = bitset_set a \<inter> bitset_set b"
  "bitset_wf (bitset_bitor a b)" "bitset_set (bitset_bitor a b) = bitset_set a \<union> bitset_set b"
  "bitset_wf (bitset_bitxor a b)" "bitset_set (bitset_bitxor a b) = (bitset_set a - bitset_set b) \<union> (bitset_set b - bitset_set a)"
  using apply_op_set [of "(AND)" "(\<and>)" a b] apply_op_set [of "(OR)" "(\<or>)" a b] apply_op_set [of "(XOR)" "(\<noteq>)" a b]
  by (auto simp: bitset_bitand_def bitset_bitor_def bitset_bitxor_def bit_and_iff bit_or_iff bit_xor_iff)

lemma bitset_intersection_card: "bitset_intersection_size a b = card (bitset_set a \<inter> bitset_set b)"
  unfolding bitset_intersection_size_def zip_and_eq bitset_ops_set(2) [symmetric] bitset_len_card [OF bitset_ops_set(1), symmetric]
  by (simp add: bitset_len_def bitset_bitand_def apply_op_def Let_def)

lemma bitset_iter_sorted: "bitset_iter s = sorted_list_of_set (bitset_set s)"
proof -
  have "sorted (bitset_iter s)" "distinct (bitset_iter s)"
    by (simp_all add: bitset_iter_eq sorted_wrt_filter)
  then show ?thesis
    by (simp add: set_bitset_iter [symmetric] sorted_list_of_set.idem_if_sorted_distinct)
qed

text \<open>C29: A bit set implements the finite set of numbers it contains: insertion, removal, the operators that return a new
  set, the cached count, inclusion, equality, the size of an intersection and iteration are those of sets, and every
  result is well-formed again.\<close>

theorem bitset_implements_sets:
  assumes "bitset_wf a" "bitset_wf b"
  shows "bitset_set bitset_new = {} \<and>
    bitset_wf (bitset_insert v a) \<and> bitset_set (bitset_insert v a) = insert v (bitset_set a) \<and>
    bitset_wf (bitset_remove v a) \<and> bitset_set (bitset_remove v a) = bitset_set a - {v} \<and>
    bitset_wf (bitset_bitand a b) \<and> bitset_set (bitset_bitand a b) = bitset_set a \<inter> bitset_set b \<and>
    bitset_wf (bitset_bitor a b) \<and> bitset_set (bitset_bitor a b) = bitset_set a \<union> bitset_set b \<and>
    bitset_len a = card (bitset_set a) \<and>
    (bitset_is_superset a b \<longleftrightarrow> bitset_set b \<subseteq> bitset_set a) \<and>
    (bitset_eq a b \<longleftrightarrow> bitset_set a = bitset_set b) \<and> (bitset_set a = bitset_set b \<longleftrightarrow> a = b) \<and>
    bitset_intersection_size a b = card (bitset_set a \<inter> bitset_set b) \<and>
    bitset_iter a = sorted_list_of_set (bitset_set a)"
proof -
  have "bitset_is_superset a b \<longleftrightarrow> bitset_set b \<subseteq> bitset_set a" "bitset_eq a b \<longleftrightarrow> bitset_set a = bitset_set b"
    by (auto simp: bitset_is_superset_def superset_loop_iff bitset_eq_def eq_blocks_iff bitset_set_def contains_store_bit)
  moreover have "bitset_set a = bitset_set b \<longleftrightarrow> a = b"
    using bitset_extensional [OF assms] by (auto simp: bitset_set_def)
  moreover have "bitset_set bitset_new = {}" "bitset_set (bitset_insert v a) = insert v (bitset_set a)"
    "bitset_set (bitset_remove v a) = bitset_set a - {v}"
    by (auto simp: bitset_set_def bitset.elem_empty insert_contains remove_contains)
  ultimately show ?thesis
    using assms by (simp add: insert_wf remove_wf bitset_ops_set bitset_len_card bitset_intersection_card bitset_iter_sorted)
qed

theorem bitset_implements_sets_witness:
  "bitset_set (bitset_bitor (bitset_from_iter [1, 70]) (bitset_from_iter [1, 3])) = bitset_set (bitset_from_iter [1, 70]) \<union> bitset_set (bitset_from_iter [1, 3])"
proof -
  have "bitset_wf (bitset_from_iter [1, 70])" "bitset_wf (bitset_from_iter [1, 3])"
    by (simp_all add: bitset_from_iter_def insert_wf bitset.inv_empty)
  from bitset_implements_sets [OF this] show ?thesis by blast
qed

section \<open>In-place operators\<close>



lemma store_bit_bound: "store_bit st v \<Longrightarrow> v < 64 * length st"
  by (auto simp: store_bit_def)






section \<open>Byte format\<close>

definition bitset_ok :: "bitset \<Rightarrow> bool" where
  "bitset_ok s \<longleftrightarrow> bs_count s = sum_list (map count_ones (bs_store s)) \<and> length (bs_store s) < 2 ^ 64"

interpretation bitset_wire: codec ser_bitset deser_bitset size_bitset bitset_ok
proof
  fix s
  assume ok: "bitset_ok s"
  then have n: "unat (of_nat (length (bs_store s)) :: u64) = length (bs_store s)"
    by (simp add: bitset_ok_def unat_of_nat)
  have "encodes (wseqs (map ser_u64 (bs_store s))) (read_vec deser_u64 (length (bs_store s))) (bs_store s)
      (sum_list (map (\<lambda>_. 8) (bs_store s)))"
    by (rule encodes_read_vec) (rule u64.encoded, simp)
  then have "encodes (wseqs (map ser_u64 (bs_store s)))
      (dbind (read_vec deser_u64 (unat (of_nat (length (bs_store s)) :: u64))) (\<lambda>st. dret \<lparr>bs_store = st, bs_count = sum_list (map count_ones st)\<rparr>))
      s (length (bs_store s) * 8)"
    unfolding n using ok
    by (cases s) (auto simp: sum_list_triv bitset_ok_def intro!: encodes_last)
  then show "encodes (ser_bitset s) deser_bitset s (size_bitset s)"
    unfolding ser_bitset_def deser_bitset_def size_bitset_def
    by (rule encodes_wseqs_Cons [OF uvar.encoded, rotated]) simp
qed

lemmas [encodes_fields] = encodes_wseqs_Cons [OF bitset_wire.encoded]

end
