(* ===== verification/Slots.thy ===== *)
theory Slots
  imports Primitives
begin

text \<open>
  The allocation of slots to validators (\<open>primitives/src/slot.rs\<close>): bands of slots with an index table, the
  builder that collects drawn slots, and the compressed bitmap in which an allocation is written.  A
  \<open>LazyPublicKey\<close> is compared, ordered and written as its compressed key, so the model uses the compressed key.  The
  storage order of the bit vector is the \<open>bitvec\<close> crate's: packing bits into bytes is a parameter of the writer and
  the reader.
\<close>

section \<open>Model\<close>

datatype slot_index = SI_Slot u16 | SI_Band u16

record slashed_slot =
  ss_slot :: u16
  ss_validator_key :: bls_public_key
  ss_event_block :: u32

definition ser_slashed_slot :: "slashed_slot \<Rightarrow> written" where
  "ser_slashed_slot s = wseqs [ser_u16 (ss_slot s), ser_bls_key (ss_validator_key s), ser_u32 (ss_event_block s)]"

definition deser_slashed_slot :: "slashed_slot reader" where
  "deser_slashed_slot =
    dbind deser_u16 (\<lambda>s. dbind deser_bls_key (\<lambda>k. dbind deser_u32 (\<lambda>b.
    dret \<lparr>ss_slot = s, ss_validator_key = k, ss_event_block = b\<rparr>)))"

record validator_slot_band =
  vb_public_key :: bls_public_key
  vb_reward_address :: address
  vb_num_slots :: u16

record slot =
  validator_slot :: validator_slot_band

text \<open>\<open>SlotIndexTable::new\<close> asserts that the bands cover all slots.\<close>

definition slot_index_table_new :: "validator_slot_band list \<Rightarrow> (u16 list, 'e) result" where
  "slot_index_table_new bands =
    (let index = concat (map (\<lambda>(i, b). replicate (unat (vb_num_slots b)) (of_nat i)) (enumerate 0 bands)) in
     if length index = unat SLOTS then Inr index else Inl Panic)"

definition slot_index_table_get :: "u16 list \<Rightarrow> u16 \<Rightarrow> u16 option" where
  "slot_index_table_get index n = (if unat n < length index then Some (index ! unat n) else None)"

record validator_slots =
  vsl_bands :: "validator_slot_band list"
  vsl_index :: "u16 list"

definition validator_slots_new :: "validator_slot_band list \<Rightarrow> (validator_slots, 'e) result" where
  "validator_slots_new bands =
    rbind (slot_index_table_new bands) (\<lambda>index. Inr \<lparr>vsl_bands = bands, vsl_index = index\<rparr>)"

definition get_band_number_by_slot_number :: "validator_slots \<Rightarrow> u16 \<Rightarrow> u16 option" where
  "get_band_number_by_slot_number vs n = slot_index_table_get (vsl_index vs) n"

definition get_by_band_number :: "validator_slots \<Rightarrow> u16 \<Rightarrow> validator_slot_band option" where
  "get_by_band_number vs i = (if unat i < length (vsl_bands vs) then Some (vsl_bands vs ! unat i) else None)"

definition get_by_slot_number :: "validator_slots \<Rightarrow> u16 \<Rightarrow> validator_slot_band option" where
  "get_by_slot_number vs n = Option.bind (get_band_number_by_slot_number vs n) (get_by_band_number vs)"

fun validator_slots_get :: "validator_slots \<Rightarrow> slot_index \<Rightarrow> validator_slot_band option" where
  "validator_slots_get vs (SI_Slot n) = get_by_slot_number vs n"
| "validator_slots_get vs (SI_Band i) = get_by_band_number vs i"

definition get_num_slots :: "validator_slots \<Rightarrow> slot_index \<Rightarrow> u16 option" where
  "get_num_slots vs idx = map_option vb_num_slots (validator_slots_get vs idx)"

definition get_public_key :: "validator_slots \<Rightarrow> slot_index \<Rightarrow> bls_public_key option" where
  "get_public_key vs idx = map_option vb_public_key (validator_slots_get vs idx)"

fun find_position :: "('a \<Rightarrow> bool) \<Rightarrow> nat \<Rightarrow> 'a list \<Rightarrow> (nat \<times> 'a) option" where
  "find_position P i [] = None"
| "find_position P i (x # xs) = (if P x then Some (i, x) else find_position P (i + 1) xs)"

definition find_idx_and_num_slots_by_public_key :: "validator_slots \<Rightarrow> bls_public_key \<Rightarrow> (u16 \<times> u16) option" where
  "find_idx_and_num_slots_by_public_key vs k =
    map_option (\<lambda>(i, b). (of_nat i, vb_num_slots b)) (find_position (\<lambda>b. vb_public_key b = k) 0 (vsl_bands vs))"

text \<open>The loop of \<open>get_slots\<close>: the bands before the wanted one move the start of the range.\<close>

fun get_slots_loop :: "validator_slot_band list \<Rightarrow> u16 \<Rightarrow> nat \<Rightarrow> u16 list" where
  "get_slots_loop [] start i = []"
| "get_slots_loop (b # bs) start 0 = map of_nat [unat start ..< unat (start + vb_num_slots b)]"
| "get_slots_loop (b # bs) start (Suc i) = get_slots_loop bs (start + vb_num_slots b) i"

definition get_slots :: "validator_slots \<Rightarrow> u16 \<Rightarrow> u16 list" where
  "get_slots vs idx =
    (if unat idx \<ge> length (vsl_bands vs) then [] else get_slots_loop (vsl_bands vs) 0 (unat idx))"

definition validator_slots_eq :: "validator_slots \<Rightarrow> validator_slots \<Rightarrow> bool" where
  "validator_slots_eq a b \<longleftrightarrow> vsl_bands a = vsl_bands b"

record slots =
  slots_validator_slots :: validator_slots

definition slots_get :: "slots \<Rightarrow> slot_index \<Rightarrow> slot option" where
  "slots_get s idx = map_option (\<lambda>b. \<lparr>validator_slot = b\<rparr>) (validator_slots_get (slots_validator_slots s) idx)"

fun combined_loop :: "validator_slot_band list \<Rightarrow> u16 \<Rightarrow> (slot \<times> u16) list" where
  "combined_loop [] start = []"
| "combined_loop (b # bs) start = (\<lparr>validator_slot = b\<rparr>, start) # combined_loop bs (start + vb_num_slots b)"

definition combined :: "slots \<Rightarrow> (slot \<times> u16) list" where
  "combined s = combined_loop (vsl_bands (slots_validator_slots s)) 0"

record slots_builder =
  sb_validators :: "(bls_public_key, address \<times> u16) omap"

definition slots_builder_default :: slots_builder where
  "slots_builder_default = \<lparr>sb_validators = []\<rparr>"

definition slots_builder_push :: "bls_public_key \<Rightarrow> address \<Rightarrow> slots_builder \<Rightarrow> slots_builder" where
  "slots_builder_push k a sb =
    (let (a', n) = (case om_get (sb_validators sb) k of Some e \<Rightarrow> e | None \<Rightarrow> (a, 0)) in
     sb\<lparr>sb_validators := om_insert k (a', n + 1) (sb_validators sb)\<rparr>)"

definition slots_builder_build :: "slots_builder \<Rightarrow> (slots, 'e) result" where
  "slots_builder_build sb =
    rbind (validator_slots_new (map (\<lambda>(k, a, n). \<lparr>vb_public_key = k, vb_reward_address = a, vb_num_slots = n\<rparr>) (sb_validators sb)))
      (\<lambda>vs. Inr \<lparr>slots_validator_slots = vs\<rparr>)"

section \<open>The allocation bitmap\<close>

text \<open>A bit vector is its sequence of bits; \<open>as_slice\<close> and \<open>from_vec\<close> of \<open>BitVec<Msb0, u8>\<close> are parameters.\<close>

record bit_packing =
  bv_as_slice :: "bool list \<Rightarrow> bytes"
  bv_from_vec :: "bytes \<Rightarrow> bool list"

definition slot_allocation_SIZE :: nat where
  "slot_allocation_SIZE = (unat SLOTS + 8 - 1) div 8"

fun allocation_loop :: "u16 list \<Rightarrow> nat \<Rightarrow> bool list \<Rightarrow> (bool list, serializing_error) result" where
  "allocation_loop [] i bits = (if i = unat SLOTS then Inr bits else Inl Panic)"
| "allocation_loop (n # ns) i bits =
    (if n = 0 then Inl (Err InvalidValue)
     else if i < length bits then allocation_loop ns (i + unat n) (bits[i := True]) else Inl Panic)"

definition slot_allocation_from_iter :: "u16 list \<Rightarrow> (bool list, serializing_error) result" where
  "slot_allocation_from_iter ns = allocation_loop ns 0 (replicate (unat SLOTS) False)"

fun as_vec_loop :: "bool list \<Rightarrow> u16 \<Rightarrow> u16 \<Rightarrow> u16 list \<times> u16" where
  "as_vec_loop [] c t = ([c], t + c)"
| "as_vec_loop (b # bs) c t =
    (if b \<and> c > 0 then let (v, t') = as_vec_loop bs 1 (t + c) in (c # v, t') else as_vec_loop bs (c + 1) t)"

definition slot_allocation_as_vec :: "bool list \<Rightarrow> (u16 list, 'e) result" where
  "slot_allocation_as_vec bits = (let (v, t) = as_vec_loop bits 0 0 in if t = SLOTS then Inr v else Inl Panic)"

definition slot_allocation_num_items :: "bool list \<Rightarrow> nat" where
  "slot_allocation_num_items bits = length (filter id bits)"

definition ser_slot_allocation :: "bit_packing \<Rightarrow> bool list \<Rightarrow> written" where
  "ser_slot_allocation bp bits = Inr (bv_as_slice bp bits)"

definition resize_bits :: "nat \<Rightarrow> bool list \<Rightarrow> bool list" where
  "resize_bits n bits = take n bits @ replicate (n - length bits) False"

definition deser_slot_allocation :: "bit_packing \<Rightarrow> bool list reader" where
  "deser_slot_allocation bp =
    dbind (read_exact slot_allocation_SIZE) (\<lambda>buf bs.
      let bits = bv_from_vec bp buf in
      if length bits \<ge> unat SLOTS then Inr (resize_bits (unat SLOTS) bits, bs) else Inl Panic)"

definition ser_validator_slots :: "bit_packing \<Rightarrow> validator_slots \<Rightarrow> written" where
  "ser_validator_slots bp vs =
    rbind (slot_allocation_from_iter (map vb_num_slots (vsl_bands vs))) (\<lambda>bits.
    wseqs (ser_slot_allocation bp bits #
      concat (map (\<lambda>b. [ser_bls_key (vb_public_key b), ser_address (vb_reward_address b)]) (vsl_bands vs))))"

definition size_validator_slots :: "validator_slots \<Rightarrow> nat" where
  "size_validator_slots vs = (285 + 20) * length (vsl_bands vs) + slot_allocation_SIZE"

fun read_bands :: "u16 list \<Rightarrow> validator_slot_band list reader" where
  "read_bands [] = dret []"
| "read_bands (n # ns) =
    dbind deser_bls_key (\<lambda>k. dbind deser_address (\<lambda>a. dbind (read_bands ns) (\<lambda>bs.
    dret (\<lparr>vb_public_key = k, vb_reward_address = a, vb_num_slots = n\<rparr> # bs))))"

text \<open>A computation that does not read, inside a reader.\<close>

definition dlift :: "('a, serializing_error) result \<Rightarrow> 'a reader" where
  "dlift r bs = rbind r (\<lambda>x. Inr (x, bs))"

definition deser_validator_slots :: "bit_packing \<Rightarrow> validator_slots reader" where
  "deser_validator_slots bp =
    dbind (deser_slot_allocation bp) (\<lambda>bits.
    dbind (dlift (slot_allocation_as_vec bits)) (\<lambda>ns.
    dbind (read_bands ns) (\<lambda>bands.
    dlift (if length bands = slot_allocation_num_items bits then validator_slots_new bands else Inl Panic))))"

section \<open>Slots and bands\<close>

abbreviation nslots :: "validator_slot_band \<Rightarrow> nat" where
  "nslots b \<equiv> unat (vb_num_slots b)"

text \<open>The first slot of the band at a position.\<close>

definition band_offset :: "validator_slot_band list \<Rightarrow> nat \<Rightarrow> nat" where
  "band_offset bands i = sum_list (map nslots (take i bands))"

definition band_index :: "nat \<Rightarrow> validator_slot_band list \<Rightarrow> u16 list" where
  "band_index i0 bands = concat (map (\<lambda>(i, b). replicate (nslots b) (of_nat i)) (enumerate i0 bands))"

lemma band_offset_simps [simp]:
  "band_offset bands 0 = 0"
  "band_offset (b # bands) (Suc i) = nslots b + band_offset bands i"
  by (simp_all add: band_offset_def)

lemma band_offset_Suc: "i < length bands \<Longrightarrow> band_offset bands (Suc i) = band_offset bands i + nslots (bands ! i)"
  by (simp add: band_offset_def take_Suc_conv_app_nth)

lemma band_offset_mono: "i \<le> j \<Longrightarrow> band_offset bands i \<le> band_offset bands j"
  unfolding band_offset_def by (simp add: le_iff_add) (metis map_append sum_list_append take_add)

lemma length_band_index [simp]: "length (band_index i0 bands) = sum_list (map nslots bands)"
  by (induction bands arbitrary: i0) (simp_all add: band_index_def)

lemma band_index_nth:
  "i < length bands \<Longrightarrow> band_offset bands i \<le> s \<Longrightarrow> s < band_offset bands (Suc i) \<Longrightarrow> band_index i0 bands ! s = of_nat (i0 + i)"
proof (induction bands arbitrary: i0 i s)
  case (Cons b bands)
  have split: "band_index i0 (b # bands) = replicate (nslots b) (of_nat i0) @ band_index (Suc i0) bands"
    by (simp add: band_index_def)
  show ?case
  proof (cases i)
    case 0
    with Cons.prems show ?thesis by (simp add: split nth_append)
  next
    case (Suc j)
    with Cons.prems Cons.IH [of j "s - nslots b" "Suc i0"] show ?thesis
      by (auto simp: split nth_append)
  qed
qed simp

lemma band_of_slot:
  "s < sum_list (map nslots bands) \<Longrightarrow> \<exists>i < length bands. band_offset bands i \<le> s \<and> s < band_offset bands (Suc i)"
proof (induction bands arbitrary: s)
  case (Cons b bands)
  show ?case
  proof (cases "s < nslots b")
    case True
    then show ?thesis by (intro exI [of _ 0]) simp
  next
    case False
    with Cons.prems have "s - nslots b < sum_list (map nslots bands)"
      by (simp add: less_diff_conv2)
    then obtain i where "i < length bands" "band_offset bands i \<le> s - nslots b" "s - nslots b < band_offset bands (Suc i)"
      using Cons.IH by blast
    with False show ?thesis by (intro exI [of _ "Suc i"]) auto
  qed
qed simp

lemma band_of_slot_unique:
  assumes "band_offset bands i \<le> s" "s < band_offset bands (Suc i)" "band_offset bands j \<le> s" "s < band_offset bands (Suc j)"
  shows "i = j"
  using assms band_offset_mono [of "Suc i" j bands] band_offset_mono [of "Suc j" i bands]
  by (metis leD le_trans not_less_eq_eq order_antisym)

lemma band_offset_le_total: "band_offset bands i \<le> sum_list (map nslots bands)"
  using band_offset_mono [of i "max i (length bands)" bands] by (simp add: band_offset_def)

lemma get_slots_loop_eq:
  "unat start + sum_list (map nslots bands) < 2 ^ 16 \<Longrightarrow> i < length bands \<Longrightarrow>
   get_slots_loop bands start i = map of_nat [unat start + band_offset bands i ..< unat start + band_offset bands (Suc i)]"
proof (induction bands start i rule: get_slots_loop.induct)
  case (2 b bs start)
  then have "unat (start + vb_num_slots b) = unat start + nslots b"
    by (subst unat_add_lem [symmetric]) simp
  then show ?case by simp
next
  case (3 b bs start i)
  then have "unat (start + vb_num_slots b) = unat start + nslots b"
    by (subst unat_add_lem [symmetric]) simp
  with 3 show ?case by (simp add: add.assoc)
qed simp

lemma validator_slots_new_Inr:
  "validator_slots_new bands = Inr vs \<longleftrightarrow>
    sum_list (map nslots bands) = unat SLOTS \<and> vs = \<lparr>vsl_bands = bands, vsl_index = band_index 0 bands\<rparr>"
  by (auto simp: validator_slots_new_def slot_index_table_new_def Let_def rbind_eq_Inr band_index_def [symmetric])

definition validator_slots_ok :: "validator_slots \<Rightarrow> bool" where
  "validator_slots_ok vs \<longleftrightarrow> validator_slots_new (vsl_bands vs) = (Inr vs :: (validator_slots, unit) result) \<and>
    (\<forall>b \<in> set (vsl_bands vs). vb_num_slots b \<noteq> 0 \<and> bls_key_ok (vb_public_key b) \<and> address_ok (vb_reward_address b))"

lemma validator_slots_okD:
  assumes "validator_slots_ok vs"
  shows "sum_list (map nslots (vsl_bands vs)) = 512" "vsl_index vs = band_index 0 (vsl_bands vs)" "length (vsl_bands vs) \<le> 512"
proof -
  show sum: "sum_list (map nslots (vsl_bands vs)) = 512" and "vsl_index vs = band_index 0 (vsl_bands vs)"
    using assms by (auto simp: validator_slots_ok_def validator_slots_new_Inr SLOTS_def dest: arg_cong [of vs _ vsl_index])
  have "sum_list (map (\<lambda>_. 1) (vsl_bands vs)) \<le> sum_list (map nslots (vsl_bands vs))"
    using assms by (intro sum_list_mono) (auto simp: validator_slots_ok_def Suc_le_eq unat_gt_0)
  with sum show "length (vsl_bands vs) \<le> 512"
    by (simp add: sum_list_triv)
qed

lemma set_get_slots:
  assumes "validator_slots_ok vs" "unat i < length (vsl_bands vs)"
  shows "get_slots vs i = map of_nat [band_offset (vsl_bands vs) (unat i) ..< band_offset (vsl_bands vs) (Suc (unat i))]"
    and "s \<in> set (get_slots vs i) \<longleftrightarrow> band_offset (vsl_bands vs) (unat i) \<le> unat s \<and> unat s < band_offset (vsl_bands vs) (Suc (unat i))"
proof -
  note d = validator_slots_okD [OF assms(1)]
  show eq: "get_slots vs i = map of_nat [band_offset (vsl_bands vs) (unat i) ..< band_offset (vsl_bands vs) (Suc (unat i))]"
    using assms(2) d(1) by (simp add: get_slots_def get_slots_loop_eq)
  have "band_offset (vsl_bands vs) (Suc (unat i)) \<le> 512"
    using band_offset_le_total [of "vsl_bands vs" "Suc (unat i)"] d(1) by simp
  then have "unat (of_nat x :: u16) = x" if "x < band_offset (vsl_bands vs) (Suc (unat i))" for x
    using that by (intro unat_of_nat_id) simp
  then show "s \<in> set (get_slots vs i) \<longleftrightarrow> band_offset (vsl_bands vs) (unat i) \<le> unat s \<and> unat s < band_offset (vsl_bands vs) (Suc (unat i))"
    unfolding eq by (auto intro!: image_eqI [of _ _ "unat s"])
qed

lemma get_band_number:
  assumes "validator_slots_ok vs"
  shows "get_band_number_by_slot_number vs s = Some i \<longleftrightarrow> unat i < length (vsl_bands vs) \<and> s \<in> set (get_slots vs i)"
proof -
  note d = validator_slots_okD [OF assms]
  have idx: "get_band_number_by_slot_number vs s = Some (of_nat j)"
    if "j < length (vsl_bands vs)" "band_offset (vsl_bands vs) j \<le> unat s" "unat s < band_offset (vsl_bands vs) (Suc j)" for j
    using that band_index_nth [OF that, of 0] band_offset_le_total [of "vsl_bands vs" "Suc j"] d(1)
    by (auto simp: get_band_number_by_slot_number_def slot_index_table_get_def d(2))
  show ?thesis
  proof
    assume some: "get_band_number_by_slot_number vs s = Some i"
    then have "unat s < sum_list (map nslots (vsl_bands vs))"
      by (auto simp: get_band_number_by_slot_number_def slot_index_table_get_def d(2) split: if_splits)
    then obtain j where j: "j < length (vsl_bands vs)" "band_offset (vsl_bands vs) j \<le> unat s" "unat s < band_offset (vsl_bands vs) (Suc j)"
      using band_of_slot by blast
    with idx some have "i = of_nat j" by simp
    moreover have "unat (of_nat j :: u16) = j"
      using j(1) d(3) by (intro unat_of_nat_id) simp
    ultimately show "unat i < length (vsl_bands vs) \<and> s \<in> set (get_slots vs i)"
      using j assms by (simp add: set_get_slots(2))
  next
    assume "unat i < length (vsl_bands vs) \<and> s \<in> set (get_slots vs i)"
    with assms idx [of "unat i"] show "get_band_number_by_slot_number vs s = Some i"
      by (auto simp: set_get_slots(2))
  qed
qed

text \<open>C37: A well-formed allocation partitions the slots among its bands: every slot number below the number of slots
  lies in the slots of exactly one band, which the lookup by slot number returns; other numbers have no band; and a
  band has as many slots as it says.\<close>

theorem slots_partition:
  assumes "validator_slots_ok vs"
  shows "(s < SLOTS \<longleftrightarrow> (\<exists>!i. unat i < length (vsl_bands vs) \<and> s \<in> set (get_slots vs i))) \<and>
    (get_by_slot_number vs s = Some b \<longleftrightarrow> (\<exists>i. get_by_band_number vs i = Some b \<and> s \<in> set (get_slots vs i))) \<and>
    (get_by_slot_number vs s = None \<longleftrightarrow> SLOTS \<le> s) \<and>
    (get_by_band_number vs i = Some b \<longrightarrow> length (get_slots vs i) = nslots b \<and> distinct (get_slots vs i))"
proof (intro conjI impI)
  note d = validator_slots_okD [OF assms]
  have none: "get_band_number_by_slot_number vs s = None \<longleftrightarrow> SLOTS \<le> s"
    using d by (auto simp: get_band_number_by_slot_number_def slot_index_table_get_def SLOTS_def word_le_nat_alt)
  show "s < SLOTS \<longleftrightarrow> (\<exists>!i. unat i < length (vsl_bands vs) \<and> s \<in> set (get_slots vs i))"
    unfolding get_band_number [OF assms, symmetric] using none by (cases "get_band_number_by_slot_number vs s") auto
  show some: "get_by_slot_number vs s = Some b \<longleftrightarrow> (\<exists>i. get_by_band_number vs i = Some b \<and> s \<in> set (get_slots vs i))"
    using get_band_number [OF assms, of s]
    by (auto simp: get_by_slot_number_def bind_eq_Some_conv get_by_band_number_def split: if_splits)
  show "get_by_slot_number vs s = None \<longleftrightarrow> SLOTS \<le> s"
    using none get_band_number [OF assms, of s]
    by (cases "get_band_number_by_slot_number vs s") (auto simp: get_by_slot_number_def get_by_band_number_def)
  assume "get_by_band_number vs i = Some b"
  then have i: "unat i < length (vsl_bands vs)" and b: "b = vsl_bands vs ! unat i"
    by (auto simp: get_by_band_number_def split: if_splits)
  show "length (get_slots vs i) = nslots b"
    using i b by (simp add: set_get_slots(1) [OF assms i] band_offset_Suc)
  have "inj_on (of_nat :: nat \<Rightarrow> u16) {..< 512}"
    by (rule inj_on_inverseI [where g = unat]) (simp add: unat_of_nat)
  moreover have "band_offset (vsl_bands vs) (Suc (unat i)) \<le> 512"
    using band_offset_le_total [of "vsl_bands vs" "Suc (unat i)"] d(1) by simp
  ultimately show "distinct (get_slots vs i)"
    unfolding set_get_slots(1) [OF assms i] by (auto simp: distinct_map elim!: inj_on_subset)
qed

definition example_slots :: validator_slots where
  "example_slots =
    (let bands = [\<lparr>vb_public_key = replicate 285 1, vb_reward_address = replicate 20 7, vb_num_slots = 300\<rparr>,
                  \<lparr>vb_public_key = replicate 285 2, vb_reward_address = replicate 20 8, vb_num_slots = 212\<rparr>] in
     \<lparr>vsl_bands = bands, vsl_index = band_index 0 bands\<rparr>)"

lemma example_slots_ok: "validator_slots_ok example_slots"
  by (simp add: validator_slots_ok_def example_slots_def Let_def validator_slots_new_Inr SLOTS_def bls_key_ok_def address_ok_def)

theorem slots_partition_witness:
  "\<exists>!i. unat i < length (vsl_bands example_slots) \<and> 305 \<in> set (get_slots example_slots i)"
  using slots_partition [OF example_slots_ok, of 305] by (simp add: SLOTS_def)

section \<open>The bitmap represents the allocation\<close>

text \<open>What \<open>BitVec<Msb0, u8>\<close> documents: eight bits per byte, no more bytes than needed, and the bits can be recovered.\<close>

definition packing_ok :: "bit_packing \<Rightarrow> bool" where
  "packing_ok bp \<longleftrightarrow> (\<forall>buf. length (bv_from_vec bp buf) = 8 * length buf) \<and>
    (\<forall>bits. length (bv_as_slice bp bits) = (length bits + 7) div 8) \<and>
    (\<forall>bits. take (length bits) (bv_from_vec bp (bv_as_slice bp bits)) = bits)"

definition band_bits :: "u16 \<Rightarrow> bool list" where
  "band_bits n = True # replicate (unat n - 1) False"

lemma length_band_bits: "n \<noteq> 0 \<Longrightarrow> length (band_bits n) = unat n"
  by (simp add: band_bits_def unat_gt_0 flip: word_neq_0_conv)

lemma length_concat_band_bits: "0 \<notin> set ns \<Longrightarrow> length (concat (map band_bits ns)) = sum_list (map unat ns)"
  by (induction ns) (auto simp: length_band_bits)

lemma allocation_loop_eq:
  "0 \<notin> set ns \<Longrightarrow> length pre + sum_list (map unat ns) = unat SLOTS \<Longrightarrow>
   allocation_loop ns (length pre) (pre @ replicate (sum_list (map unat ns)) False) = Inr (pre @ concat (map band_bits ns))"
proof (induction ns arbitrary: pre)
  case (Cons n ns)
  then have n: "n \<noteq> 0" "unat n = Suc (unat n - 1)" by (auto simp: unat_gt_0)
  have "replicate (unat n + sum_list (map unat ns)) False = False # replicate (unat n - 1) False @ replicate (sum_list (map unat ns)) False"
    by (subst n(2)) (simp add: replicate_add)
  then have "(pre @ replicate (sum_list (map unat (n # ns))) False)[length pre := True] =
      (pre @ band_bits n) @ replicate (sum_list (map unat ns)) False"
    by (simp add: list_update_append band_bits_def)
  moreover have "length pre + unat n = length (pre @ band_bits n)"
    using n by (simp add: length_band_bits)
  ultimately show ?case
    using Cons.IH [of "pre @ band_bits n"] Cons.prems n by (simp add: length_band_bits)
qed simp

lemma slot_allocation_from_iter_eq:
  "0 \<notin> set ns \<Longrightarrow> sum_list (map unat ns) = unat SLOTS \<Longrightarrow> slot_allocation_from_iter ns = Inr (concat (map band_bits ns))"
  using allocation_loop_eq [of ns "[]"] by (simp add: slot_allocation_from_iter_def)

lemma as_vec_loop_False: "as_vec_loop (replicate k False @ bs) c t = as_vec_loop bs (c + of_nat k) t"
  by (induction k arbitrary: c) (simp_all add: add.assoc)

lemma one_plus_pred_word: "1 + of_nat (unat n - 1) = n" if "n \<noteq> 0" for n :: "'a::len word"
proof -
  have "(of_nat (Suc (unat n - 1)) :: 'a word) = of_nat (unat n)"
    using that by (simp add: unat_gt_0 flip: word_neq_0_conv)
  then show ?thesis by simp
qed

lemma as_vec_loop_bands:
  "0 \<notin> set ns \<Longrightarrow> c \<noteq> 0 \<Longrightarrow> as_vec_loop (concat (map band_bits ns)) c t = (c # ns, t + c + sum_list ns)"
proof (induction ns arbitrary: c t)
  case (Cons n ns)
  then have "1 + of_nat (unat n - 1) = n"
    by (intro one_plus_pred_word) auto
  with Cons show ?case
    by (simp add: band_bits_def as_vec_loop_False word_gt_0 add.assoc)
qed simp

lemma as_vec_bands:
  assumes "0 \<notin> set ns" "sum_list (map unat ns) = unat SLOTS"
  shows "slot_allocation_as_vec (concat (map band_bits ns)) = Inr ns"
proof -
  obtain n ns' where ns: "ns = n # ns'"
    using assms(2) by (cases ns) (auto simp: SLOTS_def)
  have n: "n \<noteq> 0" "0 \<notin> set ns'"
    using assms(1) ns by auto
  have "1 + of_nat (unat n - 1) = n"
    using n(1) by (rule one_plus_pred_word)
  moreover have "sum_list ns = SLOTS"
  proof -
    have "sum_list ns = of_nat (sum_list (map unat ns))"
      by (induction ns) simp_all
    then show ?thesis using assms(2) by simp
  qed
  ultimately show ?thesis
    using n ns by (simp add: slot_allocation_as_vec_def band_bits_def as_vec_loop_False as_vec_loop_bands)
qed

lemma num_items_bands: "slot_allocation_num_items (concat (map band_bits ns)) = length ns"
  by (induction ns) (simp_all add: slot_allocation_num_items_def band_bits_def)

lemma dlift_simps [simp]: "dbind (dret x) f = f x" "dlift (Inr x) = dret x"
  by (simp_all add: dlift_def dbind_def dret_def fun_eq_iff)

lemma band_eta [simp]: "\<lparr>vb_public_key = vb_public_key b, vb_reward_address = vb_reward_address b, vb_num_slots = vb_num_slots b\<rparr> = b"
  for b :: validator_slot_band
  by simp

lemma encodes_bands:
  "\<forall>b \<in> set bands. bls_key_ok (vb_public_key b) \<and> address_ok (vb_reward_address b) \<Longrightarrow>
   encodes (wseqs (concat (map (\<lambda>b. [ser_bls_key (vb_public_key b), ser_address (vb_reward_address b)]) bands)))
     (read_bands (map vb_num_slots bands)) bands (305 * length bands)"
proof (induction bands)
  case (Cons b bands)
  let ?ws = "concat (map (\<lambda>b. [ser_bls_key (vb_public_key b), ser_address (vb_reward_address b)]) bands)"
  have "encodes (wseqs ?ws) (dbind (read_bands (map vb_num_slots bands)) (\<lambda>bs. dret (b # bs))) (b # bands) (305 * length bands)"
    using Cons by (intro encodes_last [OF Cons.IH]) auto
  then have "encodes (wseqs (ser_bls_key (vb_public_key b) # ser_address (vb_reward_address b) # ?ws))
      (read_bands (map vb_num_slots (b # bands))) (b # bands) (285 + (20 + 305 * length bands))"
    unfolding list.map read_bands.simps
    by (intro encodes_wseqs_Cons [OF bls_key.encoded] encodes_wseqs_Cons [OF address.encoded]) (use Cons.prems in \<open>simp_all add: band_eta\<close>)
  then show ?case
    by (simp del: wseqs.simps)
qed (simp add: encodes_ret)

lemma encodes_slot_allocation:
  assumes "packing_ok bp" "length bits = unat SLOTS"
  shows "encodes (ser_slot_allocation bp bits) (deser_slot_allocation bp) bits slot_allocation_SIZE"
proof -
  have "length (bv_as_slice bp bits) = slot_allocation_SIZE" "length (bv_from_vec bp (bv_as_slice bp bits)) = 512"
    "take 512 (bv_from_vec bp (bv_as_slice bp bits)) = bits"
    using assms spec [of "\<lambda>bits. take (length bits) (bv_from_vec bp (bv_as_slice bp bits)) = bits" bits]
    by (auto simp: packing_ok_def slot_allocation_SIZE_def SLOTS_def)
  then show ?thesis
    by (simp add: encodes_def ser_slot_allocation_def deser_slot_allocation_def dbind_def read_exact_def SLOTS_def resize_bits_def)
qed

interpretation validator_slots: codec "ser_validator_slots bp" "deser_validator_slots bp" size_validator_slots
    "\<lambda>vs. packing_ok bp \<and> validator_slots_ok vs" for bp
proof
  fix vs
  assume asm: "packing_ok bp \<and> validator_slots_ok vs"
  note d = validator_slots_okD [OF conjunct2 [OF asm]]
  let ?ns = "map vb_num_slots (vsl_bands vs)"
  have ns: "0 \<notin> set ?ns" "sum_list (map unat ?ns) = unat SLOTS"
    using asm d(1) by (auto simp: validator_slots_ok_def SLOTS_def comp_def)
  have new: "validator_slots_new (vsl_bands vs) = (Inr vs :: (validator_slots, serializing_error) result)"
    using asm by (simp add: validator_slots_ok_def validator_slots_new_Inr)
  have bands: "encodes (wseqs (concat (map (\<lambda>b. [ser_bls_key (vb_public_key b), ser_address (vb_reward_address b)]) (vsl_bands vs))))
      (dbind (read_bands ?ns) (\<lambda>bands. dlift (if length bands = length ?ns then validator_slots_new bands else Inl Panic))) vs
      (305 * length (vsl_bands vs))"
    by (rule encodes_last [OF encodes_bands]) (use asm new in \<open>auto simp: validator_slots_ok_def\<close>)
  have "encodes (ser_validator_slots bp vs) (deser_validator_slots bp) vs (slot_allocation_SIZE + 305 * length (vsl_bands vs))"
    unfolding ser_validator_slots_def deser_validator_slots_def slot_allocation_from_iter_eq [OF ns] rbind_Inr
    by (rule encodes_wseqs_Cons [OF encodes_slot_allocation])
      (use asm bands ns in \<open>simp_all add: length_concat_band_bits as_vec_bands num_items_bands del: map_map\<close>)
  then show "encodes (ser_validator_slots bp vs) (deser_validator_slots bp) vs (size_validator_slots vs)"
    by (simp add: size_validator_slots_def add.commute)
qed

section \<open>Malformed bitmaps\<close>

lemma as_vec_loop_any:
  "unat c + length bs < 2 ^ 16 \<Longrightarrow> as_vec_loop bs c t = (v, t') \<Longrightarrow>
   sum_list (map unat v) = unat c + length bs \<and> t' = t + (c + of_nat (length bs)) \<and>
   (c \<noteq> 0 \<longrightarrow> length v = Suc (slot_allocation_num_items bs))"
proof (induction bs arbitrary: c t v t')
  case (Cons b bs)
  have Suc: "unat (c + 1) = unat c + 1"
    using Cons.prems(1) by (simp add: unat_word_ariths)
  show ?case
  proof (cases "b \<and> c > 0")
    case True
    then show ?thesis
      using Cons.prems Cons.IH [of 1 "t + c"]
      by (auto simp: slot_allocation_num_items_def split: prod.splits)
  next
    case False
    then have "c \<noteq> 0 \<Longrightarrow> \<not> b"
      by (auto simp: word_gt_0)
    moreover have "c + 1 \<noteq> 0"
      using Suc by (metis Suc_eq_plus1 nat.simps(3) unat_0)
    ultimately show ?thesis
      using False Cons.prems Cons.IH [of "c + 1" t v t'] Suc
      by (auto simp: slot_allocation_num_items_def)
  qed
qed (auto simp: slot_allocation_num_items_def)

lemma as_vec_any:
  assumes "length bits = unat SLOTS"
  obtains v where "slot_allocation_as_vec bits = Inr v" "sum_list (map unat v) = unat SLOTS"
    "length v = slot_allocation_num_items bits + (if hd bits then 0 else 1)"
proof -
  obtain b bs where bits: "bits = b # bs"
    using assms by (cases bits) (auto simp: SLOTS_def)
  obtain v t' where loop: "as_vec_loop bs 1 0 = (v, t')"
    by fastforce
  have len: "length bs = 511"
    using assms bits by (simp add: SLOTS_def)
  from as_vec_loop_any [OF _ loop] len have v: "sum_list (map unat v) = 512" "t' = 512" "length v = Suc (slot_allocation_num_items bs)"
    by simp_all
  then have "slot_allocation_as_vec bits = Inr v"
    by (simp add: slot_allocation_as_vec_def bits loop SLOTS_def)
  moreover have "length v = slot_allocation_num_items bits + (if hd bits then 0 else 1)"
    using v(3) by (simp add: bits slot_allocation_num_items_def)
  ultimately show ?thesis
    using that v(1) by (simp add: SLOTS_def)
qed

lemma read_bands_any:
  "(length bs < 305 * length ns \<and> read_bands ns bs = Inl (Err (IoError UnexpectedEof))) \<or>
   (305 * length ns \<le> length bs \<and> (\<exists>bands. read_bands ns bs = Inr (bands, drop (305 * length ns) bs) \<and> map vb_num_slots bands = ns))"
proof (induction ns arbitrary: bs)
  case (Cons n ns)
  show ?case
    using Cons [of "drop 305 bs"]
    by (auto simp: dbind_def dret_def deser_bls_key_def deser_address_def deser_array_def read_exact_def add.commute [of 305])
qed (simp add: dret_def)

text \<open>C40: Reading the slots of a block panics, for a bitmap and enough further bytes that anyone can supply, exactly when the
  first bit of the bitmap is clear.\<close>

theorem deser_validator_slots_panics:
  assumes "packing_ok bp"
  shows "deser_validator_slots bp bs = Inl Panic \<longleftrightarrow>
    slot_allocation_SIZE \<le> length bs \<and>
    (let bits = bv_from_vec bp (take slot_allocation_SIZE bs) in
     \<not> hd bits \<and> slot_allocation_SIZE + 305 * (slot_allocation_num_items bits + 1) \<le> length bs)"
proof (cases "slot_allocation_SIZE \<le> length bs")
  case False
  then show ?thesis
    by (simp add: deser_validator_slots_def deser_slot_allocation_def dbind_def read_exact_def)
next
  case True
  define bits where "bits = bv_from_vec bp (take slot_allocation_SIZE bs)"
  have len: "length bits = unat SLOTS"
    using True assms by (simp add: bits_def packing_ok_def slot_allocation_SIZE_def SLOTS_def)
  have read: "deser_slot_allocation bp bs = Inr (bits, drop slot_allocation_SIZE bs)"
    using True len by (simp add: deser_slot_allocation_def dbind_def read_exact_def bits_def [symmetric] resize_bits_def)
  obtain v where v: "slot_allocation_as_vec bits = (Inr v :: (u16 list, serializing_error) result)" "sum_list (map unat v) = unat SLOTS"
      "length v = slot_allocation_num_items bits + (if hd bits then 0 else 1)"
    using as_vec_any [OF len] by metis
  have new: "\<exists>vs. validator_slots_new bands = (Inr vs :: (validator_slots, serializing_error) result)" if "map vb_num_slots bands = v" for bands
    using v(2) that by (auto simp: validator_slots_new_Inr comp_def)
  have deser: "deser_validator_slots bp bs =
      dbind (read_bands v) (\<lambda>bands. dlift (if length bands = slot_allocation_num_items bits then validator_slots_new bands else Inl Panic))
        (drop slot_allocation_SIZE bs)"
    using read v(1) by (simp add: deser_validator_slots_def dbind_def dret_def)
  consider
      "length (drop slot_allocation_SIZE bs) < 305 * length v" "read_bands v (drop slot_allocation_SIZE bs) = Inl (Err (IoError UnexpectedEof))"
    | bands rest where "305 * length v \<le> length (drop slot_allocation_SIZE bs)" "read_bands v (drop slot_allocation_SIZE bs) = Inr (bands, rest)"
        "map vb_num_slots bands = v"
    using read_bands_any [of "drop slot_allocation_SIZE bs" v] by blast
  then show ?thesis
  proof cases
    case 1
    then show ?thesis
      using deser v(3) by (auto simp: dbind_def bits_def [symmetric])
  next
    case (2 bands rest)
    moreover obtain vs where "validator_slots_new bands = (Inr vs :: (validator_slots, serializing_error) result)"
      using new [OF 2(3)] by blast
    moreover have "length bands = length v"
      using 2(3) by auto
    ultimately show ?thesis
      using deser v(3) True by (auto simp: dbind_def dlift_def dret_def bits_def [symmetric])
  qed
qed

section \<open>Most significant bit first\<close>

text \<open>The packing that the crate documents for \<open>Msb0\<close>, as an instance of the parameter.\<close>

definition pad8 :: "bool list \<Rightarrow> bool list" where
  "pad8 bits = take 8 bits @ replicate (8 - length bits) False"

definition msb_byte :: "bool list \<Rightarrow> u8" where
  "msb_byte bits = horner_sum of_bool 2 (rev (pad8 bits))"

definition msb_bits :: "u8 \<Rightarrow> bool list" where
  "msb_bits b = map (\<lambda>i. bit b (7 - i)) [0..<8]"

function msb_pack :: "bool list \<Rightarrow> bytes" where
  "msb_pack bits = (if bits = [] then [] else msb_byte bits # msb_pack (drop 8 bits))"
  by pat_completeness auto
termination
  by (relation "measure length") auto

declare msb_pack.simps [simp del]

definition msb0_packing :: bit_packing where
  "msb0_packing = \<lparr>bv_as_slice = msb_pack, bv_from_vec = \<lambda>buf. concat (map msb_bits buf)\<rparr>"

lemma length_pad8 [simp]: "length (pad8 bits) = 8"
  by (simp add: pad8_def)

lemma msb_bits_byte: "msb_bits (msb_byte bits) = pad8 bits"
  by (rule nth_equalityI) (auto simp: msb_bits_def msb_byte_def bit_horner_sum_bit_iff rev_nth)

lemma length_msb_bits [simp]: "length (msb_bits b) = 8"
  by (simp add: msb_bits_def)

lemma msb_pack_bits: "length (msb_pack bits) = (length bits + 7) div 8 \<and> take (length bits) (concat (map msb_bits (msb_pack bits))) = bits"
proof (induction bits rule: msb_pack.induct)
  case (1 bits)
  show ?case
  proof (cases "bits = []")
    case False
    then have pos: "0 < length bits" by simp
    have IH: "length (msb_pack (drop 8 bits)) = (length bits - 8 + 7) div 8"
        "take (length bits - 8) (concat (map msb_bits (msb_pack (drop 8 bits)))) = drop 8 bits"
      using 1 [OF False] by simp_all
    have "(length bits + 7) div 8 = Suc ((length bits - 8 + 7) div 8)"
      using pos by (cases "length bits \<ge> 8") (auto simp: div_if)
    moreover have "take (length bits) (pad8 bits @ xs) = take 8 bits @ take (length bits - 8) xs" for xs
      by (cases "length bits \<ge> 8") (auto simp: pad8_def min_def)
    ultimately show ?thesis
      using IH False by (simp add: msb_pack.simps [of bits] msb_bits_byte)
  qed (simp add: msb_pack.simps)
qed

lemma msb0_packing_ok: "packing_ok msb0_packing"
  using msb_pack_bits by (auto simp: packing_ok_def msb0_packing_def length_concat comp_def sum_list_triv)

theorem deser_validator_slots_panics_witness:
  "deser_validator_slots msb0_packing (replicate 500 0) = Inl Panic"
proof -
  have "bv_from_vec msb0_packing (replicate 64 0) = replicate 512 False"
    by (simp add: msb0_packing_def msb_bits_def concat_replicate_trivial map_replicate_const numeral_eq_Suc)
  then show ?thesis
    using deser_validator_slots_panics [OF msb0_packing_ok, of "replicate 500 0"]
    by (simp add: slot_allocation_SIZE_def SLOTS_def slot_allocation_num_items_def)
qed

text \<open>C38: The slots of a well-formed allocation are read back from their byte format, in the announced number of
  bytes.\<close>

theorem validator_slots_wire_roundtrip:
  assumes "packing_ok bp" "validator_slots_ok vs"
  shows "\<exists>bytes. ser_validator_slots bp vs = Inr bytes \<and> length bytes = size_validator_slots vs \<and>
    (\<forall>rest. deser_validator_slots bp (bytes @ rest) = Inr (vs, rest))"
  using validator_slots.encoded [of bp vs] assms by (simp add: encodes_def)

theorem validator_slots_wire_roundtrip_witness:
  "\<exists>bytes. ser_validator_slots msb0_packing example_slots = Inr bytes \<and> length bytes = 674 \<and>
    deser_validator_slots msb0_packing bytes = Inr (example_slots, [])"
proof -
  have "size_validator_slots example_slots = 674"
    by (simp add: size_validator_slots_def example_slots_def Let_def slot_allocation_SIZE_def SLOTS_def)
  with validator_slots_wire_roundtrip [OF msb0_packing_ok example_slots_ok] show ?thesis
    by (metis append_Nil2)
qed

section \<open>Building an allocation from drawn slots\<close>

abbreviation pushes :: "(bls_public_key \<times> address) list \<Rightarrow> slots_builder" where
  "pushes ps \<equiv> foldl (\<lambda>sb (k, a). slots_builder_push k a sb) slots_builder_default ps"

abbreviation drawn :: "(bls_public_key \<times> address) list \<Rightarrow> bls_public_key \<Rightarrow> nat" where
  "drawn ps k \<equiv> count_list (map fst ps) k"

lemma pushes_get:
  "om_inv (sb_validators (pushes ps)) \<and>
   om_get (sb_validators (pushes ps)) k = map_option (\<lambda>a. (a, of_nat (drawn ps k))) (map_of ps k)"
proof (induction ps arbitrary: k rule: rev_induct)
  case (snoc p ps)
  obtain k' a where p: "p = (k', a)" by (cases p)
  have none: "drawn ps k = 0" if "map_of ps k = None"
    using that by (simp add: map_of_eq_None_iff count_list_0_iff)
  show ?case
    using snoc [of k'] snoc [of k] none
    by (auto simp: p slots_builder_push_def map_add_def Let_def split: option.splits prod.splits)
qed (simp add: slots_builder_default_def)

lemma pushes_total:
  "length ps < 2 ^ 16 \<Longrightarrow> om_total (\<lambda>(a, n). unat n) (sb_validators (pushes ps)) = length ps"
proof (induction ps rule: rev_induct)
  case (snoc p ps)
  obtain k a where p: "p = (k, a)" by (cases p)
  note inv = conjunct1 [OF pushes_get] and get = conjunct2 [OF pushes_get]
  have IH: "om_total (\<lambda>(a, n). unat n) (sb_validators (pushes ps)) = length ps"
    using snoc by simp
  show ?case
  proof (cases "map_of ps k")
    case None
    then show ?thesis
      using om.total_ins_absent [OF inv, of ps k "\<lambda>(a, n). unat n" "(a, 1)"] IH get [of ps k]
      by (simp add: p slots_builder_push_def)
  next
    case (Some a')
    have "drawn ps k < 2 ^ 16 - 1"
      using snoc.prems count_le_length [of "map fst ps" k] by simp
    then have "unat (of_nat (drawn ps k) + 1 :: u16) = unat (of_nat (drawn ps k) :: u16) + 1"
      by (simp add: unat_word_ariths unat_of_nat)
    then show ?thesis
      using om.total_ins_present [OF inv, of ps k "(a', of_nat (drawn ps k))" "\<lambda>(a, n). unat n" "(a', of_nat (drawn ps k) + 1)"]
        IH get [of ps k] Some
      by (simp add: p slots_builder_push_def)
  qed
qed (simp add: slots_builder_default_def om.total_empty)

text \<open>C39: Building an allocation from as many drawn slots as there are slots gives every validator a band, in the order of the
  keys, with the number of slots drawn for it and the reward address it was first drawn with; with any other number of
  drawn slots it panics.\<close>

theorem slots_builder_counts:
  assumes "length ps < 2 ^ 16"
  shows "if length ps = unat SLOTS
    then \<exists>vs. slots_builder_build (pushes ps) = (Inr \<lparr>slots_validator_slots = vs\<rparr> :: (slots, 'e) result) \<and>
      sorted_wrt (<) (map vb_public_key (vsl_bands vs)) \<and>
      set (vsl_bands vs) =
        (\<lambda>k. \<lparr>vb_public_key = k, vb_reward_address = the (map_of ps k), vb_num_slots = of_nat (drawn ps k)\<rparr>) ` fst ` set ps
    else slots_builder_build (pushes ps) = (Inl Panic :: (slots, 'e) result)"
proof -
  let ?band = "\<lambda>(k, a, n). \<lparr>vb_public_key = k, vb_reward_address = a, vb_num_slots = n\<rparr>"
  let ?m = "sb_validators (pushes ps)"
  have inv: "om_inv ?m" and get: "om_get ?m k = map_option (\<lambda>a. (a, of_nat (drawn ps k))) (map_of ps k)" for k
    using pushes_get by blast+
  have sum: "sum_list (map nslots (map ?band ?m)) = length ps"
    using pushes_total [OF assms] by (simp add: om_total_def comp_def case_prod_unfold)
  have sorted: "sorted_wrt (<) (map vb_public_key (map ?band ?m))"
    using inv by (simp add: om_inv_def comp_def case_prod_unfold)
  have mem: "(k, a, n) \<in> set ?m \<longleftrightarrow> map_of ps k = Some a \<and> n = of_nat (drawn ps k)" for k a n
    by (subst om_get_in_set [OF inv, symmetric]) (auto simp: get)
  have "set (map ?band ?m) = (\<lambda>k. \<lparr>vb_public_key = k, vb_reward_address = the (map_of ps k), vb_num_slots = of_nat (drawn ps k)\<rparr>) ` fst ` set ps"
  proof (intro equalityI subsetI)
    fix b
    assume "b \<in> set (map ?band ?m)"
    then show "b \<in> (\<lambda>k. \<lparr>vb_public_key = k, vb_reward_address = the (map_of ps k), vb_num_slots = of_nat (drawn ps k)\<rparr>) ` fst ` set ps"
      using mem by (auto dest!: map_of_SomeD intro!: image_eqI)
  next
    fix b
    assume "b \<in> (\<lambda>k. \<lparr>vb_public_key = k, vb_reward_address = the (map_of ps k), vb_num_slots = of_nat (drawn ps k)\<rparr>) ` fst ` set ps"
    then obtain k a where "map_of ps k = Some a" "b = ?band (k, a, of_nat (drawn ps k))"
      by (auto simp: dest: weak_map_of_SomeI)
    then show "b \<in> set (map ?band ?m)"
      using mem by force
  qed
  with sum sorted show ?thesis
    by (auto simp: slots_builder_build_def validator_slots_new_def slot_index_table_new_def Let_def band_index_def [symmetric])
qed

lemma replicate_pushes: "0 < n \<Longrightarrow> map_of (replicate n (k, a)) k = Some a" "count_list (replicate n x) x = n"
  by (induction n) auto

theorem slots_builder_counts_witness:
  "\<exists>vs. slots_builder_build (pushes (replicate 512 ([1], [2]))) = (Inr \<lparr>slots_validator_slots = vs\<rparr> :: (slots, unit) result) \<and>
    set (vsl_bands vs) = {\<lparr>vb_public_key = [1], vb_reward_address = [2], vb_num_slots = 512\<rparr>}"
  using slots_builder_counts [of "replicate 512 ([1], [2])", where 'e = unit]
  by (auto simp: SLOTS_def replicate_pushes)

end
