(* ===== verification/Staking_Contract.thy ===== *)
theory Staking_Contract
  imports Account_Base Slots Bitset
begin

text \<open>
  The staking contract (\<open>primitives/account/src/staking_contract\<close>): validators with the stakes delegated to them, inactive
  validators and stakes, parking lists, lost rewards and disabled slots, and the actions of validators and
  stakers.  The sources hold a validator behind an \<open>Arc\<close> in two containers; every action takes it out of both before
  it changes it, so the model stores the value in both.
\<close>

section \<open>Validators (\<open>validator.rs\<close>)\<close>

record validator =
  va_balance :: coin
  va_reward_address :: address
  va_validator_key :: bls_public_key
  va_stakes :: "(address, coin) omap"

definition validator_new :: "coin \<Rightarrow> address \<Rightarrow> bls_public_key \<Rightarrow> validator" where
  "validator_new b a k = \<lparr>va_balance = b, va_reward_address = a, va_validator_key = k, va_stakes = []\<rparr>"

definition va_update_validator :: "address option \<Rightarrow> bls_public_key option \<Rightarrow> validator \<Rightarrow> validator" where
  "va_update_validator a k v =
    \<lparr>va_balance = va_balance v,
     va_reward_address = (case a of Some a' \<Rightarrow> a' | None \<Rightarrow> va_reward_address v),
     va_validator_key = (case k of Some k' \<Rightarrow> k' | None \<Rightarrow> va_validator_key v),
     va_stakes = va_stakes v\<rparr>"

definition with_balance :: "coin \<Rightarrow> validator \<Rightarrow> validator" where
  "with_balance b v = v\<lparr>va_balance := b\<rparr>"

definition add_stake :: "address \<Rightarrow> coin \<Rightarrow> validator \<Rightarrow> (validator, account_error) result" where
  "add_stake a s v =
    rbind (balance_add (va_balance v) s) (\<lambda>b.
    let v' = with_balance b v; old = (case om_get (va_stakes v') a of Some c \<Rightarrow> c | None \<Rightarrow> coin_ZERO) in
    Inr (v'\<lparr>va_stakes := om_insert a (coin_add old s) (va_stakes v')\<rparr>))"

text \<open>\<open>sub_stake\<close> changes the stakes of the validator it is called on before it checks the validator's
  balance: the second component is that validator afterwards.\<close>

definition sub_stake :: "address \<Rightarrow> coin \<Rightarrow> account_error \<Rightarrow> validator \<Rightarrow> (validator, account_error) result \<times> validator" where
  "sub_stake a s not_present v =
    (case om_get (va_stakes v) a of
       None \<Rightarrow> (Inl (Err not_present), v)
     | Some old \<Rightarrow>
         sbind (balance_sub old s, v) (\<lambda>new v.
         let v1 = v\<lparr>va_stakes := if coin_is_zero new then om_remove a (va_stakes v) else om_insert a new (va_stakes v)\<rparr> in
         sbind (balance_sub (va_balance v1) s, v1) (\<lambda>b v1. (Inr (with_balance b v1), v1))))"

definition validator_cmp :: "validator \<Rightarrow> validator \<Rightarrow> cmp_ordering" where
  "validator_cmp a b =
    then_with (ord_cmp (va_balance b) (va_balance a)) (ord_cmp (va_validator_key a) (va_validator_key b))"

record inactive_validator =
  iv_validator :: validator
  iv_retire_time :: u32

datatype validator_entry = VE_Active validator "account_error option" | VE_Inactive inactive_validator "account_error option"

fun as_validator :: "validator_entry \<Rightarrow> validator" where
  "as_validator (VE_Active v _) = v"
| "as_validator (VE_Inactive iv _) = iv_validator iv"

text \<open>\<open>replace\<close>; a panic of the function that computes the argument ends the call (neither caller panics).\<close>

fun set_entry_validator :: "validator \<Rightarrow> validator_entry \<Rightarrow> validator_entry" where
  "set_entry_validator v (VE_Active _ err) = VE_Active v err"
| "set_entry_validator v (VE_Inactive iv err) = VE_Inactive (iv\<lparr>iv_validator := v\<rparr>) err"

fun set_entry_error :: "account_error \<Rightarrow> validator_entry \<Rightarrow> validator_entry" where
  "set_entry_error e (VE_Active v _) = VE_Active v (Some e)"
| "set_entry_error e (VE_Inactive iv _) = VE_Inactive iv (Some e)"

fun entry_replace :: "(validator, account_error) result \<Rightarrow> validator_entry \<Rightarrow> validator_entry" where
  "entry_replace (Inr v) en = set_entry_validator v en"
| "entry_replace (Inl (Err e)) en = set_entry_error e en"
| "entry_replace (Inl Panic) en = en"

definition entry_update_validator :: "address option \<Rightarrow> bls_public_key option \<Rightarrow> validator_entry \<Rightarrow> validator_entry" where
  "entry_update_validator a k en = entry_replace (Inr (va_update_validator a k (as_validator en))) en"

definition try_add_stake :: "address \<Rightarrow> coin \<Rightarrow> validator_entry \<Rightarrow> validator_entry" where
  "try_add_stake a s en = entry_replace (add_stake a s (as_validator en)) en"

definition try_sub_stake :: "address \<Rightarrow> coin \<Rightarrow> account_error \<Rightarrow> validator_entry \<Rightarrow> validator_entry" where
  "try_sub_stake a s not_present en =
    (case sub_stake a s not_present (as_validator en) of (r, v') \<Rightarrow> entry_replace r (set_entry_validator v' en))"

text \<open>\<open>BTreeSet<Arc<Validator>>\<close>: a list that is sorted by \<open>validator_cmp\<close>; inserting keeps an element that compares
  equal.\<close>

fun vset_insert :: "validator \<Rightarrow> validator list \<Rightarrow> validator list" where
  "vset_insert v [] = [v]"
| "vset_insert v (w # ws) =
    (case validator_cmp v w of Less \<Rightarrow> v # w # ws | Equal \<Rightarrow> w # ws | Greater \<Rightarrow> w # vset_insert v ws)"

definition vset_remove :: "validator \<Rightarrow> validator list \<Rightarrow> validator list" where
  "vset_remove v ws = filter (\<lambda>w. validator_cmp v w \<noteq> Equal) ws"

section \<open>The contract (\<open>mod.rs\<close>)\<close>

record inactive_stake =
  is_balance :: coin
  is_retire_time :: u32

record slash_receipt =
  newly_parked :: bool
  newly_disabled :: bool
  newly_lost_rewards :: bool

type_synonym disabled_slots = "(bls_public_key, u16 oset) omap"

record staking_contract =
  sc_balance :: coin
  active_validators_sorted :: "validator list"
  active_validators_by_key :: "(bls_public_key, validator) omap"
  inactive_stake_by_address :: "(address, inactive_stake) omap"
  inactive_validators_by_key :: "(bls_public_key, inactive_validator) omap"
  current_epoch_parking :: "bls_public_key oset"
  previous_epoch_parking :: "bls_public_key oset"
  current_lost_rewards :: bitset
  previous_lost_rewards :: bitset
  current_disabled_slots :: disabled_slots
  previous_disabled_slots :: disabled_slots

definition staking_contract_default :: staking_contract where
  "staking_contract_default =
    \<lparr>sc_balance = coin_ZERO, active_validators_sorted = [], active_validators_by_key = [], inactive_stake_by_address = [],
     inactive_validators_by_key = [], current_epoch_parking = [], previous_epoch_parking = [],
     current_lost_rewards = bitset_new, previous_lost_rewards = bitset_new,
     current_disabled_slots = [], previous_disabled_slots = []\<rparr>"

definition get_validator :: "bls_public_key \<Rightarrow> staking_contract \<Rightarrow> validator option" where
  "get_validator k c =
    (case om_get (active_validators_by_key c) k of
       Some v \<Rightarrow> Some v
     | None \<Rightarrow> map_option iv_validator (om_get (inactive_validators_by_key c) k))"

definition get_active_stake :: "bls_public_key \<Rightarrow> address \<Rightarrow> staking_contract \<Rightarrow> coin option" where
  "get_active_stake k a c = Option.bind (om_get (active_validators_by_key c) k) (\<lambda>v. om_get (va_stakes v) a)"

definition remove_validator :: "bls_public_key \<Rightarrow> staking_contract \<Rightarrow> validator_entry option \<times> staking_contract" where
  "remove_validator k c =
    (case om_get (active_validators_by_key c) k of
       Some v \<Rightarrow>
         (Some (VE_Active v None),
          c\<lparr>active_validators_by_key := om_remove k (active_validators_by_key c),
            active_validators_sorted := vset_remove v (active_validators_sorted c)\<rparr>)
     | None \<Rightarrow>
         (case om_get (inactive_validators_by_key c) k of
            Some iv \<Rightarrow> (Some (VE_Inactive iv None), c\<lparr>inactive_validators_by_key := om_remove k (inactive_validators_by_key c)\<rparr>)
          | None \<Rightarrow> (None, c)))"

definition entry_result :: "account_error option \<Rightarrow> (unit, account_error) result" where
  "entry_result err = (case err of Some e \<Rightarrow> Inl (Err e) | None \<Rightarrow> Inr ())"

fun restore_validator :: "validator_entry \<Rightarrow> staking_contract \<Rightarrow> (unit, account_error) result \<times> staking_contract" where
  "restore_validator (VE_Active v err) c =
    (entry_result err,
     c\<lparr>active_validators_sorted := vset_insert v (active_validators_sorted c),
       active_validators_by_key := om_insert (va_validator_key v) v (active_validators_by_key c)\<rparr>)"
| "restore_validator (VE_Inactive iv err) c =
    (entry_result err,
     c\<lparr>inactive_validators_by_key := om_insert (va_validator_key (iv_validator iv)) iv (inactive_validators_by_key c)\<rparr>)"

definition get_self_signer :: "crypto \<Rightarrow> transaction \<Rightarrow> (address, account_error) result" where
  "get_self_signer cr tx =
    rbind (map_err AE_InvalidSerialization (deser_signature_proof cr (tx_proof tx))) (\<lambda>(sp, _). Inr (compute_signer cr sp))"

text \<open>The nested loops over the disabled slots of all validators.\<close>

definition disabled_bitset :: "disabled_slots \<Rightarrow> bitset" where
  "disabled_bitset m = foldl (\<lambda>s x. bitset_insert (unat x) s) bitset_new (concat (map snd m))"

definition sc_previous_disabled_slots :: "staking_contract \<Rightarrow> bitset" where
  "sc_previous_disabled_slots c = disabled_bitset (previous_disabled_slots c)"

definition sc_current_disabled_slots :: "staking_contract \<Rightarrow> bitset" where
  "sc_current_disabled_slots c = disabled_bitset (current_disabled_slots c)"

section \<open>Actions of stakers (\<open>actions/staker.rs\<close>)\<close>

type_synonym 'r action = "staking_contract \<Rightarrow> ('r, account_error) result \<times> staking_contract"

record inactive_stake_receipt =
  isr_retire_time :: u32

definition ok_or_entry :: "account_error \<Rightarrow> validator_entry option \<times> staking_contract \<Rightarrow> (validator_entry, account_error) result \<times> staking_contract" where
  "ok_or_entry e r = (case r of (en, c) \<Rightarrow> (ok_or e en, c))"

definition stake :: "address \<Rightarrow> coin \<Rightarrow> bls_public_key \<Rightarrow> unit action" where
  "stake a s k c =
    sbind (balance_add (sc_balance c) s, c) (\<lambda>new_balance c.
    sbind (ok_or_entry AE_InvalidForRecipient (remove_validator k c)) (\<lambda>en c.
    sbind (restore_validator (try_add_stake a s en) c) (\<lambda>_ c.
    (Inr (), c\<lparr>sc_balance := new_balance\<rparr>))))"

definition revert_stake :: "address \<Rightarrow> coin \<Rightarrow> bls_public_key \<Rightarrow> unit action" where
  "revert_stake a s k c =
    sbind (balance_sub (sc_balance c) s, c) (\<lambda>new_balance c.
    sbind (ok_or_entry AE_InvalidForRecipient (remove_validator k c)) (\<lambda>en c.
    sbind (restore_validator (try_sub_stake a s AE_InvalidForRecipient en) c) (\<lambda>_ c.
    (Inr (), c\<lparr>sc_balance := new_balance\<rparr>))))"

definition retire_sender :: "address \<Rightarrow> coin \<Rightarrow> bls_public_key \<Rightarrow> unit action" where
  "retire_sender a s k c =
    sbind (balance_sub (sc_balance c) s, c) (\<lambda>new_balance c.
    sbind (ok_or_entry AE_InvalidForSender (remove_validator k c)) (\<lambda>en c.
    sbind (restore_validator (try_sub_stake a s AE_InvalidForSender en) c) (\<lambda>_ c.
    (Inr (), c\<lparr>sc_balance := new_balance\<rparr>))))"

definition revert_retire_sender :: "address \<Rightarrow> coin \<Rightarrow> bls_public_key \<Rightarrow> unit action" where
  "revert_retire_sender a s k c =
    sbind (balance_add (sc_balance c) s, c) (\<lambda>new_balance c.
    sbind (ok_or_entry AE_InvalidForSender (remove_validator k c)) (\<lambda>en c.
    sbind (restore_validator (try_add_stake a s en) c) (\<lambda>_ c.
    (Inr (), c\<lparr>sc_balance := new_balance\<rparr>))))"

definition retire_recipient :: "address \<Rightarrow> coin \<Rightarrow> u32 option \<Rightarrow> inactive_stake_receipt option action" where
  "retire_recipient a s t c =
    (if \<not> om_contains (inactive_stake_by_address c) a \<and> t = None then (Inl (Err AE_InvalidReceipt), c)
     else
       sbind (balance_add (sc_balance c) s, c) (\<lambda>b c.
       let c = c\<lparr>sc_balance := b\<rparr> in
       case om_get (inactive_stake_by_address c) a of
         Some old \<Rightarrow>
           let c = c\<lparr>inactive_stake_by_address := om_remove a (inactive_stake_by_address c)\<rparr> in
           sbind (balance_add (is_balance old) s, c) (\<lambda>nb c.
           (Inr (Some \<lparr>isr_retire_time = is_retire_time old\<rparr>),
            c\<lparr>inactive_stake_by_address :=
                om_insert a \<lparr>is_balance = nb, is_retire_time = (case t of Some t' \<Rightarrow> t' | None \<Rightarrow> is_retire_time old)\<rparr>
                  (inactive_stake_by_address c)\<rparr>))
       | None \<Rightarrow>
           (case t of
              None \<Rightarrow> (Inl Panic, c)
            | Some t' \<Rightarrow>
                (Inr None,
                 c\<lparr>inactive_stake_by_address := om_insert a \<lparr>is_balance = s, is_retire_time = t'\<rparr> (inactive_stake_by_address c)\<rparr>))))"

definition reactivate_sender :: "address \<Rightarrow> coin \<Rightarrow> u32 option \<Rightarrow> inactive_stake_receipt option action" where
  "reactivate_sender a s t c =
    (case om_get (inactive_stake_by_address c) a of
       None \<Rightarrow> (Inl (Err AE_InvalidForRecipient), c)
     | Some old \<Rightarrow>
         let c = c\<lparr>inactive_stake_by_address := om_remove a (inactive_stake_by_address c)\<rparr> in
         sbind (balance_sub (sc_balance c) s, c) (\<lambda>b c.
         let c = c\<lparr>sc_balance := b\<rparr> in
         if is_balance old > s then
           sbind (balance_sub (is_balance old) s, c) (\<lambda>nb c.
           (Inr None,
            c\<lparr>inactive_stake_by_address :=
                om_insert a \<lparr>is_balance = nb, is_retire_time = (case t of Some t' \<Rightarrow> t' | None \<Rightarrow> is_retire_time old)\<rparr>
                  (inactive_stake_by_address c)\<rparr>))
         else (Inr (Some \<lparr>isr_retire_time = is_retire_time old\<rparr>), c)))"

text \<open>\<open>.map(|_| ())\<close>\<close>

definition discard :: "('a, account_error) result \<times> staking_contract \<Rightarrow> (unit, account_error) result \<times> staking_contract" where
  "discard r = sbind r (\<lambda>_ c. (Inr (), c))"

definition revert_retire_recipient :: "address \<Rightarrow> coin \<Rightarrow> inactive_stake_receipt option \<Rightarrow> unit action" where
  "revert_retire_recipient a s receipt c =
    (case om_get (inactive_stake_by_address c) a of
       None \<Rightarrow> (Inl (Err AE_InvalidForRecipient), c)
     | Some old \<Rightarrow>
         if (is_balance old > s) \<noteq> (receipt \<noteq> None) then (Inl (Err AE_InvalidForRecipient), c)
         else discard (reactivate_sender a s (Some (case receipt of Some r \<Rightarrow> isr_retire_time r | None \<Rightarrow> 0)) c))"

definition revert_reactivate_sender :: "address \<Rightarrow> coin \<Rightarrow> inactive_stake_receipt option \<Rightarrow> unit action" where
  "revert_reactivate_sender a s receipt c = discard (retire_recipient a s (map_option isr_retire_time receipt) c)"

definition reactivate_recipient :: "address \<Rightarrow> coin \<Rightarrow> bls_public_key \<Rightarrow> unit action" where
  "reactivate_recipient a s k c = stake a s k c"

definition revert_reactivate_recipient :: "address \<Rightarrow> coin \<Rightarrow> bls_public_key \<Rightarrow> unit action" where
  "revert_reactivate_recipient a s k c = revert_stake a s k c"

definition unstake :: "address \<Rightarrow> coin \<Rightarrow> inactive_stake_receipt option action" where
  "unstake a s c =
    (case om_get (inactive_stake_by_address c) a of
       None \<Rightarrow> (Inl (Err AE_InvalidForSender), c)
     | Some old \<Rightarrow>
         let c = c\<lparr>inactive_stake_by_address := om_remove a (inactive_stake_by_address c)\<rparr> in
         sbind (balance_sub (sc_balance c) s, c) (\<lambda>b c.
         let c = c\<lparr>sc_balance := b\<rparr> in
         if is_balance old > s then
           sbind (balance_sub (is_balance old) s, c) (\<lambda>nb c.
           (Inr None,
            c\<lparr>inactive_stake_by_address :=
                om_insert a \<lparr>is_balance = nb, is_retire_time = is_retire_time old\<rparr> (inactive_stake_by_address c)\<rparr>))
         else if is_balance old = s then (Inr (Some \<lparr>isr_retire_time = is_retire_time old\<rparr>), c)
         else (Inl Panic, c)))"

definition revert_unstake :: "address \<Rightarrow> coin \<Rightarrow> inactive_stake_receipt option \<Rightarrow> unit action" where
  "revert_unstake a s receipt c =
    sbind (balance_add (sc_balance c) s, c) (\<lambda>b c.
    let c = c\<lparr>sc_balance := b\<rparr> in
    case om_get (inactive_stake_by_address c) a of
      Some old \<Rightarrow>
        let c = c\<lparr>inactive_stake_by_address := om_remove a (inactive_stake_by_address c)\<rparr> in
        if receipt \<noteq> None then (Inl (Err AE_InvalidReceipt), c)
        else
          sbind (balance_add (is_balance old) s, c) (\<lambda>nb c.
          (Inr (),
           c\<lparr>inactive_stake_by_address :=
               om_insert a \<lparr>is_balance = nb, is_retire_time = is_retire_time old\<rparr> (inactive_stake_by_address c)\<rparr>))
    | None \<Rightarrow>
        sbind (ok_or AE_InvalidReceipt receipt, c) (\<lambda>r c.
        (Inr (),
         c\<lparr>inactive_stake_by_address :=
             om_insert a \<lparr>is_balance = s, is_retire_time = isr_retire_time r\<rparr> (inactive_stake_by_address c)\<rparr>)))"

section \<open>Actions of validators (\<open>actions/validator.rs\<close>)\<close>

record unpark_receipt =
  ur_current_epoch :: bool
  ur_previous_epoch :: bool
  ur_current_disabled_slots :: "u16 oset option"
  ur_previous_disabled_slots :: "u16 oset option"

record update_validator_receipt =
  uvr_old_reward_address :: address

record retirement_receipt =
  rr_stake :: coin
  rr_inactive_stake_receipt :: "inactive_stake_receipt option"

record drop_validator_receipt =
  dvr_reward_address :: address
  dvr_retirement_by_address :: "(address, retirement_receipt) omap"
  dvr_retire_time :: u32
  dvr_unpark_receipt :: unpark_receipt

record inactive_validator_receipt =
  ivr_retire_time :: u32

definition create_validator :: "bls_public_key \<Rightarrow> address \<Rightarrow> coin \<Rightarrow> unit action" where
  "create_validator k a s c =
    (if om_contains (active_validators_by_key c) k \<or> om_contains (inactive_validators_by_key c) k
     then (Inl (Err AE_InvalidForRecipient), c)
     else
       sbind (balance_add (sc_balance c) s, c) (\<lambda>b c.
       let v = validator_new s a k in
       (Inr (),
        c\<lparr>sc_balance := b, active_validators_sorted := vset_insert v (active_validators_sorted c),
          active_validators_by_key := om_insert k v (active_validators_by_key c)\<rparr>)))"

definition revert_create_validator :: "bls_public_key \<Rightarrow> coin \<Rightarrow> unit action" where
  "revert_create_validator k s c =
    (case om_get (active_validators_by_key c) k of
       Some v \<Rightarrow>
         let c = c\<lparr>active_validators_by_key := om_remove k (active_validators_by_key c)\<rparr> in
         sbind (balance_sub (sc_balance c) s, c) (\<lambda>b c.
         (Inr (), c\<lparr>sc_balance := b, active_validators_sorted := vset_remove v (active_validators_sorted c)\<rparr>))
     | None \<Rightarrow> (Inl (Err AE_InvalidForRecipient), c))"

definition update_validator :: "bls_public_key \<Rightarrow> bls_public_key option \<Rightarrow> address option \<Rightarrow> update_validator_receipt action" where
  "update_validator k k' a c =
    sbind (ok_or_entry AE_InvalidForRecipient (remove_validator k c)) (\<lambda>en c.
    let old_reward_address = va_reward_address (as_validator en) in
    sbind (restore_validator (entry_update_validator a k' en) c) (\<lambda>_ c.
    (Inr \<lparr>uvr_old_reward_address = old_reward_address\<rparr>, c)))"

definition revert_update_validator :: "bls_public_key \<Rightarrow> bls_public_key option \<Rightarrow> update_validator_receipt \<Rightarrow> unit action" where
  "revert_update_validator k k' receipt c =
    sbind (ok_or_entry AE_InvalidForRecipient (remove_validator (case k' of Some k'' \<Rightarrow> k'' | None \<Rightarrow> k) c)) (\<lambda>en c.
    sbind (restore_validator (entry_update_validator (Some (uvr_old_reward_address receipt)) (Some k) en) c) (\<lambda>_ c.
    (Inr (), c)))"

definition retire_validator :: "bls_public_key \<Rightarrow> u32 \<Rightarrow> unit action" where
  "retire_validator k block_height c =
    (case om_get (active_validators_by_key c) k of
       None \<Rightarrow> (Inl (Err AE_InvalidForRecipient), c)
     | Some v \<Rightarrow>
         (Inr (),
          c\<lparr>active_validators_by_key := om_remove k (active_validators_by_key c),
            active_validators_sorted := vset_remove v (active_validators_sorted c),
            inactive_validators_by_key :=
              om_insert k \<lparr>iv_validator = v, iv_retire_time = block_height\<rparr> (inactive_validators_by_key c)\<rparr>))"

definition reactivate_validator :: "bls_public_key \<Rightarrow> inactive_validator_receipt action" where
  "reactivate_validator k c =
    (case om_get (inactive_validators_by_key c) k of
       None \<Rightarrow> (Inl (Err AE_InvalidForRecipient), c)
     | Some iv \<Rightarrow>
         (Inr \<lparr>ivr_retire_time = iv_retire_time iv\<rparr>,
          c\<lparr>inactive_validators_by_key := om_remove k (inactive_validators_by_key c),
            active_validators_sorted := vset_insert (iv_validator iv) (active_validators_sorted c),
            active_validators_by_key := om_insert k (iv_validator iv) (active_validators_by_key c)\<rparr>))"

definition revert_retire_validator :: "bls_public_key \<Rightarrow> unit action" where
  "revert_retire_validator k c = discard (reactivate_validator k c)"

definition revert_reactivate_validator :: "bls_public_key \<Rightarrow> inactive_validator_receipt \<Rightarrow> unit action" where
  "revert_reactivate_validator k receipt c = retire_validator k (ivr_retire_time receipt) c"

definition unpark_validator :: "bls_public_key \<Rightarrow> unpark_receipt action" where
  "unpark_validator k c =
    (let receipt =
       \<lparr>ur_current_epoch = os_elem (current_epoch_parking c) k, ur_previous_epoch = os_elem (previous_epoch_parking c) k,
        ur_current_disabled_slots = om_get (current_disabled_slots c) k,
        ur_previous_disabled_slots = om_get (previous_disabled_slots c) k\<rparr>;
       c' =
       c\<lparr>current_epoch_parking := os_remove k (current_epoch_parking c), previous_epoch_parking := os_remove k (previous_epoch_parking c),
         current_disabled_slots := om_remove k (current_disabled_slots c),
         previous_disabled_slots := om_remove k (previous_disabled_slots c)\<rparr> in
     if \<not> ur_current_epoch receipt \<and> \<not> ur_previous_epoch receipt \<and>
        ur_current_disabled_slots receipt = None \<and> ur_previous_disabled_slots receipt = None
     then (Inl (Err AE_InvalidForRecipient), c') else (Inr receipt, c'))"

definition revert_unpark_validator :: "bls_public_key \<Rightarrow> unpark_receipt \<Rightarrow> unit action" where
  "revert_unpark_validator k receipt c =
    (Inr (),
     c\<lparr>current_epoch_parking := if ur_current_epoch receipt then os_insert k (current_epoch_parking c) else current_epoch_parking c,
       previous_epoch_parking := if ur_previous_epoch receipt then os_insert k (previous_epoch_parking c) else previous_epoch_parking c,
       current_disabled_slots := (case ur_current_disabled_slots receipt of Some s \<Rightarrow> om_insert k s (current_disabled_slots c) | None \<Rightarrow> current_disabled_slots c),
       previous_disabled_slots := (case ur_previous_disabled_slots receipt of Some s \<Rightarrow> om_insert k s (previous_disabled_slots c) | None \<Rightarrow> previous_disabled_slots c)\<rparr>)"

text \<open>The loop of \<open>drop_validator\<close> over the stakes of the validator, in the order of the addresses.\<close>

fun retire_stakes :: "(address \<times> coin) list \<Rightarrow> u32 \<Rightarrow> (address, retirement_receipt) omap \<Rightarrow> (address, retirement_receipt) omap action" where
  "retire_stakes [] t m c = (Inr m, c)"
| "retire_stakes ((a, s) # rest) t m c =
    sbind (retire_recipient a s (Some t) c) (\<lambda>receipt c.
    retire_stakes rest t (om_insert a \<lparr>rr_stake = s, rr_inactive_stake_receipt = receipt\<rparr> m) c)"

definition drop_validator :: "bls_public_key \<Rightarrow> coin \<Rightarrow> drop_validator_receipt action" where
  "drop_validator k initial_stake c =
    (case om_get (inactive_validators_by_key c) k of
       None \<Rightarrow> (Inl Panic, c)
     | Some iv \<Rightarrow>
         let v = iv_validator iv; c = c\<lparr>inactive_validators_by_key := om_remove k (inactive_validators_by_key c)\<rparr> in
         sbind (balance_sub (sc_balance c) (va_balance v), c) (\<lambda>b c.
         sbind (retire_stakes (va_stakes v) (iv_retire_time iv) [] (c\<lparr>sc_balance := b\<rparr>)) (\<lambda>retirement c.
         sbind (if os_elem (current_epoch_parking c) k \<or> os_elem (previous_epoch_parking c) k \<or>
                   om_contains (current_disabled_slots c) k \<or> om_contains (previous_disabled_slots c) k
                then unpark_validator k c
                else (Inr \<lparr>ur_current_epoch = False, ur_previous_epoch = False, ur_current_disabled_slots = None,
                           ur_previous_disabled_slots = None\<rparr>, c)) (\<lambda>unpark c.
         (Inr \<lparr>dvr_reward_address = va_reward_address v, dvr_retirement_by_address = retirement,
               dvr_retire_time = iv_retire_time iv, dvr_unpark_receipt = unpark\<rparr>, c)))))"

text \<open>The loop of \<open>revert_drop_validator\<close>: the stakes collected so far and the value of the validator.\<close>

fun unretire_stakes ::
  "(address \<times> retirement_receipt) list \<Rightarrow> (address, coin) omap \<Rightarrow> coin \<Rightarrow> ((address, coin) omap \<times> coin) action" where
  "unretire_stakes [] m v c = (Inr (m, v), c)"
| "unretire_stakes ((a, r) # rest) m v c =
    sbind (revert_retire_recipient a (rr_stake r) (rr_inactive_stake_receipt r) c) (\<lambda>_ c.
    unretire_stakes rest (om_insert a (rr_stake r) m) (coin_add v (rr_stake r)) c)"

definition revert_drop_validator :: "bls_public_key \<Rightarrow> coin \<Rightarrow> drop_validator_receipt \<Rightarrow> unit action" where
  "revert_drop_validator k value receipt c =
    sbind (unretire_stakes (dvr_retirement_by_address receipt) [] value c) (\<lambda>(stakes, tv) c.
    sbind (balance_add (sc_balance c) tv, c) (\<lambda>b c.
    sbind (revert_unpark_validator k (dvr_unpark_receipt receipt) (c\<lparr>sc_balance := b\<rparr>)) (\<lambda>_ c.
    (Inr (),
     c\<lparr>inactive_validators_by_key :=
         om_insert k
           \<lparr>iv_validator = \<lparr>va_balance = tv, va_reward_address = dvr_reward_address receipt, va_validator_key = k, va_stakes = stakes\<rparr>,
            iv_retire_time = dvr_retire_time receipt\<rparr>
           (inactive_validators_by_key c)\<rparr>))))"

end
