(* ===== verification/Staking_Invariant.thy ===== *)
theory Staking_Invariant
  imports Staking_Contract
begin

text \<open>
  The invariant of the staking contract and what the actions of stakers and validators do to it.  The two containers of active
  validators and the container of inactive ones are viewed as one map from keys to validators (\<open>sc_lookup\<close>); the
  actions are shown to act on that map, to keep the invariant, and to undo one another.
\<close>

section \<open>The sorted set of validators\<close>

definition vsort :: "validator \<Rightarrow> int \<times> bls_public_key" where
  "vsort v = (- uint (lunas (va_balance v)), va_validator_key v)"

lemma validator_cmp_vsort: "validator_cmp v w = ord_cmp (vsort v) (vsort w)"
  by (auto simp: validator_cmp_def ord_cmp_def then_with_def vsort_def less_coin_def word_less_def word_uint_eq_iff coin.expand)

interpretation validator_order: comparator validator_cmp
  unfolding validator_cmp_vsort by (rule comparator_key)

lemma validator_cmp_simps: "validator_cmp v w = Less \<longleftrightarrow> vsort v < vsort w" "validator_cmp v w = Equal \<longleftrightarrow> vsort v = vsort w"
    "validator_cmp v w = Greater \<longleftrightarrow> vsort w < vsort v"
  by (auto simp: validator_cmp_vsort ord_cmp_def)

definition vset_inv :: "validator list \<Rightarrow> bool" where
  "vset_inv ws = sorted_wrt (<) (map vsort ws)"

lemma set_vset_remove: "set (vset_remove v ws) = {w \<in> set ws. vsort w \<noteq> vsort v}"
  by (auto simp: vset_remove_def validator_cmp_simps)

lemma set_vset_insert: "\<forall>w \<in> set ws. vsort w \<noteq> vsort v \<Longrightarrow> set (vset_insert v ws) = insert v (set ws)"
  by (induction v ws rule: vset_insert.induct) (auto simp: validator_cmp_simps split: cmp_ordering.splits)

lemma vset_insert_subset: "set (vset_insert v ws) \<subseteq> insert v (set ws)"
  by (induction v ws rule: vset_insert.induct) (auto split: cmp_ordering.splits)

lemma vset_insert_inv: "vset_inv ws \<Longrightarrow> vset_inv (vset_insert v ws)"
proof (induction v ws rule: vset_insert.induct)
  case (2 v w ws)
  then show ?case
    using vset_insert_subset [of v ws]
    by (auto simp: vset_inv_def validator_cmp_simps subset_iff split: cmp_ordering.splits)
qed (simp add: vset_inv_def)

lemma vset_remove_inv: "vset_inv ws \<Longrightarrow> vset_inv (vset_remove v ws)"
  by (auto simp: vset_inv_def vset_remove_def sorted_wrt_map intro: sorted_wrt_filter)

lemma vset_extensional:
  assumes "vset_inv ws" "vset_inv ws'" "set ws = set ws'"
  shows "ws = ws'"
proof -
  have "map vsort ws = map vsort ws'"
    using assms by (intro strict_sorted_equal) (auto simp: vset_inv_def)
  moreover have "inj_on vsort (set ws \<union> set ws')"
    using assms(1,3) by (auto simp: vset_inv_def strict_sorted_iff distinct_map)
  ultimately show ?thesis
    by (rule map_inj_on)
qed

section \<open>Both containers of active validators hold the same\<close>

text \<open>The values of a map are stored under their own key.\<close>

definition keyed :: "('v \<Rightarrow> 'k) \<Rightarrow> ('k, 'v) omap \<Rightarrow> bool" where
  "keyed f m \<longleftrightarrow> (\<forall>k v. om_get m k = Some v \<longrightarrow> f v = k)"

lemma keyedD: "keyed f m \<Longrightarrow> om_get m k = Some v \<Longrightarrow> f v = k"
  unfolding keyed_def by blast

lemma keyedI: "(\<And>k v. om_get m k = Some v \<Longrightarrow> f v = k) \<Longrightarrow> keyed f m"
  unfolding keyed_def by blast

lemma keyed_remove [wf_intros, simp]:
  assumes "keyed f m"
  shows "keyed f (om_remove k m)"
  by (rule keyedI, rule keyedD [OF assms]) (simp add: om_remove_get split: if_splits)

lemma keyed_insert [wf_intros, simp]:
  assumes "keyed f m" "f v = k"
  shows "keyed f (om_insert k v m)"
proof (rule keyedI)
  fix k' v'
  assume "om_get (om_insert k v m) k' = Some v'"
  with assms show "f v' = k'"
    using keyedD [OF assms(1), of k' v'] by (cases "k' = k") (simp_all add: om_insert_get)
qed

lemma keyed_empty [simp]: "keyed f []"
  by (simp add: keyed_def om_get_def)

definition consistent :: "validator list \<Rightarrow> (bls_public_key, validator) omap \<Rightarrow> bool" where
  "consistent ws m \<longleftrightarrow> vset_inv ws \<and> om_inv m \<and> keyed va_validator_key m \<and>
    set ws = {v. om_get m (va_validator_key v) = Some v}"

lemma consistentD:
  assumes "consistent ws m"
  shows "vset_inv ws" "om_inv m" "keyed va_validator_key m" "w \<in> set ws \<longleftrightarrow> om_get m (va_validator_key w) = Some w"
  using assms unfolding consistent_def by blast+

lemma consistentI:
  assumes "vset_inv ws" "om_inv m" "keyed va_validator_key m" "\<And>w. w \<in> set ws \<longleftrightarrow> om_get m (va_validator_key w) = Some w"
  shows "consistent ws m"
  using assms unfolding consistent_def by blast

lemma consistent_remove:
  assumes "consistent ws m" "om_get m k = Some v"
  shows "consistent (vset_remove v ws) (om_remove k m)"
proof (rule consistentI)
  note d = consistentD [OF assms(1)]
  have k: "va_validator_key v = k"
    using keyedD [OF d(3) assms(2)] .
  fix w
  have "vsort w = vsort v \<longleftrightarrow> va_validator_key w = k" if w: "om_get m (va_validator_key w) = Some w"
  proof
    assume "va_validator_key w = k"
    with w assms(2) show "vsort w = vsort v" by simp
  qed (simp add: vsort_def k)
  then show "w \<in> set (vset_remove v ws) \<longleftrightarrow> om_get (om_remove k m) (va_validator_key w) = Some w"
    unfolding set_vset_remove mem_Collect_eq d(4) om_remove_get by (cases "va_validator_key w = k") auto
qed (use consistentD [OF assms(1)] in \<open>simp_all add: vset_remove_inv\<close>)

lemma consistent_insert:
  assumes "consistent ws m" "om_get m (va_validator_key v) = None"
  shows "consistent (vset_insert v ws) (om_insert (va_validator_key v) v m)"
proof (rule consistentI)
  note d = consistentD [OF assms(1)]
  have other: "va_validator_key w \<noteq> va_validator_key v" if "w \<in> set ws" for w
  proof
    assume "va_validator_key w = va_validator_key v"
    with that d(4) [of w] assms(2) show False by simp
  qed
  then have set: "set (vset_insert v ws) = insert v (set ws)"
    by (intro set_vset_insert) (auto simp: vsort_def)
  fix w
  show "w \<in> set (vset_insert v ws) \<longleftrightarrow> om_get (om_insert (va_validator_key v) v m) (va_validator_key w) = Some w"
    unfolding set insert_iff om_insert_get using other [of w] d(4) [of w] by (cases "va_validator_key w = va_validator_key v") auto
qed (use consistentD [OF assms(1)] in \<open>simp_all add: vset_insert_inv\<close>)

lemma consistent_unique: "consistent ws m \<Longrightarrow> consistent ws' m \<Longrightarrow> ws = ws'"
  unfolding consistent_def by (intro vset_extensional) simp_all

section \<open>The validators as one map\<close>

definition sc_lookup :: "staking_contract \<Rightarrow> bls_public_key \<Rightarrow> (validator \<times> u32 option) option" where
  "sc_lookup c k =
    (case om_get (active_validators_by_key c) k of
       Some v \<Rightarrow> Some (v, None)
     | None \<Rightarrow> map_option (\<lambda>iv. (iv_validator iv, Some (iv_retire_time iv))) (om_get (inactive_validators_by_key c) k))"

definition vals_wf :: "staking_contract \<Rightarrow> bool" where
  "vals_wf c \<longleftrightarrow> consistent (active_validators_sorted c) (active_validators_by_key c) \<and> om_inv (inactive_validators_by_key c) \<and>
    keyed (\<lambda>iv. va_validator_key (iv_validator iv)) (inactive_validators_by_key c) \<and>
    (\<forall>k. om_get (active_validators_by_key c) k = None \<or> om_get (inactive_validators_by_key c) k = None)"

lemma vals_wfD:
  assumes "vals_wf c"
  shows "consistent (active_validators_sorted c) (active_validators_by_key c)" "om_inv (active_validators_by_key c)"
    "om_inv (inactive_validators_by_key c)" "keyed va_validator_key (active_validators_by_key c)"
    "keyed (\<lambda>iv. va_validator_key (iv_validator iv)) (inactive_validators_by_key c)"
    "om_get (active_validators_by_key c) k = None \<or> om_get (inactive_validators_by_key c) k = None"
  using assms consistentD(2,3) [of "active_validators_sorted c" "active_validators_by_key c"] by (simp_all add: vals_wf_def)

fun mk_entry :: "validator \<Rightarrow> u32 option \<Rightarrow> account_error option \<Rightarrow> validator_entry" where
  "mk_entry v None err = VE_Active v err"
| "mk_entry v (Some t) err = VE_Inactive \<lparr>iv_validator = v, iv_retire_time = t\<rparr> err"

definition sc_del :: "bls_public_key \<Rightarrow> staking_contract \<Rightarrow> staking_contract" where
  "sc_del k c = snd (remove_validator k c)"

definition sc_put :: "validator \<Rightarrow> u32 option \<Rightarrow> staking_contract \<Rightarrow> staking_contract" where
  "sc_put v r c = snd (restore_validator (mk_entry v r None) c)"

lemma vals_wf_active: "vals_wf c \<Longrightarrow> sc_lookup c k = Some (v, None) \<longleftrightarrow> om_get (active_validators_by_key c) k = Some v"
  by (auto simp: sc_lookup_def split: option.splits)

lemma vals_wf_inactive: "vals_wf c \<Longrightarrow> sc_lookup c k = Some (v, Some t) \<longleftrightarrow>
    om_get (inactive_validators_by_key c) k = Some \<lparr>iv_validator = v, iv_retire_time = t\<rparr>"
  using vals_wfD(6) [of c k] by (auto simp: sc_lookup_def split: option.splits)

lemma vals_wf_key: "vals_wf c \<Longrightarrow> sc_lookup c k = Some (v, r) \<Longrightarrow> va_validator_key v = k"
  using keyedD [OF vals_wfD(4), of c k] keyedD [OF vals_wfD(5), of c k]
  by (auto simp: sc_lookup_def split: option.splits)

lemma sc_lookup_None:
  "sc_lookup c k = None \<longleftrightarrow> \<not> om_contains (active_validators_by_key c) k \<and> \<not> om_contains (inactive_validators_by_key c) k"
  by (auto simp: sc_lookup_def om_contains_def split: option.splits)

lemma get_validator_lookup: "get_validator k c = map_option fst (sc_lookup c k)"
  by (auto simp: get_validator_def sc_lookup_def option.map_comp comp_def split: option.splits)

lemma remove_validator_eq:
  "remove_validator k c = (map_option (\<lambda>(v, r). mk_entry v r None) (sc_lookup c k), sc_del k c)"
  by (auto simp: sc_del_def remove_validator_def sc_lookup_def split: option.splits)

lemma sc_del_absent: "sc_lookup c k = None \<Longrightarrow> sc_del k c = c"
  by (auto simp: sc_del_def remove_validator_def sc_lookup_def split: option.splits)

lemma restore_validator_eq: "restore_validator (mk_entry v r err) c = (entry_result err, sc_put v r c)"
  by (cases r) (simp_all add: sc_put_def)

lemma sc_del_fields [simp]:
  "sc_balance (sc_del k c) = sc_balance c" "inactive_stake_by_address (sc_del k c) = inactive_stake_by_address c"
  "current_epoch_parking (sc_del k c) = current_epoch_parking c" "previous_epoch_parking (sc_del k c) = previous_epoch_parking c"
  "current_lost_rewards (sc_del k c) = current_lost_rewards c" "previous_lost_rewards (sc_del k c) = previous_lost_rewards c"
  "current_disabled_slots (sc_del k c) = current_disabled_slots c" "previous_disabled_slots (sc_del k c) = previous_disabled_slots c"
  by (simp_all add: sc_del_def remove_validator_def split: option.splits)

lemma sc_put_fields [simp]:
  "sc_balance (sc_put v r c) = sc_balance c" "inactive_stake_by_address (sc_put v r c) = inactive_stake_by_address c"
  "current_epoch_parking (sc_put v r c) = current_epoch_parking c" "previous_epoch_parking (sc_put v r c) = previous_epoch_parking c"
  "current_lost_rewards (sc_put v r c) = current_lost_rewards c" "previous_lost_rewards (sc_put v r c) = previous_lost_rewards c"
  "current_disabled_slots (sc_put v r c) = current_disabled_slots c" "previous_disabled_slots (sc_put v r c) = previous_disabled_slots c"
  by (cases r; simp add: sc_put_def)+

lemma vals_wf_del: "vals_wf c \<Longrightarrow> vals_wf (sc_del k c)"
  by (auto simp: vals_wf_def sc_del_def remove_validator_def intro: consistent_remove split: option.splits)

lemma lookup_del: "vals_wf c \<Longrightarrow> sc_lookup (sc_del k c) k' = (if k' = k then None else sc_lookup c k')"
  using vals_wfD(6) [of c k] by (auto simp: sc_del_def remove_validator_def sc_lookup_def split: option.splits)

lemma vals_wf_put: "vals_wf c \<Longrightarrow> sc_lookup c (va_validator_key v) = None \<Longrightarrow> vals_wf (sc_put v r c)"
  by (cases r) (auto simp: vals_wf_def sc_put_def sc_lookup_None om_contains_def consistent_insert)

lemma lookup_put: "sc_lookup c (va_validator_key v) = None \<Longrightarrow>
    sc_lookup (sc_put v r c) k = (if k = va_validator_key v then Some (v, r) else sc_lookup c k)"
  by (cases r) (auto simp: sc_put_def sc_lookup_def split: option.splits)

lemma vals_eqI:
  assumes "vals_wf c" "vals_wf c'" "\<And>k. sc_lookup c k = sc_lookup c' k"
    and "sc_balance c = sc_balance c'" "inactive_stake_by_address c = inactive_stake_by_address c'"
    and "current_epoch_parking c = current_epoch_parking c'" "previous_epoch_parking c = previous_epoch_parking c'"
    and "current_lost_rewards c = current_lost_rewards c'" "previous_lost_rewards c = previous_lost_rewards c'"
    and "current_disabled_slots c = current_disabled_slots c'" "previous_disabled_slots c = previous_disabled_slots c'"
  shows "c = c'"
proof -
  have "om_get (active_validators_by_key c) k = om_get (active_validators_by_key c') k" for k
    using vals_wf_active [OF assms(1), of k] vals_wf_active [OF assms(2), of k] assms(3)
    by (cases "om_get (active_validators_by_key c) k"; cases "om_get (active_validators_by_key c') k") auto
  then have a: "active_validators_by_key c = active_validators_by_key c'"
    using assms(1,2) by (intro om.extensional) (auto simp: vals_wf_def consistent_def)
  have "om_get (inactive_validators_by_key c) k = om_get (inactive_validators_by_key c') k" for k
    using vals_wf_inactive [OF assms(1), of k] vals_wf_inactive [OF assms(2), of k] assms(3)
    by (cases "om_get (inactive_validators_by_key c) k"; cases "om_get (inactive_validators_by_key c') k")
      (metis inactive_validator.surjective old.unit.exhaust option.distinct(1))+
  then have i: "inactive_validators_by_key c = inactive_validators_by_key c'"
    using assms(1,2) by (intro om.extensional) (auto simp: vals_wf_def)
  have "active_validators_sorted c = active_validators_sorted c'"
    using a assms(1,2) by (auto simp: vals_wf_def intro: consistent_unique)
  with a i assms(4-) show ?thesis
    by (cases c; cases c') simp
qed

text \<open>Everything a validator's replacement needs: putting it back where it was is the identity.\<close>

lemma put_del_undo:
  assumes "vals_wf c" "sc_lookup c k = Some (v, r)" "va_validator_key v' = k \<or> sc_lookup c (va_validator_key v') = None"
  shows "sc_put v r (sc_del (va_validator_key v') (sc_put v' r' (sc_del k c))) = c"
proof -
  have k: "va_validator_key v = k"
    using vals_wf_key [OF assms(1,2)] .
  have none: "sc_lookup (sc_del k c) (va_validator_key v') = None"
    using assms by (auto simp: lookup_del)
  have wf: "vals_wf (sc_put v' r' (sc_del k c))"
    by (intro vals_wf_put vals_wf_del assms none)
  have lk: "sc_lookup (sc_del (va_validator_key v') (sc_put v' r' (sc_del k c))) k' =
      (if k' = va_validator_key v' then None else if k' = k then None else sc_lookup c k')" for k'
    using none assms(1) by (simp add: lookup_del [OF wf] lookup_put lookup_del)
  show ?thesis
  proof (rule vals_eqI)
    show "vals_wf (sc_put v r (sc_del (va_validator_key v') (sc_put v' r' (sc_del k c))))"
      by (intro vals_wf_put vals_wf_del wf) (simp add: lk k)
  qed (use assms k lk in \<open>auto simp: lookup_put\<close>)
qed

lemma put_del_same: "vals_wf c \<Longrightarrow> sc_lookup c k = Some (v, r) \<Longrightarrow> sc_put v r (sc_del k c) = c"
  by (rule vals_eqI) (auto simp: vals_wf_put vals_wf_del lookup_del lookup_put vals_wf_key)

definition vtotal :: "staking_contract \<Rightarrow> nat" where
  "vtotal c = om_total (\<lambda>v. val (va_balance v)) (active_validators_by_key c) +
    om_total (\<lambda>iv. val (va_balance (iv_validator iv))) (inactive_validators_by_key c)"

lemma vtotal_del:
  assumes "vals_wf c" "sc_lookup c k = Some (v, r)"
  shows "vtotal c = val (va_balance v) + vtotal (sc_del k c)"
  using assms om.total_rem [of "active_validators_by_key c" k _ "\<lambda>v. val (va_balance v)"]
    om.total_rem [of "inactive_validators_by_key c" k _ "\<lambda>iv. val (va_balance (iv_validator iv))"]
  by (auto simp: vtotal_def sc_del_def remove_validator_def sc_lookup_def vals_wf_def consistent_def split: option.splits)

lemma vtotal_put:
  assumes "vals_wf c" "sc_lookup c (va_validator_key v) = None"
  shows "vtotal (sc_put v r c) = val (va_balance v) + vtotal c"
proof -
  have "vals_wf (sc_put v r c)" "sc_lookup (sc_put v r c) (va_validator_key v) = Some (v, r)"
    using assms by (simp_all add: vals_wf_put lookup_put)
  from vtotal_del [OF this] show ?thesis
    using assms by (cases r)
      (auto simp: vtotal_def sc_put_def sc_lookup_None om_contains_def vals_wf_def consistent_def om.total_ins_absent)
qed

end
