(* ===== verification/Staking_Actions.thy ===== *)
theory Staking_Actions
  imports Staking_Invariant
begin

text \<open>
  The actions of stakers and validators keep the invariant \<open>sc_wf\<close> of the staking contract, change its balance by the amount that is
  moved, leave it unchanged when they fail, and are undone by their reverting counterparts.
\<close>

section \<open>Stakes of a validator\<close>

definition stakes_wf :: "(address, coin) omap \<Rightarrow> bool" where
  "stakes_wf m \<longleftrightarrow> om_inv m \<and> (\<forall>(a, s) \<in> set m. val s \<noteq> 0 \<and> address_ok a)"

lemma stakes_wfD: "stakes_wf m \<Longrightarrow> om_inv m" "stakes_wf m \<Longrightarrow> om_get m a = Some s \<Longrightarrow> val s \<noteq> 0 \<and> address_ok a"
  by (auto simp: stakes_wf_def dest: om_get_SomeD)

lemma om_ball_get: "om_inv m \<Longrightarrow> (\<forall>(k, v) \<in> set m. P k v) \<longleftrightarrow> (\<forall>k v. om_get m k = Some v \<longrightarrow> P k v)"
  by (auto simp: om_get_in_set)

lemma stakes_wf_insert: "stakes_wf m \<Longrightarrow> val s \<noteq> 0 \<Longrightarrow> address_ok a \<Longrightarrow> stakes_wf (om_insert a s m)"
  by (auto simp: stakes_wf_def om_ball_get)

lemma stakes_wf_remove: "stakes_wf m \<Longrightarrow> stakes_wf (om_remove a m)"
  by (auto simp: stakes_wf_def om_ball_get)

lemma stakes_wf_empty [simp]: "stakes_wf []"
  by (simp add: stakes_wf_def)

definition validator_ok :: "validator \<Rightarrow> bool" where
  "validator_ok v \<longleftrightarrow> coin_ok (va_balance v) \<and> stakes_wf (va_stakes v) \<and> om_total val (va_stakes v) \<le> val (va_balance v) \<and>
    address_ok (va_reward_address v) \<and> bls_key_ok (va_validator_key v)"

lemma val_coin_add: "val a + val b < 2 ^ 64 \<Longrightarrow> val (coin_add a b) = val a + val b"
  by (simp add: coin_add_def unat_word_ariths)

lemma val_coin_sub: "val b \<le> val a \<Longrightarrow> val (coin_sub a b) = val a - val b"
  by (simp add: coin_sub_def unat_sub word_le_nat_alt)

lemma coin_is_zero_val [simp]: "coin_is_zero c \<longleftrightarrow> val c = 0"
  by (simp add: coin_is_zero_def unat_eq_zero)

lemma val_ZERO [simp]: "val coin_ZERO = 0"
  by (simp add: coin_ZERO_def)

lemma with_balance_simps [simp]:
  "va_balance (with_balance b v) = b" "va_stakes (with_balance b v) = va_stakes v"
  "va_reward_address (with_balance b v) = va_reward_address v" "va_validator_key (with_balance b v) = va_validator_key v"
  by (simp_all add: with_balance_def)

lemma add_stake_ok:
  assumes "validator_ok v" "add_stake a s v = Inr v'" "val s \<noteq> 0" "address_ok a"
  shows "validator_ok v'" "val (va_balance v') = val (va_balance v) + val s" "va_validator_key v' = va_validator_key v"
    "fst (sub_stake a s e v') = Inr v"
proof -
  note ok = assms(1) [unfolded validator_ok_def]
  define old where "old = (case om_get (va_stakes v) a of Some c \<Rightarrow> c | None \<Rightarrow> coin_ZERO)"
  obtain b where b: "balance_add (va_balance v) s = Inr b" and v': "v' = (with_balance b v)\<lparr>va_stakes := om_insert a (coin_add old s) (va_stakes v)\<rparr>"
    using assms(2) by (auto simp: add_stake_def rbind_eq_Inr Let_def old_def)
  have vb: "val b = val (va_balance v) + val s" "val b \<le> max_safe"
    using b by (simp_all add: balance_add_Inr)
  have inv: "om_inv (va_stakes v)"
    using ok stakes_wfD(1) by blast
  have old: "val old \<le> om_total val (va_stakes v)"
    using om.total_ge [OF inv, of a _ val] by (auto simp: old_def split: option.split)
  then have new: "val (coin_add old s) = val old + val s"
    using ok vb by (intro val_coin_add) simp
  have "om_total val (om_insert a (coin_add old s) (va_stakes v)) = om_total val (va_stakes v) + val s"
    using om.total_ins_absent [OF inv, of a val "coin_add old s"] om.total_ins_present [OF inv, of a _ val "coin_add old s"] new
    by (cases "om_get (va_stakes v) a") (fastforce simp: old_def)+
  then show "validator_ok v'"
    using ok vb new assms(3,4) by (simp add: validator_ok_def v' coin_ok_val stakes_wf_insert)
  show "val (va_balance v') = val (va_balance v) + val s" "va_validator_key v' = va_validator_key v"
    by (simp_all add: v' vb)
  have old_ok: "val old \<le> max_safe"
    using old ok by (simp add: coin_ok_val)
  then have "balance_sub (coin_add old s) s = Inr old" "balance_sub b s = Inr (va_balance v)"
    using new vb ok by (simp_all add: balance_sub_Inr coin_ok_val)
  moreover have "(if val old = 0 then om_remove a (om_insert a (coin_add old s) (va_stakes v)) else om_insert a old (om_insert a (coin_add old s) (va_stakes v))) = va_stakes v"
    using inv ok by (cases "om_get (va_stakes v) a") (auto simp: old_def om.rem_ins om.rem_absent om.ins_ins om.ins_present dest: stakes_wfD(2))
  ultimately show "fst (sub_stake a s e v') = Inr v"
    by (cases v) (auto simp: v' sub_stake_def with_balance_def Let_def split: if_splits)
qed

lemma sub_stake_ok:
  assumes "validator_ok v" "sub_stake a s e v = (Inr v', w)"
  shows "validator_ok v'" "val (va_balance v) = val (va_balance v') + val s" "va_validator_key v' = va_validator_key v"
    "add_stake a s v' = Inr v"
proof -
  note ok = assms(1) [unfolded validator_ok_def]
  obtain old new b where old: "om_get (va_stakes v) a = Some old" and new: "balance_sub old s = Inr new"
    and b: "balance_sub (va_balance v) s = Inr b"
    and v': "v' = (with_balance b v)\<lparr>va_stakes := if val new = 0 then om_remove a (va_stakes v) else om_insert a new (va_stakes v)\<rparr>"
    using assms(2) by (auto simp: sub_stake_def sbind_eq_Inr with_balance_def Let_def split: option.splits)
  have vals: "val old = val new + val s" "val (va_balance v) = val b + val s" "val b \<le> max_safe"
    using new b by (simp_all add: balance_sub_Inr)
  have inv: "om_inv (va_stakes v)" and a: "address_ok a" "val old \<noteq> 0"
    using ok stakes_wfD old by blast+
  have tot: "om_total val (va_stakes v') + val s = om_total val (va_stakes v)"
    using om.total_rem [OF inv old, of val] om.total_ins_present [OF inv old, of val new] vals(1) by (simp add: v')
  have "stakes_wf (va_stakes v')"
    using ok a by (auto simp: v' intro: stakes_wf_insert stakes_wf_remove)
  then show "validator_ok v'"
    using ok vals tot by (simp add: validator_ok_def v' coin_ok_val)
  show "val (va_balance v) = val (va_balance v') + val s" "va_validator_key v' = va_validator_key v"
    by (simp_all add: v' vals)
  have "val old \<le> max_safe"
    using om.total_ge [OF inv old, of val] ok by (simp add: coin_ok_val)
  then have "coin_add (if val new = 0 then coin_ZERO else new) s = old"
    using vals(1) by (subst coin_eq_iff, subst val_coin_add) auto
  moreover have "balance_add b s = Inr (va_balance v)"
    using b ok by (intro balance_sub_add) simp_all
  ultimately show "add_stake a s v' = Inr v"
    using inv old by (cases v) (auto simp: v' add_stake_def with_balance_def Let_def om.ins_rem om.ins_ins om.ins_present)
qed

lemma sub_stake_Inl:
  assumes "validator_ok v" "sub_stake a s e v = (Inl err, w)"
  shows "w = v" "err \<noteq> Panic"
proof -
  note ok = assms(1) [unfolded validator_ok_def]
  have "val (va_balance v) \<ge> val s" if "om_get (va_stakes v) a = Some old" "balance_sub old s = Inr new" for old new
    using om.total_ge [OF _ that(1), of val] that(2) ok stakes_wfD(1) by (fastforce simp: balance_sub_Inr)
  then have "w = v \<and> err \<noteq> Panic"
    using assms(2) ok
    by (fastforce simp: sub_stake_def sbind_eq_Inl Let_def balance_sub_Inl coin_ok_val split: option.splits)
  then show "w = v" "err \<noteq> Panic" by simp_all
qed

lemma add_stake_Inl: "add_stake a s v = Inl e \<Longrightarrow> e = Err AE_InvalidCoinValue"
  by (auto simp: add_stake_def rbind_eq_Inl balance_add_Inl Let_def)

section \<open>The invariant\<close>

definition inactive_wf :: "(address, inactive_stake) omap \<Rightarrow> bool" where
  "inactive_wf m \<longleftrightarrow> om_inv m \<and> (\<forall>(a, i) \<in> set m. val (is_balance i) \<noteq> 0 \<and> address_ok a)"

lemma inactive_wfD: "inactive_wf m \<Longrightarrow> om_inv m" "inactive_wf m \<Longrightarrow> om_get m a = Some i \<Longrightarrow> val (is_balance i) \<noteq> 0 \<and> address_ok a"
  by (auto simp: inactive_wf_def dest: om_get_SomeD)

lemma inactive_wf_insert: "inactive_wf m \<Longrightarrow> val (is_balance i) \<noteq> 0 \<Longrightarrow> address_ok a \<Longrightarrow> inactive_wf (om_insert a i m)"
  by (auto simp: inactive_wf_def om_ball_get)

lemma inactive_wf_remove: "inactive_wf m \<Longrightarrow> inactive_wf (om_remove a m)"
  by (auto simp: inactive_wf_def om_ball_get)

definition disabled_wf :: "disabled_slots \<Rightarrow> bool" where
  "disabled_wf m \<longleftrightarrow> om_inv m \<and> (\<forall>(k, s) \<in> set m. os_inv s \<and> s \<noteq> [])"

lemma disabled_wfD: "disabled_wf m \<Longrightarrow> om_inv m" "disabled_wf m \<Longrightarrow> om_get m k = Some s \<Longrightarrow> os_inv s \<and> s \<noteq> []"
  by (auto simp: disabled_wf_def dest: om_get_SomeD)

lemma disabled_wf_insert: "disabled_wf m \<Longrightarrow> os_inv s \<Longrightarrow> s \<noteq> [] \<Longrightarrow> disabled_wf (om_insert k s m)"
  by (auto simp: disabled_wf_def om_ball_get split: if_splits; metis)

lemma disabled_wf_remove: "disabled_wf m \<Longrightarrow> disabled_wf (om_remove k m)"
  by (auto simp: disabled_wf_def om_ball_get split: if_splits; metis)

lemma wf_empties [simp]: "inactive_wf []" "disabled_wf []"
  by (simp_all add: inactive_wf_def disabled_wf_def)

definition park_wf :: "staking_contract \<Rightarrow> bool" where
  "park_wf c \<longleftrightarrow> os_inv (current_epoch_parking c) \<and> os_inv (previous_epoch_parking c) \<and>
    bitset_wf (current_lost_rewards c) \<and> bitset_wf (previous_lost_rewards c) \<and>
    disabled_wf (current_disabled_slots c) \<and> disabled_wf (previous_disabled_slots c)"

abbreviation stotal :: "staking_contract \<Rightarrow> nat" where
  "stotal c \<equiv> om_total (\<lambda>i. val (is_balance i)) (inactive_stake_by_address c)"

definition validators_ok :: "staking_contract \<Rightarrow> bool" where
  "validators_ok c \<longleftrightarrow> (\<forall>v \<in> {v. \<exists>k r. sc_lookup c k = Some (v, r)}. validator_ok v)"

lemma validators_okD: "validators_ok c \<Longrightarrow> sc_lookup c k = Some (v, r) \<Longrightarrow> validator_ok v"
  by (auto simp: validators_ok_def)

lemma validators_okI: "(\<And>k v r. sc_lookup c k = Some (v, r) \<Longrightarrow> validator_ok v) \<Longrightarrow> validators_ok c"
  by (auto simp: validators_ok_def)

text \<open>The balance of the contract is the sum of the balances of all validators and of all inactive stakes.\<close>

definition sc_wf :: "staking_contract \<Rightarrow> bool" where
  "sc_wf c \<longleftrightarrow> vals_wf c \<and> validators_ok c \<and> inactive_wf (inactive_stake_by_address c) \<and> park_wf c \<and>
    coin_ok (sc_balance c) \<and> val (sc_balance c) = vtotal c + stotal c"

lemma sc_wfD:
  assumes "sc_wf c"
  shows "vals_wf c" "validators_ok c" "inactive_wf (inactive_stake_by_address c)" "park_wf c" "coin_ok (sc_balance c)"
    "val (sc_balance c) = vtotal c + stotal c" "val (sc_balance c) \<le> max_safe"
  using assms by (simp_all add: sc_wf_def coin_ok_val)

lemma sc_wf_default: "sc_wf staking_contract_default"
proof -
  have "vals_wf staking_contract_default"
    by (simp add: vals_wf_def staking_contract_default_def consistent_def vset_inv_def)
  moreover have "sc_lookup staking_contract_default k = None" for k
    by (simp add: sc_lookup_def staking_contract_default_def)
  ultimately show ?thesis
    by (simp add: sc_wf_def validators_ok_def park_wf_def staking_contract_default_def vtotal_def om.total_empty coin_ok_val bitset.inv_empty)
qed

text \<open>The parts of the contract that do not concern validators can be changed independently.\<close>

lemma sc_lookup_update [simp]:
  "sc_lookup (c\<lparr>sc_balance := b\<rparr>) = sc_lookup c" "sc_lookup (c\<lparr>inactive_stake_by_address := m\<rparr>) = sc_lookup c"
  "sc_lookup (c\<lparr>current_epoch_parking := p\<rparr>) = sc_lookup c" "sc_lookup (c\<lparr>previous_epoch_parking := p\<rparr>) = sc_lookup c"
  "sc_lookup (c\<lparr>current_lost_rewards := bs\<rparr>) = sc_lookup c" "sc_lookup (c\<lparr>previous_lost_rewards := bs\<rparr>) = sc_lookup c"
  "sc_lookup (c\<lparr>current_disabled_slots := d\<rparr>) = sc_lookup c" "sc_lookup (c\<lparr>previous_disabled_slots := d\<rparr>) = sc_lookup c"
  by (rule ext, simp add: sc_lookup_def split: option.split)+

lemma vals_wf_update [simp]:
  "vals_wf (c\<lparr>sc_balance := b\<rparr>) = vals_wf c" "vals_wf (c\<lparr>inactive_stake_by_address := m\<rparr>) = vals_wf c"
  "vals_wf (c\<lparr>current_epoch_parking := p\<rparr>) = vals_wf c" "vals_wf (c\<lparr>previous_epoch_parking := p\<rparr>) = vals_wf c"
  "vals_wf (c\<lparr>current_lost_rewards := bs\<rparr>) = vals_wf c" "vals_wf (c\<lparr>previous_lost_rewards := bs\<rparr>) = vals_wf c"
  "vals_wf (c\<lparr>current_disabled_slots := d\<rparr>) = vals_wf c" "vals_wf (c\<lparr>previous_disabled_slots := d\<rparr>) = vals_wf c"
  by (simp_all add: vals_wf_def)

lemma vtotal_update [simp]:
  "vtotal (c\<lparr>sc_balance := b\<rparr>) = vtotal c" "vtotal (c\<lparr>inactive_stake_by_address := m\<rparr>) = vtotal c"
  "vtotal (c\<lparr>current_epoch_parking := p\<rparr>) = vtotal c" "vtotal (c\<lparr>previous_epoch_parking := p\<rparr>) = vtotal c"
  "vtotal (c\<lparr>current_lost_rewards := bs\<rparr>) = vtotal c" "vtotal (c\<lparr>previous_lost_rewards := bs\<rparr>) = vtotal c"
  "vtotal (c\<lparr>current_disabled_slots := d\<rparr>) = vtotal c" "vtotal (c\<lparr>previous_disabled_slots := d\<rparr>) = vtotal c"
  by (simp_all add: vtotal_def)

lemma validators_ok_update [simp]:
  "validators_ok (c\<lparr>sc_balance := b\<rparr>) = validators_ok c" "validators_ok (c\<lparr>inactive_stake_by_address := m\<rparr>) = validators_ok c"
  "validators_ok (c\<lparr>current_epoch_parking := p\<rparr>) = validators_ok c" "validators_ok (c\<lparr>previous_epoch_parking := p\<rparr>) = validators_ok c"
  "validators_ok (c\<lparr>current_lost_rewards := bs\<rparr>) = validators_ok c" "validators_ok (c\<lparr>previous_lost_rewards := bs\<rparr>) = validators_ok c"
  "validators_ok (c\<lparr>current_disabled_slots := d\<rparr>) = validators_ok c" "validators_ok (c\<lparr>previous_disabled_slots := d\<rparr>) = validators_ok c"
  by (simp_all add: validators_ok_def)

lemma sc_put_del_update [simp]:
  "sc_put v r (c\<lparr>sc_balance := b\<rparr>) = (sc_put v r c)\<lparr>sc_balance := b\<rparr>" "sc_del k (c\<lparr>sc_balance := b\<rparr>) = (sc_del k c)\<lparr>sc_balance := b\<rparr>"
  by (cases r; simp add: sc_put_def) (simp add: sc_del_def remove_validator_def split: option.splits)

lemma park_wf_update [simp]:
  "park_wf (c\<lparr>sc_balance := b\<rparr>) = park_wf c" "park_wf (c\<lparr>inactive_stake_by_address := m\<rparr>) = park_wf c"
  "park_wf (sc_put v r c) = park_wf c" "park_wf (sc_del k c) = park_wf c"
  by (simp_all add: park_wf_def)

lemma validators_ok_put: "validators_ok c \<Longrightarrow> sc_lookup c (va_validator_key v) = None \<Longrightarrow> validator_ok v \<Longrightarrow> validators_ok (sc_put v r c)"
  by (rule validators_okI) (auto simp: lookup_put split: if_splits dest: validators_okD)

lemma validators_ok_del: "vals_wf c \<Longrightarrow> validators_ok c \<Longrightarrow> validators_ok (sc_del k c)"
  by (rule validators_okI) (auto simp: lookup_del split: if_splits dest: validators_okD)

section \<open>Changing the stakes of a validator\<close>

text \<open>What \<open>stake\<close>, \<open>revert_stake\<close>, \<open>retire_sender\<close> and \<open>revert_retire_sender\<close> do to the map of validators: one validator is
  replaced by the result of a function, or nothing happens.\<close>

definition change_validator ::
  "(coin, account_error) result \<Rightarrow> account_error \<Rightarrow> (validator \<Rightarrow> (validator, account_error) result) \<Rightarrow> bls_public_key \<Rightarrow> unit action" where
  "change_validator nb err g k c =
    (case nb of
       Inl e \<Rightarrow> (Inl e, c)
     | Inr b \<Rightarrow>
         (case sc_lookup c k of
            None \<Rightarrow> (Inl (Err err), c)
          | Some (v, r) \<Rightarrow>
              (case g v of Inl e \<Rightarrow> (Inl e, c) | Inr v' \<Rightarrow> (Inr (), (sc_put v' r (sc_del k c))\<lparr>sc_balance := b\<rparr>))))"

lemma mk_entry_simps [simp]:
  "as_validator (mk_entry v r err) = v" "set_entry_validator v' (mk_entry v r err) = mk_entry v' r err"
  "set_entry_error e (mk_entry v r err) = mk_entry v r (Some e)"
  by (cases r; simp)+

lemma entry_result_simps [simp]: "entry_result None = Inr ()" "entry_result (Some e) = Inl (Err e)"
  by (simp_all add: entry_result_def)

lemma restore_add_stake:
  assumes "vals_wf c" "sc_lookup c k = Some (v, r)"
  shows "restore_validator (try_add_stake a s (mk_entry v r None)) (sc_del k c) =
    (case add_stake a s v of Inl e \<Rightarrow> (Inl e, c) | Inr v' \<Rightarrow> (Inr (), sc_put v' r (sc_del k c)))"
  using put_del_same [OF assms]
  by (cases "add_stake a s v") (auto simp: try_add_stake_def restore_validator_eq dest: add_stake_Inl)

lemma restore_sub_stake:
  assumes "vals_wf c" "sc_lookup c k = Some (v, r)" "validator_ok v"
  shows "restore_validator (try_sub_stake a s e (mk_entry v r None)) (sc_del k c) =
    (case fst (sub_stake a s e v) of Inl err \<Rightarrow> (Inl err, c) | Inr v' \<Rightarrow> (Inr (), sc_put v' r (sc_del k c)))"
proof (cases "sub_stake a s e v")
  case (Pair res w)
  show ?thesis
  proof (cases res)
    case (Inl err)
    then obtain e' where "err = Err e'" "w = v"
      using sub_stake_Inl [OF assms(3) Pair [unfolded Inl]] by (cases err) auto
    then show ?thesis
      using put_del_same [OF assms(1,2)] Pair Inl by (simp add: try_sub_stake_def restore_validator_eq)
  qed (simp add: Pair try_sub_stake_def restore_validator_eq)
qed

lemmas staking_action_defs = stake_def revert_stake_def retire_sender_def revert_retire_sender_def change_validator_def
  ok_or_entry_def remove_validator_eq

lemma stake_changes:
  assumes "vals_wf c"
  shows "stake a s k c = change_validator (balance_add (sc_balance c) s) AE_InvalidForRecipient (add_stake a s) k c"
    and "revert_retire_sender a s k c = change_validator (balance_add (sc_balance c) s) AE_InvalidForSender (add_stake a s) k c"
  using restore_add_stake [OF assms, of k] sc_del_absent [of c k]
  by (cases "balance_add (sc_balance c) s"; cases "sc_lookup c k"; auto simp: staking_action_defs split: sum.splits)+

lemma unstake_changes:
  assumes "sc_wf c"
  shows "revert_stake a s k c =
      change_validator (balance_sub (sc_balance c) s) AE_InvalidForRecipient (\<lambda>v. fst (sub_stake a s AE_InvalidForRecipient v)) k c"
    and "retire_sender a s k c =
      change_validator (balance_sub (sc_balance c) s) AE_InvalidForSender (\<lambda>v. fst (sub_stake a s AE_InvalidForSender v)) k c"
  using restore_sub_stake [OF sc_wfD(1) [OF assms], of k _ _ a s] validators_okD [OF sc_wfD(2) [OF assms], of k] sc_del_absent [of c k]
  by (cases "balance_sub (sc_balance c) s"; cases "sc_lookup c k"; auto simp: staking_action_defs split: sum.splits)+

lemma change_validator_Inl: "change_validator nb err g k c = (Inl e, c') \<Longrightarrow> c' = c"
  by (auto simp: change_validator_def split: sum.splits option.splits prod.splits)

lemma change_validator_Inr:
  "change_validator nb err g k c = (Inr (), c') \<longleftrightarrow>
    (\<exists>b v r v'. nb = Inr b \<and> sc_lookup c k = Some (v, r) \<and> g v = Inr v' \<and> c' = (sc_put v' r (sc_del k c))\<lparr>sc_balance := b\<rparr>)"
  by (auto simp: change_validator_def split: sum.splits option.splits prod.splits)

lemma replace_validator_wf:
  assumes "sc_wf c" "sc_lookup c k = Some (v, r)" "validator_ok v'" "va_validator_key v' = k \<or> sc_lookup c (va_validator_key v') = None"
    and "val b + val (va_balance v) = val (sc_balance c) + val (va_balance v')" "val b \<le> max_safe"
  shows "sc_wf ((sc_put v' r' (sc_del k c))\<lparr>sc_balance := b\<rparr>)"
proof -
  note d = sc_wfD [OF assms(1)]
  have none: "sc_lookup (sc_del k c) (va_validator_key v') = None"
    using assms(4) d(1) by (auto simp: lookup_del)
  have tot: "vtotal (sc_put v' r' (sc_del k c)) + val (va_balance v) = vtotal c + val (va_balance v')"
    using vtotal_put [OF vals_wf_del [OF d(1)] none] vtotal_del [OF d(1) assms(2)] by simp
  show ?thesis
    using d(3-6) assms(3,5,6) tot none vals_wf_put [OF vals_wf_del [OF d(1)] none] validators_ok_put [OF validators_ok_del [OF d(1,2)] none assms(3)]
    by (simp add: sc_wf_def coin_ok_val)
qed

lemma change_validator_undo:
  assumes "sc_wf c" "sc_lookup c k = Some (v, r)" "va_validator_key v' = k" "nb = Inr (sc_balance c)" "g v' = Inr v"
  shows "change_validator nb err g k ((sc_put v' r (sc_del k c))\<lparr>sc_balance := b\<rparr>) = (Inr (), c)"
proof -
  have none: "sc_lookup (sc_del k c) (va_validator_key v') = None"
    using assms(3) sc_wfD(1) [OF assms(1)] by (simp add: lookup_del)
  have "sc_put v r (sc_del k (sc_put v' r (sc_del k c))) = c"
    using put_del_undo [OF sc_wfD(1) [OF assms(1)] assms(2), of v' r] assms(3) by simp
  then show ?thesis
    using assms(3-5) none by (simp add: change_validator_def lookup_put)
qed

lemma stake_ok:
  assumes "sc_wf c" "stake a s k c = (Inr u, c')" "val s \<noteq> 0" "address_ok a"
  shows "sc_wf c'" "val (sc_balance c') = val (sc_balance c) + val s" "revert_stake a s k c' = (Inr (), c)"
proof -
  note d = sc_wfD [OF assms(1)]
  obtain b v r v' where b: "balance_add (sc_balance c) s = Inr b" and v: "sc_lookup c k = Some (v, r)" "add_stake a s v = Inr v'"
    and c': "c' = (sc_put v' r (sc_del k c))\<lparr>sc_balance := b\<rparr>"
    using assms(2) by (auto simp: stake_changes [OF d(1)] change_validator_Inr)
  note a = add_stake_ok [OF validators_okD [OF d(2) v(1)] v(2) assms(3,4)]
  have key: "va_validator_key v' = k"
    using a(3) vals_wf_key [OF d(1) v(1)] by simp
  have vb: "val b = val (sc_balance c) + val s" "val b \<le> max_safe"
    using b by (simp_all add: balance_add_Inr)
  show wf: "sc_wf c'"
    unfolding c' by (rule replace_validator_wf [OF assms(1) v(1) a(1)]) (use key a(2) vb in simp_all)
  show "val (sc_balance c') = val (sc_balance c) + val s"
    by (simp add: c' vb)
  have "balance_sub (sc_balance c') s = Inr (sc_balance c)"
    using balance_add_sub [OF d(5) b] by (simp add: c')
  then show "revert_stake a s k c' = (Inr (), c)"
    unfolding unstake_changes(1) [OF wf] by (subst c') (rule change_validator_undo [OF assms(1) v(1) key]; simp add: a(4) c')
qed

lemma retire_sender_ok:
  assumes "sc_wf c" "retire_sender a s k c = (Inr u, c')"
  shows "sc_wf c'" "val (sc_balance c) = val (sc_balance c') + val s" "revert_retire_sender a s k c' = (Inr (), c)"
    "inactive_stake_by_address c' = inactive_stake_by_address c"
proof -
  note d = sc_wfD [OF assms(1)]
  obtain b v r v' where b: "balance_sub (sc_balance c) s = Inr b" and v: "sc_lookup c k = Some (v, r)"
    and fst: "fst (sub_stake a s AE_InvalidForSender v) = Inr v'"
    and c': "c' = (sc_put v' r (sc_del k c))\<lparr>sc_balance := b\<rparr>"
    using assms(2) by (auto simp: unstake_changes [OF assms(1)] change_validator_Inr)
  obtain w where sub: "sub_stake a s AE_InvalidForSender v = (Inr v', w)"
    using fst by (cases "sub_stake a s AE_InvalidForSender v") simp
  note a = sub_stake_ok [OF validators_okD [OF d(2) v(1)] sub]
  have key: "va_validator_key v' = k"
    using a(3) vals_wf_key [OF d(1) v(1)] by simp
  have vb: "val (sc_balance c) = val b + val s" "val b \<le> max_safe"
    using b by (simp_all add: balance_sub_Inr)
  show wf: "sc_wf c'"
    unfolding c' by (rule replace_validator_wf [OF assms(1) v(1) a(1)]) (use key a(2) vb in simp_all)
  show "val (sc_balance c) = val (sc_balance c') + val s" "inactive_stake_by_address c' = inactive_stake_by_address c"
    by (simp_all add: c' vb)
  have "balance_add (sc_balance c') s = Inr (sc_balance c)"
    using balance_sub_add [OF d(5) b] by (simp add: c')
  then show "revert_retire_sender a s k c' = (Inr (), c)"
    unfolding stake_changes(2) [OF sc_wfD(1) [OF wf]] by (subst c') (rule change_validator_undo [OF assms(1) v(1) key]; simp add: a(4) c')
qed

section \<open>Inactive stakes\<close>

lemma inactive_le: "sc_wf c \<Longrightarrow> om_get (inactive_stake_by_address c) a = Some i \<Longrightarrow> val (is_balance i) \<le> val (sc_balance c)"
  using om.total_ge [OF inactive_wfD(1) [OF sc_wfD(3)], of c a i "\<lambda>i. val (is_balance i)"] sc_wfD(6) [of c] by simp

lemma balance_add_coin: "val b + val s \<le> max_safe \<Longrightarrow> balance_add b s = Inr (coin_add b s)"
  by (simp add: balance_add_Inr val_coin_add)

lemma balance_sub_coin: "val s \<le> val b \<Longrightarrow> val b \<le> max_safe \<Longrightarrow> balance_sub b s = Inr (coin_sub b s)"
  by (simp add: balance_sub_Inr val_coin_sub)

definition joined :: "coin \<Rightarrow> u32 option \<Rightarrow> inactive_stake option \<Rightarrow> inactive_stake" where
  "joined s t i =
    (case i of
       None \<Rightarrow> \<lparr>is_balance = s, is_retire_time = the t\<rparr>
     | Some old \<Rightarrow> \<lparr>is_balance = coin_add (is_balance old) s, is_retire_time = (case t of Some t' \<Rightarrow> t' | None \<Rightarrow> is_retire_time old)\<rparr>)"

definition stake_receipt :: "inactive_stake option \<Rightarrow> inactive_stake_receipt option" where
  "stake_receipt i = map_option (\<lambda>old. \<lparr>isr_retire_time = is_retire_time old\<rparr>) i"

lemma retire_recipient_eq:
  assumes "sc_wf c"
  shows "retire_recipient a s t c =
    (if om_get (inactive_stake_by_address c) a = None \<and> t = None then (Inl (Err AE_InvalidReceipt), c)
     else if max_safe < val (sc_balance c) + val s then (Inl (Err AE_InvalidCoinValue), c)
     else (Inr (stake_receipt (om_get (inactive_stake_by_address c) a)),
           c\<lparr>sc_balance := coin_add (sc_balance c) s,
             inactive_stake_by_address :=
               om_insert a (joined s t (om_get (inactive_stake_by_address c) a)) (inactive_stake_by_address c)\<rparr>))"
proof (cases "max_safe < val (sc_balance c) + val s")
  case True
  then have "balance_add (sc_balance c) s = Inl (Err AE_InvalidCoinValue)"
    by (simp add: balance_add_Inl)
  with True show ?thesis
    by (simp add: retire_recipient_def om_contains_def)
next
  case False
  then have b: "balance_add (sc_balance c) s = Inr (coin_add (sc_balance c) s)"
    by (intro balance_add_coin) simp
  have nb: "balance_add (is_balance old) s = Inr (coin_add (is_balance old) s)" if "om_get (inactive_stake_by_address c) a = Some old" for old
    using inactive_le [OF assms that] False by (intro balance_add_coin) simp
  have inv: "om_inv (inactive_stake_by_address c)"
    using inactive_wfD(1) [OF sc_wfD(3) [OF assms]] .
  show ?thesis
    using False b nb
    by (cases "om_get (inactive_stake_by_address c) a"; cases t)
      (simp_all add: retire_recipient_def om_contains_def Let_def stake_receipt_def joined_def om.ins_rem [OF inv])
qed

lemma total_joined:
  assumes "sc_wf c" "val (sc_balance c) + val s \<le> max_safe"
  shows "om_total (\<lambda>i. val (is_balance i)) (om_insert a (joined s t (om_get (inactive_stake_by_address c) a)) (inactive_stake_by_address c)) =
    stotal c + val s"
proof (cases "om_get (inactive_stake_by_address c) a")
  case None
  then show ?thesis
    using om.total_ins_absent [OF inactive_wfD(1) [OF sc_wfD(3) [OF assms(1)]] None] by (simp add: joined_def)
next
  case (Some old)
  have "val (coin_add (is_balance old) s) = val (is_balance old) + val s"
    using inactive_le [OF assms(1) Some] assms(2) by (intro val_coin_add) simp
  then show ?thesis
    using om.total_ins_present [OF inactive_wfD(1) [OF sc_wfD(3) [OF assms(1)]] Some, of "\<lambda>i. val (is_balance i)" "joined s t (Some old)"] Some
    by (simp add: joined_def)
qed

lemma joined_wf: "inactive_wf m \<Longrightarrow> val s \<noteq> 0 \<Longrightarrow> (\<And>old. om_get m a = Some old \<Longrightarrow> val (is_balance old) + val s < 2 ^ 64) \<Longrightarrow> address_ok a \<Longrightarrow>
    inactive_wf (om_insert a (joined s t (om_get m a)) m)"
  by (intro inactive_wf_insert) (auto simp: joined_def val_coin_add split: option.splits)

lemma retire_recipient_wf:
  assumes "sc_wf c" "retire_recipient a s t c = (Inr receipt, c')" "val s \<noteq> 0" "address_ok a"
  shows "sc_wf c'" "val (sc_balance c') = val (sc_balance c) + val s"
proof -
  note d = sc_wfD [OF assms(1)]
  have le: "val (sc_balance c) + val s \<le> max_safe"
    and c': "c' = c\<lparr>sc_balance := coin_add (sc_balance c) s,
      inactive_stake_by_address := om_insert a (joined s t (om_get (inactive_stake_by_address c) a)) (inactive_stake_by_address c)\<rparr>"
    using assms(2) by (auto simp: retire_recipient_eq [OF assms(1)] split: if_splits)
  have bal: "val (coin_add (sc_balance c) s) = val (sc_balance c) + val s"
    using le by (intro val_coin_add) simp
  show "val (sc_balance c') = val (sc_balance c) + val s"
    by (simp add: c' bal)
  have "inactive_wf (om_insert a (joined s t (om_get (inactive_stake_by_address c) a)) (inactive_stake_by_address c))"
    using inactive_le [OF assms(1)] le by (intro joined_wf d assms(3,4)) fastforce
  then show "sc_wf c'"
    using d bal le total_joined [OF assms(1) le, of a t] by (simp add: sc_wf_def c' coin_ok_val)
qed

lemma retire_recipient_Inl: "sc_wf c \<Longrightarrow> retire_recipient a s t c = (Inl e, c') \<Longrightarrow> c' = c \<and> e \<noteq> Panic"
  by (auto simp: retire_recipient_eq split: if_splits)

text \<open>Taking a part of an inactive stake away.\<close>

definition reduced :: "address \<Rightarrow> coin \<Rightarrow> u32 \<Rightarrow> inactive_stake \<Rightarrow> (address, inactive_stake) omap \<Rightarrow> (address, inactive_stake) omap" where
  "reduced a s t old m =
    (if is_balance old > s then om_insert a \<lparr>is_balance = coin_sub (is_balance old) s, is_retire_time = t\<rparr> m else om_remove a m)"

lemma reactivate_sender_general:
  assumes "om_inv (inactive_stake_by_address c)" "om_get (inactive_stake_by_address c) a = Some old"
    and "val s \<le> val (is_balance old)" "val (is_balance old) \<le> max_safe" "val s \<le> val (sc_balance c)" "val (sc_balance c) \<le> max_safe"
  shows "reactivate_sender a s t c =
    (Inr (if is_balance old > s then None else Some \<lparr>isr_retire_time = is_retire_time old\<rparr>),
     c\<lparr>sc_balance := coin_sub (sc_balance c) s,
       inactive_stake_by_address :=
         reduced a s (case t of Some t' \<Rightarrow> t' | None \<Rightarrow> is_retire_time old) old (inactive_stake_by_address c)\<rparr>)"
proof -
  have "balance_sub (sc_balance c) s = Inr (coin_sub (sc_balance c) s)" "balance_sub (is_balance old) s = Inr (coin_sub (is_balance old) s)"
    using assms(3-6) by (intro balance_sub_coin; simp)+
  then show ?thesis
    using assms(2) by (simp add: reactivate_sender_def Let_def reduced_def om.ins_rem [OF assms(1)])
qed

lemma reactivate_sender_eq:
  assumes "om_inv (inactive_stake_by_address c)" "om_get (inactive_stake_by_address c) a = Some old"
    and "val s \<le> val (is_balance old)" "val (is_balance old) \<le> val (sc_balance c)" "val (sc_balance c) \<le> max_safe"
  shows "reactivate_sender a s t c =
    (Inr (if is_balance old > s then None else Some \<lparr>isr_retire_time = is_retire_time old\<rparr>),
     c\<lparr>sc_balance := coin_sub (sc_balance c) s,
       inactive_stake_by_address :=
         reduced a s (case t of Some t' \<Rightarrow> t' | None \<Rightarrow> is_retire_time old) old (inactive_stake_by_address c)\<rparr>)"
  by (rule reactivate_sender_general [OF assms(1-3)]) (use assms(3-5) in simp_all)

lemma unstake_eq:
  assumes "om_inv (inactive_stake_by_address c)" "om_get (inactive_stake_by_address c) a = Some old"
    and "val s \<le> val (is_balance old)" "val (is_balance old) \<le> val (sc_balance c)" "val (sc_balance c) \<le> max_safe"
  shows "unstake a s c = reactivate_sender a s None c"
  using assms(2,3) by (auto simp: unstake_def reactivate_sender_def Let_def coin_less_val coin_eq_iff intro!: arg_cong [of _ _ "sbind _"] ext)

lemma reduced_wf:
  assumes "inactive_wf m" "om_get m a = Some old" "val s \<le> val (is_balance old)"
  shows "inactive_wf (reduced a s t old m)"
    and "om_total (\<lambda>i. val (is_balance i)) (reduced a s t old m) + val s = om_total (\<lambda>i. val (is_balance i)) m"
proof -
  show "inactive_wf (reduced a s t old m)"
    using assms by (auto simp: reduced_def coin_less_val val_coin_sub dest: inactive_wfD(2) intro!: inactive_wf_insert inactive_wf_remove)
  show "om_total (\<lambda>i. val (is_balance i)) (reduced a s t old m) + val s = om_total (\<lambda>i. val (is_balance i)) m"
    using om.total_rem [OF inactive_wfD(1) [OF assms(1)] assms(2), of "\<lambda>i. val (is_balance i)"]
      om.total_ins_present [OF inactive_wfD(1) [OF assms(1)] assms(2), of "\<lambda>i. val (is_balance i)" "\<lparr>is_balance = coin_sub (is_balance old) s, is_retire_time = t\<rparr>"]
      assms(3)
    by (auto simp: reduced_def coin_less_val val_coin_sub)
qed

lemma reactivate_sender_wf:
  assumes "sc_wf c" "om_get (inactive_stake_by_address c) a = Some old" "val s \<le> val (is_balance old)"
    and "reactivate_sender a s t c = (Inr receipt, c')"
  shows "sc_wf c'" "val (sc_balance c) = val (sc_balance c') + val s"
proof -
  note d = sc_wfD [OF assms(1)] and le = inactive_le [OF assms(1,2)]
  have c': "c' = c\<lparr>sc_balance := coin_sub (sc_balance c) s,
      inactive_stake_by_address := reduced a s (case t of Some t' \<Rightarrow> t' | None \<Rightarrow> is_retire_time old) old (inactive_stake_by_address c)\<rparr>"
    using assms(4) reactivate_sender_eq [OF inactive_wfD(1) [OF d(3)] assms(2,3) le d(7)] by simp
  have bal: "val (coin_sub (sc_balance c) s) = val (sc_balance c) - val s"
    using le assms(3) by (intro val_coin_sub) simp
  show "val (sc_balance c) = val (sc_balance c') + val s"
    using le assms(3) by (simp add: c' bal)
  show "sc_wf c'"
    using d bal reduced_wf [OF d(3) assms(2,3), of "case t of Some t' \<Rightarrow> t' | None \<Rightarrow> is_retire_time old"]
    by (auto simp: sc_wf_def c' coin_ok_val)
qed

lemma joined_greater: "val s \<noteq> 0 \<Longrightarrow> (\<And>old. i = Some old \<Longrightarrow> val (is_balance old) \<noteq> 0 \<and> val (is_balance old) + val s < 2 ^ 64) \<Longrightarrow>
    s < is_balance (joined s t i) \<longleftrightarrow> i \<noteq> None"
  by (auto simp: joined_def coin_less_val val_coin_add split: option.splits)

lemma reduced_joined:
  assumes "inactive_wf m" "val s \<noteq> 0" "\<And>old. om_get m a = Some old \<Longrightarrow> val (is_balance old) + val s < 2 ^ 64"
  shows "reduced a s (case stake_receipt (om_get m a) of Some r \<Rightarrow> isr_retire_time r | None \<Rightarrow> 0) (joined s t (om_get m a))
    (om_insert a (joined s t (om_get m a)) m) = m"
proof -
  have "s < is_balance (joined s t (om_get m a)) \<longleftrightarrow> om_get m a \<noteq> None"
    using assms inactive_wfD(2) [OF assms(1), of a] by (intro joined_greater) auto
  then show ?thesis
    using inactive_wfD(1) [OF assms(1)]
    by (cases "om_get m a")
      (simp_all add: reduced_def stake_receipt_def joined_def coin_add_sub_cancel om.rem_ins om.rem_absent om.ins_ins om.ins_present)
qed

lemma retire_recipient_undo:
  assumes "sc_wf c" "retire_recipient a s (Some t) c = (Inr receipt, c')" "val s \<noteq> 0" "address_ok a"
  shows "revert_retire_recipient a s receipt c' = (Inr (), c)"
proof -
  note d = sc_wfD [OF assms(1)] and wf' = sc_wfD [OF retire_recipient_wf(1) [OF assms]]
  let ?m = "inactive_stake_by_address c"
  let ?j = "joined s (Some t) (om_get ?m a)"
  have le: "val (sc_balance c) + val s \<le> max_safe" and receipt: "receipt = stake_receipt (om_get ?m a)"
    and c': "c' = c\<lparr>sc_balance := coin_add (sc_balance c) s, inactive_stake_by_address := om_insert a ?j ?m\<rparr>"
    using assms(2) by (auto simp: retire_recipient_eq [OF assms(1)] split: if_splits)
  have small: "val (is_balance old) + val s < 2 ^ 64" if "om_get ?m a = Some old" for old
    using inactive_le [OF assms(1) that] le by simp
  have gt: "s < is_balance ?j \<longleftrightarrow> om_get ?m a \<noteq> None"
    using small inactive_wfD(2) [OF d(3), of a] assms(3) by (intro joined_greater) auto
  have get: "om_get (inactive_stake_by_address c') a = Some ?j"
    by (simp add: c')
  have "val s \<le> val (is_balance ?j)"
    using gt by (cases "om_get ?m a") (auto simp: joined_def coin_less_val)
  then have "reactivate_sender a s (Some (case receipt of Some r \<Rightarrow> isr_retire_time r | None \<Rightarrow> 0)) c' =
      (Inr (if is_balance ?j > s then None else Some \<lparr>isr_retire_time = is_retire_time ?j\<rparr>), c)"
    using reduced_joined [OF d(3) assms(3) small, of a "Some t"]
    by (subst reactivate_sender_eq [OF inactive_wfD(1) [OF wf'(3)] get _ inactive_le [OF retire_recipient_wf(1) [OF assms] get] wf'(7)])
      (simp_all add: c' receipt coin_add_sub_cancel)
  then show ?thesis
    using gt by (simp add: revert_retire_recipient_def get receipt discard_def stake_receipt_def)
qed

lemma joined_reduced:
  assumes "om_inv m" "om_get m a = Some old" "val s \<le> val (is_balance old)"
    and "receipt = (if is_balance old > s then None else Some \<lparr>isr_retire_time = is_retire_time old\<rparr>)"
  shows "om_insert a (joined s (map_option isr_retire_time receipt) (om_get (reduced a s (is_retire_time old) old m) a)) (reduced a s (is_retire_time old) old m) = m"
proof (cases "is_balance old > s")
  case False
  then have "s = is_balance old"
    using assms(3) by (simp add: coin_less_val coin_eq_iff)
  with False assms show ?thesis
    by (simp add: reduced_def joined_def om.ins_rem om.ins_present)
next
  case True
  with assms show ?thesis
    by (simp add: reduced_def joined_def coin_add_sub_cancel om.ins_ins om.ins_present)
qed

lemma reactivate_sender_undo:
  assumes "sc_wf c" "om_get (inactive_stake_by_address c) a = Some old" "val s \<le> val (is_balance old)"
    and "reactivate_sender a s None c = (Inr receipt, c')"
  shows "revert_reactivate_sender a s receipt c' = (Inr (), c)" "revert_unstake a s receipt c' = (Inr (), c)"
proof -
  note d = sc_wfD [OF assms(1)] and le = inactive_le [OF assms(1,2)] and wf' = reactivate_sender_wf [OF assms]
  let ?m = "inactive_stake_by_address c"
  let ?m' = "reduced a s (is_retire_time old) old ?m"
  have receipt: "receipt = (if is_balance old > s then None else Some \<lparr>isr_retire_time = is_retire_time old\<rparr>)"
    and c': "c' = c\<lparr>sc_balance := coin_sub (sc_balance c) s, inactive_stake_by_address := ?m'\<rparr>"
    using assms(4) reactivate_sender_eq [OF inactive_wfD(1) [OF d(3)] assms(2,3) le d(7)] by simp_all
  have get: "om_get ?m' a = None \<longleftrightarrow> receipt \<noteq> None"
    by (simp add: reduced_def receipt)
  have sum: "val (sc_balance c') + val s \<le> max_safe"
    using wf'(2) d(7) by simp
  have undo: "om_insert a (joined s (map_option isr_retire_time receipt) (om_get ?m' a)) ?m' = ?m"
    using joined_reduced [OF inactive_wfD(1) [OF d(3)] assms(2,3) receipt] .
  show "revert_reactivate_sender a s receipt c' = (Inr (), c)"
    unfolding revert_reactivate_sender_def retire_recipient_eq [OF wf'(1)] discard_def
    using sum undo get by (auto simp: c' coin_add_sub_cancel)
  have inv': "om_inv ?m'"
    using inactive_wfD(1) [OF sc_wfD(3) [OF wf'(1)]] by (simp add: c')
  have bal: "balance_add (sc_balance c') s = Inr (sc_balance c)"
    using balance_add_coin [OF sum] by (simp add: c' coin_add_sub_cancel)
  show "revert_unstake a s receipt c' = (Inr (), c)"
  proof (cases receipt)
    case None
    then obtain i where i: "om_get ?m' a = Some i"
      using get by auto
    moreover have "balance_add (is_balance i) s = Inr (coin_add (is_balance i) s)"
      using inactive_le [OF wf'(1), of a i] i sum by (intro balance_add_coin) (simp add: c')
    ultimately show ?thesis
      using undo None bal by (simp add: revert_unstake_def c' Let_def om.ins_rem [OF inv'] joined_def)
  next
    case (Some r)
    then show ?thesis
      using undo get bal by (simp add: revert_unstake_def c' Let_def joined_def)
  qed
qed

end
