(* ===== verification/Staking_Drop.thy ===== *)
theory Staking_Drop
  imports Staking_Actions
begin

text \<open>
  The actions of validators keep the invariant and are undone by their reverting counterparts: creation, update, retirement, reactivation,
  unparking, and dropping, which retires every stake of the validator.
\<close>

section \<open>Creating, updating, retiring and reactivating\<close>

lemma del_put_absent:
  assumes "vals_wf c" "sc_lookup c (va_validator_key v) = None"
  shows "sc_del (va_validator_key v) (sc_put v r c) = c"
  using assms by (intro vals_eqI) (auto simp: vals_wf_put vals_wf_del lookup_del lookup_put)

lemma validator_new_simps [simp]:
  "va_balance (validator_new s a k) = s" "va_validator_key (validator_new s a k) = k" "va_stakes (validator_new s a k) = []"
  "va_reward_address (validator_new s a k) = a"
  by (simp_all add: validator_new_def)

lemma create_validator_eq:
  "create_validator k a s c =
    (if sc_lookup c k \<noteq> None then (Inl (Err AE_InvalidForRecipient), c)
     else sbind (balance_add (sc_balance c) s, c) (\<lambda>b c. (Inr (), (sc_put (validator_new s a k) None c)\<lparr>sc_balance := b\<rparr>)))"
  by (auto simp: create_validator_def sc_lookup_None sc_put_def Let_def intro!: arg_cong [of _ _ "sbind _"] ext)

lemma revert_create_validator_eq:
  assumes "sc_lookup c k = Some (v, None)"
  shows "revert_create_validator k s c =
    (case balance_sub (sc_balance c) s of
       Inl e \<Rightarrow> (Inl e, c\<lparr>active_validators_by_key := om_remove k (active_validators_by_key c)\<rparr>)
     | Inr b \<Rightarrow> (Inr (), (sc_del k c)\<lparr>sc_balance := b\<rparr>))"
  using assms
  by (auto simp: revert_create_validator_def sc_lookup_def sc_del_def remove_validator_def Let_def split: option.splits sum.splits)

lemma create_validator_ok:
  assumes "sc_wf c" "create_validator k a s c = (Inr u, c')" "address_ok a" "bls_key_ok k"
  shows "sc_wf c'" "val (sc_balance c') = val (sc_balance c) + val s" "revert_create_validator k s c' = (Inr (), c)"
proof -
  note d = sc_wfD [OF assms(1)]
  let ?v = "validator_new s a k"
  obtain b where none: "sc_lookup c k = None" and b: "balance_add (sc_balance c) s = Inr b"
    and c': "c' = (sc_put ?v None c)\<lparr>sc_balance := b\<rparr>"
    using assms(2) by (cases "sc_lookup c k") (auto simp: create_validator_eq sbind_eq_Inr)
  have vb: "val b = val (sc_balance c) + val s" "val b \<le> max_safe"
    using b by (simp_all add: balance_add_Inr)
  have v: "validator_ok ?v"
    using assms(3,4) vb by (simp add: validator_ok_def coin_ok_val om.total_empty)
  show "val (sc_balance c') = val (sc_balance c) + val s"
    by (simp add: c' vb)
  show "sc_wf c'"
    using d none v vb vals_wf_put [OF d(1), of ?v None] validators_ok_put [OF d(2) _ v, of None] vtotal_put [OF d(1), of ?v None]
    by (simp add: sc_wf_def c' coin_ok_val)
  have "balance_sub b s = Inr (sc_balance c)"
    using balance_add_sub [OF d(5) b] .
  moreover have "sc_del k (sc_put ?v None c) = c"
    using del_put_absent [OF d(1), of ?v None] none by simp
  moreover have "sc_lookup c' k = Some (?v, None)"
    using none lookup_put [of c ?v None k] by (simp add: c')
  ultimately show "revert_create_validator k s c' = (Inr (), c)"
    by (subst revert_create_validator_eq) (simp_all add: c')
qed

lemma retire_validator_eq:
  "vals_wf c \<Longrightarrow> retire_validator k t c =
    (case om_get (active_validators_by_key c) k of
       None \<Rightarrow> (Inl (Err AE_InvalidForRecipient), c)
     | Some v \<Rightarrow> (Inr (), sc_put v (Some t) (sc_del k c)))"
  using keyedD [OF vals_wfD(4), of c k]
  by (auto simp: retire_validator_def sc_put_def sc_del_def remove_validator_def split: option.splits)

lemma reactivate_validator_eq:
  "vals_wf c \<Longrightarrow> reactivate_validator k c =
    (case om_get (inactive_validators_by_key c) k of
       None \<Rightarrow> (Inl (Err AE_InvalidForRecipient), c)
     | Some iv \<Rightarrow> (Inr \<lparr>ivr_retire_time = iv_retire_time iv\<rparr>, sc_put (iv_validator iv) None (sc_del k c)))"
  using keyedD [OF vals_wfD(5), of c k] vals_wfD(6) [of c k]
  by (auto simp: reactivate_validator_def sc_put_def sc_del_def remove_validator_def split: option.splits)

lemma put_same_balance [simp]: "(sc_put v r (sc_del k c))\<lparr>sc_balance := sc_balance c\<rparr> = sc_put v r (sc_del k c)"
proof -
  have "c'\<lparr>sc_balance := sc_balance c'\<rparr> = c'" for c' :: staking_contract
    by simp
  from this [of "sc_put v r (sc_del k c)"] show ?thesis by simp
qed

lemma move_validator:
  assumes "sc_wf c" "sc_lookup c k = Some (v, r)"
  shows "sc_wf (sc_put v r' (sc_del k c))" "sc_lookup (sc_put v r' (sc_del k c)) k = Some (v, r')"
    "sc_put v r (sc_del k (sc_put v r' (sc_del k c))) = c"
proof -
  note d = sc_wfD [OF assms(1)]
  have key: "va_validator_key v = k"
    using vals_wf_key [OF d(1) assms(2)] .
  have "sc_wf ((sc_put v r' (sc_del k c))\<lparr>sc_balance := sc_balance c\<rparr>)"
    by (rule replace_validator_wf [OF assms(1,2)]) (use validators_okD [OF d(2) assms(2)] key d(7) in simp_all)
  then show "sc_wf (sc_put v r' (sc_del k c))" by simp
  show "sc_lookup (sc_put v r' (sc_del k c)) k = Some (v, r')"
    using key d(1) by (simp add: lookup_put lookup_del)
  show "sc_put v r (sc_del k (sc_put v r' (sc_del k c))) = c"
    using put_del_undo [OF d(1) assms(2), of v r'] key by simp
qed

lemma retire_validator_ok:
  assumes "sc_wf c" "retire_validator k t c = (Inr u, c')"
  shows "sc_wf c'" "sc_balance c' = sc_balance c" "revert_retire_validator k c' = (Inr (), c)"
proof -
  note d = sc_wfD [OF assms(1)]
  obtain v where v: "sc_lookup c k = Some (v, None)" and c': "c' = sc_put v (Some t) (sc_del k c)"
    using assms(2) by (auto simp: retire_validator_eq [OF d(1)] vals_wf_active [OF d(1)] split: option.splits)
  note m = move_validator [OF assms(1) v, of "Some t", folded c']
  show "sc_wf c'" "sc_balance c' = sc_balance c"
    using m by (simp_all add: c')
  have "om_get (inactive_validators_by_key c') k = Some \<lparr>iv_validator = v, iv_retire_time = t\<rparr>"
    using m(2) vals_wf_inactive [OF sc_wfD(1) [OF m(1)]] by simp
  then show "revert_retire_validator k c' = (Inr (), c)"
    using m(3) by (simp add: revert_retire_validator_def reactivate_validator_eq [OF sc_wfD(1) [OF m(1)]] discard_def)
qed

lemma reactivate_validator_ok:
  assumes "sc_wf c" "reactivate_validator k c = (Inr receipt, c')"
  shows "sc_wf c'" "sc_balance c' = sc_balance c" "revert_reactivate_validator k receipt c' = (Inr (), c)"
proof -
  note d = sc_wfD [OF assms(1)]
  obtain iv where iv: "om_get (inactive_validators_by_key c) k = Some iv" and receipt: "receipt = \<lparr>ivr_retire_time = iv_retire_time iv\<rparr>"
    and c': "c' = sc_put (iv_validator iv) None (sc_del k c)"
    using assms(2) by (auto simp: reactivate_validator_eq [OF d(1)] split: option.splits)
  have v: "sc_lookup c k = Some (iv_validator iv, Some (iv_retire_time iv))"
    using vals_wf_inactive [OF d(1)] iv by simp
  note m = move_validator [OF assms(1) v, of None, folded c']
  show "sc_wf c'" "sc_balance c' = sc_balance c"
    using m by (simp_all add: c')
  have "om_get (active_validators_by_key c') k = Some (iv_validator iv)"
    using m(2) vals_wf_active [OF sc_wfD(1) [OF m(1)]] by simp
  then show "revert_reactivate_validator k receipt c' = (Inr (), c)"
    using m(3) by (simp add: revert_reactivate_validator_def retire_validator_eq [OF sc_wfD(1) [OF m(1)]] receipt)
qed

lemma update_validator_eq:
  "update_validator k k' a c =
    (case sc_lookup c k of
       None \<Rightarrow> (Inl (Err AE_InvalidForRecipient), c)
     | Some (v, r) \<Rightarrow> (Inr \<lparr>uvr_old_reward_address = va_reward_address v\<rparr>, sc_put (va_update_validator a k' v) r (sc_del k c)))"
  using sc_del_absent [of c k]
  by (auto simp: update_validator_def ok_or_entry_def remove_validator_eq entry_update_validator_def restore_validator_eq Let_def split: option.splits)

lemma revert_update_validator_eq:
  "revert_update_validator k k' receipt c =
    (case sc_lookup c (case k' of Some k'' \<Rightarrow> k'' | None \<Rightarrow> k) of
       None \<Rightarrow> (Inl (Err AE_InvalidForRecipient), c)
     | Some (v, r) \<Rightarrow>
         (Inr (), sc_put (va_update_validator (Some (uvr_old_reward_address receipt)) (Some k) v) r
           (sc_del (case k' of Some k'' \<Rightarrow> k'' | None \<Rightarrow> k) c)))"
  using sc_del_absent [of c "case k' of Some k'' \<Rightarrow> k'' | None \<Rightarrow> k"]
  by (cases "sc_lookup c (case k' of Some k'' \<Rightarrow> k'' | None \<Rightarrow> k)")
    (auto simp: revert_update_validator_def ok_or_entry_def remove_validator_eq entry_update_validator_def restore_validator_eq)

text \<open>The new key must not belong to another validator.\<close>

definition key_free :: "bls_public_key \<Rightarrow> bls_public_key option \<Rightarrow> staking_contract \<Rightarrow> bool" where
  "key_free k k' c \<longleftrightarrow> (case k' of None \<Rightarrow> True | Some k'' \<Rightarrow> k'' = k \<or> get_validator k'' c = None)"

lemma update_validator_ok:
  assumes "sc_wf c" "update_validator k k' a c = (Inr receipt, c')" "key_free k k' c" "wf_option bls_key_ok k'" "wf_option address_ok a"
  shows "sc_wf c'" "sc_balance c' = sc_balance c" "revert_update_validator k k' receipt c' = (Inr (), c)" "address_ok (uvr_old_reward_address receipt)"
proof -
  note d = sc_wfD [OF assms(1)]
  obtain v r where v: "sc_lookup c k = Some (v, r)" and receipt: "receipt = \<lparr>uvr_old_reward_address = va_reward_address v\<rparr>"
    and c': "c' = sc_put (va_update_validator a k' v) r (sc_del k c)"
    using assms(2) by (auto simp: update_validator_eq split: option.splits)
  let ?v' = "va_update_validator a k' v"
  let ?k = "case k' of Some k'' \<Rightarrow> k'' | None \<Rightarrow> k"
  have key: "va_validator_key v = k" and ok: "validator_ok v"
    using vals_wf_key [OF d(1) v] validators_okD [OF d(2) v] .
  have key': "va_validator_key ?v' = ?k"
    by (auto simp: va_update_validator_def key split: option.splits)
  have free: "va_validator_key ?v' = k \<or> sc_lookup c (va_validator_key ?v') = None"
    using assms(3) by (auto simp: key' key_free_def get_validator_lookup split: option.splits)
  have ok': "validator_ok ?v'"
    using ok assms(4,5) by (auto simp: validator_ok_def va_update_validator_def split: option.splits)
  have "sc_wf ((sc_put ?v' r (sc_del k c))\<lparr>sc_balance := sc_balance c\<rparr>)"
    by (rule replace_validator_wf [OF assms(1) v ok' free]) (use d(7) in \<open>simp_all add: va_update_validator_def\<close>)
  then show "sc_wf c'"
    by (simp add: c')
  show "sc_balance c' = sc_balance c" "address_ok (uvr_old_reward_address receipt)"
    using ok by (simp_all add: c' receipt validator_ok_def)
  have "sc_lookup c' ?k = Some (?v', r)"
    using free d(1) lookup_put [of "sc_del k c" ?v' r ?k] by (auto simp: c' key' lookup_del)
  moreover have "va_update_validator (Some (va_reward_address v)) (Some k) ?v' = v"
    by (cases v) (use key in \<open>simp add: va_update_validator_def\<close>)
  ultimately show "revert_update_validator k k' receipt c' = (Inr (), c)"
    using put_del_undo [OF d(1) v free, of r] by (simp add: revert_update_validator_eq receipt key' c')
qed

section \<open>Parking\<close>

lemma unpark_validator_ok:
  assumes "park_wf c" "unpark_validator k c = (Inr receipt, c')"
  shows "park_wf c'" "revert_unpark_validator k receipt c' = (Inr (), c)"
proof -
  note w = assms(1) [unfolded park_wf_def]
  show "park_wf c'"
    using assms by (auto simp: unpark_validator_def Let_def park_wf_def disabled_wf_remove split: if_splits)
  show "revert_unpark_validator k receipt c' = (Inr (), c)"
    using assms(2) w disabled_wfD(1)
    by (cases c) (auto simp: unpark_validator_def Let_def revert_unpark_validator_def os.ins_rem_present os.rem_absent om.ins_rem om.ins_present
        om.rem_absent split: if_splits option.splits)
qed

lemma unpark_validator_Inl:
  assumes "park_wf c" "unpark_validator k c = (Inl e, c')"
  shows "c' = c \<and> e \<noteq> Panic"
  using assms disabled_wfD(1)
  by (cases c) (auto simp: unpark_validator_def Let_def park_wf_def os.rem_absent om.rem_absent split: if_splits)

lemma unpark_validator_frame:
  assumes "unpark_validator k c = (r, c')"
  shows "sc_balance c' = sc_balance c" "inactive_stake_by_address c' = inactive_stake_by_address c" "sc_lookup c' = sc_lookup c"
    "vals_wf c' = vals_wf c" "vtotal c' = vtotal c" "validators_ok c' = validators_ok c"
proof -
  have c': "c' = c\<lparr>current_epoch_parking := os_remove k (current_epoch_parking c), previous_epoch_parking := os_remove k (previous_epoch_parking c),
         current_disabled_slots := om_remove k (current_disabled_slots c),
         previous_disabled_slots := om_remove k (previous_disabled_slots c)\<rparr>"
    using assms by (auto simp: unpark_validator_def Let_def split: if_splits)
  show "sc_balance c' = sc_balance c" "inactive_stake_by_address c' = inactive_stake_by_address c" "sc_lookup c' = sc_lookup c"
    "vals_wf c' = vals_wf c" "vtotal c' = vtotal c" "validators_ok c' = validators_ok c"
    by (simp_all add: c')
qed

lemma unpark_validator_wf: "sc_wf c \<Longrightarrow> unpark_validator k c = (Inr receipt, c') \<Longrightarrow> sc_wf c'"
  using unpark_validator_frame [of k c "Inr receipt" c'] unpark_validator_ok(1) [of c k receipt c']
  by (simp add: sc_wf_def)

section \<open>Dropping a validator\<close>

abbreviation stakes_sum :: "(address \<times> coin) list \<Rightarrow> nat" where
  "stakes_sum xs \<equiv> sum_list (map (\<lambda>(a, s). val s) xs)"

definition retirements :: "(address, inactive_stake) omap \<Rightarrow> (address \<times> coin) list \<Rightarrow> (address \<times> retirement_receipt) list" where
  "retirements m xs = map (\<lambda>(a, s). (a, \<lparr>rr_stake = s, rr_inactive_stake_receipt = stake_receipt (om_get m a)\<rparr>)) xs"

definition after_retirement :: "(address \<times> coin) list \<Rightarrow> u32 \<Rightarrow> (address, inactive_stake) omap \<Rightarrow> address \<Rightarrow> inactive_stake option" where
  "after_retirement xs t m b = (case map_of xs b of None \<Rightarrow> om_get m b | Some s \<Rightarrow> Some (joined s (Some t) (om_get m b)))"

lemma retirements_cong: "(\<And>a. a \<in> fst ` set xs \<Longrightarrow> om_get m a = om_get m' a) \<Longrightarrow> retirements m xs = retirements m' xs"
  by (force simp: retirements_def intro!: map_cong)

lemma retirements_Cons [simp]:
  "retirements m ((a, s) # xs) = (a, \<lparr>rr_stake = s, rr_inactive_stake_receipt = stake_receipt (om_get m a)\<rparr>) # retirements m xs"
  "retirements m [] = []"
  by (simp_all add: retirements_def)

lemma retirements_keys [simp]: "fst ` set (retirements m xs) = fst ` set xs"
  by (force simp: retirements_def)

lemma om_inv_snoc: "om_inv (acc @ (a, x) # ys) \<Longrightarrow> om_insert a x acc = acc @ [(a, x)] \<and> a \<notin> fst ` set ys \<and> om_inv ((acc @ [(a, x)]) @ ys)"
  by (auto simp: om_inv_def sorted_wrt_append intro!: om_insert_last)

lemma retire_stakes_spec:
  assumes "sc_wf c" "om_inv (acc @ retirements (inactive_stake_by_address c) xs)"
    and "\<forall>(a, s) \<in> set xs. val s \<noteq> 0 \<and> address_ok a" "val (sc_balance c) + stakes_sum xs \<le> max_safe"
  shows "\<exists>b m. retire_stakes xs t acc c =
      (Inr (acc @ retirements (inactive_stake_by_address c) xs), c\<lparr>sc_balance := b, inactive_stake_by_address := m\<rparr>) \<and>
    sc_wf (c\<lparr>sc_balance := b, inactive_stake_by_address := m\<rparr>) \<and> val b = val (sc_balance c) + stakes_sum xs \<and>
    (\<forall>a. om_get m a = after_retirement xs t (inactive_stake_by_address c) a)"
  using assms
proof (induction xs arbitrary: c acc)
  case (Cons p xs)
  obtain a s where p: "p = (a, s)" by (cases p)
  define m0 where "m0 = inactive_stake_by_address c"
  define r where "r = \<lparr>rr_stake = s, rr_inactive_stake_receipt = stake_receipt (om_get m0 a)\<rparr>"
  define c1 where "c1 = c\<lparr>sc_balance := coin_add (sc_balance c) s, inactive_stake_by_address := om_insert a (joined s (Some t) (om_get m0 a)) m0\<rparr>"
  have ok: "val s \<noteq> 0" "address_ok a" and le: "val (sc_balance c) + val s \<le> max_safe"
    using Cons.prems(3,4) p by auto
  have step: "retire_recipient a s (Some t) c = (Inr (stake_receipt (om_get m0 a)), c1)"
    using le by (simp add: retire_recipient_eq [OF Cons.prems(1)] c1_def m0_def)
  note wf = retire_recipient_wf [OF Cons.prems(1) step ok]
  have snoc: "om_insert a r acc = acc @ [(a, r)]" "a \<notin> fst ` set xs" "om_inv ((acc @ [(a, r)]) @ retirements m0 xs)"
    using om_inv_snoc [of acc a r "retirements m0 xs"] Cons.prems(2) by (simp_all add: p r_def m0_def)
  have same: "retirements (inactive_stake_by_address c1) xs = retirements m0 xs"
    by (rule retirements_cong) (use snoc(2) in \<open>auto simp: c1_def\<close>)
  have "\<exists>b m. retire_stakes xs t (acc @ [(a, r)]) c1 =
      (Inr ((acc @ [(a, r)]) @ retirements (inactive_stake_by_address c1) xs), c1\<lparr>sc_balance := b, inactive_stake_by_address := m\<rparr>) \<and>
      sc_wf (c1\<lparr>sc_balance := b, inactive_stake_by_address := m\<rparr>) \<and> val b = val (sc_balance c1) + stakes_sum xs \<and>
      (\<forall>a'. om_get m a' = after_retirement xs t (inactive_stake_by_address c1) a')"
    by (rule Cons.IH [OF wf(1)]) (use Cons.prems(3,4) snoc(3) same wf(2) p in auto)
  then obtain b m where IH: "retire_stakes xs t (acc @ [(a, r)]) c1 = (Inr ((acc @ [(a, r)]) @ retirements m0 xs), c1\<lparr>sc_balance := b, inactive_stake_by_address := m\<rparr>)"
    "sc_wf (c1\<lparr>sc_balance := b, inactive_stake_by_address := m\<rparr>)" "val b = val (sc_balance c1) + stakes_sum xs"
    "\<And>a'. om_get m a' = after_retirement xs t (inactive_stake_by_address c1) a'"
    unfolding same by blast
  have c1: "c1\<lparr>sc_balance := b, inactive_stake_by_address := m\<rparr> = c\<lparr>sc_balance := b, inactive_stake_by_address := m\<rparr>"
    by (simp add: c1_def)
  have "retire_stakes (p # xs) t acc c = (Inr (acc @ retirements m0 (p # xs)), c\<lparr>sc_balance := b, inactive_stake_by_address := m\<rparr>)"
    using IH(1) step snoc(1) by (simp add: p c1 r_def)
  moreover have "map_of xs a = None"
    using snoc(2) by (simp add: map_of_eq_None_iff)
  then have "om_get m a' = after_retirement (p # xs) t m0 a'" for a'
    using IH(4) [of a'] by (auto simp: after_retirement_def p c1_def split: option.splits)
  ultimately show ?case
    using IH(2,3) wf(2) by (intro exI [of _ b] exI [of _ m]) (simp add: p c1 flip: m0_def)
next
  case Nil
  then show ?case
    by (intro exI [of _ "sc_balance c"] exI [of _ "inactive_stake_by_address c"]) (simp add: after_retirement_def)
qed

lemma unretire_step:
  assumes "inactive_wf m" "om_inv (inactive_stake_by_address c)" "val s \<noteq> 0"
    and "om_get (inactive_stake_by_address c) a = Some (joined s (Some t) (om_get m a))"
    and "\<And>old. om_get m a = Some old \<Longrightarrow> val (is_balance old) + val s \<le> max_safe"
    and "val s \<le> val (sc_balance c)" "val (sc_balance c) \<le> max_safe"
  shows "\<exists>m'. revert_retire_recipient a s (stake_receipt (om_get m a)) c =
      (Inr (), c\<lparr>sc_balance := coin_sub (sc_balance c) s, inactive_stake_by_address := m'\<rparr>) \<and> om_inv m' \<and>
    (\<forall>a'. om_get m' a' = (if a' = a then om_get m a else om_get (inactive_stake_by_address c) a'))"
proof -
  define j where "j = joined s (Some t) (om_get m a)"
  define u where "u = (case stake_receipt (om_get m a) of Some r \<Rightarrow> isr_retire_time r | None \<Rightarrow> 0)"
  define m' where "m' = reduced a s u j (inactive_stake_by_address c)"
  have gt: "s < is_balance j \<longleftrightarrow> om_get m a \<noteq> None"
    unfolding j_def using assms(3,5) inactive_wfD(2) [OF assms(1), of a] by (intro joined_greater) fastforce+
  have jv: "val s \<le> val (is_balance j)" "val (is_balance j) \<le> max_safe"
    using assms(5-7) by (cases "om_get m a"; simp add: j_def joined_def val_coin_add)+
  have "revert_retire_recipient a s (stake_receipt (om_get m a)) c =
      (Inr (), c\<lparr>sc_balance := coin_sub (sc_balance c) s, inactive_stake_by_address := m'\<rparr>)"
    using gt reactivate_sender_general [OF assms(2) assms(4) [folded j_def] jv assms(6,7), of "Some u"]
    by (simp add: revert_retire_recipient_def assms(4) [folded j_def] discard_def stake_receipt_def m'_def u_def)
  moreover have "om_get m' a' = (if a' = a then om_get m a else om_get (inactive_stake_by_address c) a')" for a'
    using gt by (cases "om_get m a") (auto simp: m'_def u_def reduced_def stake_receipt_def j_def joined_def coin_add_sub_cancel)
  moreover have "om_inv m'"
    using assms(2) by (simp add: m'_def reduced_def)
  ultimately show ?thesis by blast
qed

lemma unretire_stakes_spec:
  assumes "inactive_wf m" "om_inv (inactive_stake_by_address c)" "om_inv (acc @ xs)"
    and "\<forall>(a, s) \<in> set xs. val s \<noteq> 0 \<and> om_get (inactive_stake_by_address c) a = Some (joined s (Some t) (om_get m a)) \<and>
      (\<forall>old. om_get m a = Some old \<longrightarrow> val (is_balance old) + val s \<le> max_safe)"
    and "stakes_sum xs \<le> val (sc_balance c)" "val (sc_balance c) \<le> max_safe"
  shows "\<exists>b m'. unretire_stakes (retirements m xs) acc v c =
      (Inr (acc @ xs, foldl coin_add v (map snd xs)), c\<lparr>sc_balance := b, inactive_stake_by_address := m'\<rparr>) \<and>
    val (sc_balance c) = val b + stakes_sum xs \<and> om_inv m' \<and>
    (\<forall>a. om_get m' a = (if a \<in> fst ` set xs then om_get m a else om_get (inactive_stake_by_address c) a))"
  using assms(2-)
proof (induction xs arbitrary: c acc v)
  case (Cons p xs)
  obtain a s where p: "p = (a, s)" by (cases p)
  have pre: "val s \<noteq> 0" "om_get (inactive_stake_by_address c) a = Some (joined s (Some t) (om_get m a))"
    "\<And>old. om_get m a = Some old \<Longrightarrow> val (is_balance old) + val s \<le> max_safe" "val s \<le> val (sc_balance c)"
    using Cons.prems(3,4) by (auto simp: p)
  obtain m1 where step: "revert_retire_recipient a s (stake_receipt (om_get m a)) c =
      (Inr (), c\<lparr>sc_balance := coin_sub (sc_balance c) s, inactive_stake_by_address := m1\<rparr>)" "om_inv m1"
    and get: "\<And>a'. om_get m1 a' = (if a' = a then om_get m a else om_get (inactive_stake_by_address c) a')"
    using unretire_step [OF assms(1) Cons.prems(1) pre(1,2,3,4) Cons.prems(5)] by blast
  define c1 where "c1 = c\<lparr>sc_balance := coin_sub (sc_balance c) s, inactive_stake_by_address := m1\<rparr>"
  have snoc: "om_insert a s acc = acc @ [(a, s)]" "a \<notin> fst ` set xs" "om_inv ((acc @ [(a, s)]) @ xs)"
    using om_inv_snoc [of acc a s xs] Cons.prems(2) by (simp_all add: p)
  have bal: "val (sc_balance c1) = val (sc_balance c) - val s"
    using pre(4) by (simp add: c1_def val_coin_sub)
  have "\<exists>b m'. unretire_stakes (retirements m xs) (acc @ [(a, s)]) (coin_add v s) c1 =
      (Inr ((acc @ [(a, s)]) @ xs, foldl coin_add (coin_add v s) (map snd xs)), c1\<lparr>sc_balance := b, inactive_stake_by_address := m'\<rparr>) \<and>
      val (sc_balance c1) = val b + stakes_sum xs \<and> om_inv m' \<and>
      (\<forall>a'. om_get m' a' = (if a' \<in> fst ` set xs then om_get m a' else om_get (inactive_stake_by_address c1) a'))"
  proof (rule Cons.IH)
    show "\<forall>(a', s') \<in> set xs. val s' \<noteq> 0 \<and> om_get (inactive_stake_by_address c1) a' = Some (joined s' (Some t) (om_get m a')) \<and>
        (\<forall>old. om_get m a' = Some old \<longrightarrow> val (is_balance old) + val s' \<le> max_safe)"
    proof clarify
      fix a' s'
      assume mem: "(a', s') \<in> set xs"
      then have "a' \<noteq> a"
        using snoc(2) by force
      moreover have "val s' \<noteq> 0 \<and> om_get (inactive_stake_by_address c) a' = Some (joined s' (Some t) (om_get m a')) \<and>
          (\<forall>old. om_get m a' = Some old \<longrightarrow> val (is_balance old) + val s' \<le> max_safe)"
        using bspec [OF Cons.prems(3), of "(a', s')"] mem by simp
      ultimately show "val s' \<noteq> 0 \<and> om_get (inactive_stake_by_address c1) a' = Some (joined s' (Some t) (om_get m a')) \<and>
          (\<forall>old. om_get m a' = Some old \<longrightarrow> val (is_balance old) + val s' \<le> max_safe)"
        using get [of a'] by (simp add: c1_def)
    qed
  qed (use step(2) snoc(3) bal Cons.prems(4,5) p in \<open>auto simp: c1_def\<close>)
  then obtain b m' where IH: "unretire_stakes (retirements m xs) (acc @ [(a, s)]) (coin_add v s) c1 =
      (Inr ((acc @ [(a, s)]) @ xs, foldl coin_add (coin_add v s) (map snd xs)), c1\<lparr>sc_balance := b, inactive_stake_by_address := m'\<rparr>)"
      "val (sc_balance c1) = val b + stakes_sum xs" "om_inv m'"
    and get': "\<And>a'. om_get m' a' = (if a' \<in> fst ` set xs then om_get m a' else om_get (inactive_stake_by_address c1) a')"
    by blast
  have "unretire_stakes (retirements m (p # xs)) acc v c =
      (Inr (acc @ p # xs, foldl coin_add v (map snd (p # xs))), c\<lparr>sc_balance := b, inactive_stake_by_address := m'\<rparr>)"
    using IH(1) step(1) snoc(1) by (simp add: p c1_def)
  moreover have "val (sc_balance c) = val b + stakes_sum (p # xs)"
    using IH(2) bal pre(4) by (simp add: p)
  moreover have "om_get m' a' = (if a' \<in> fst ` set (p # xs) then om_get m a' else om_get (inactive_stake_by_address c) a')" for a'
    using get' [of a'] get [of a'] by (auto simp: p c1_def)
  ultimately show ?case
    using IH(3) by blast
next
  case Nil
  then show ?case
    by (intro exI [of _ "sc_balance c"] exI [of _ "inactive_stake_by_address c"]) simp
qed

definition park_receipt :: "bls_public_key \<Rightarrow> staking_contract \<Rightarrow> unpark_receipt" where
  "park_receipt k c =
    \<lparr>ur_current_epoch = os_elem (current_epoch_parking c) k, ur_previous_epoch = os_elem (previous_epoch_parking c) k,
     ur_current_disabled_slots = om_get (current_disabled_slots c) k,
     ur_previous_disabled_slots = om_get (previous_disabled_slots c) k\<rparr>"

definition unparked :: "bls_public_key \<Rightarrow> staking_contract \<Rightarrow> staking_contract" where
  "unparked k c =
    c\<lparr>current_epoch_parking := os_remove k (current_epoch_parking c), previous_epoch_parking := os_remove k (previous_epoch_parking c),
      current_disabled_slots := om_remove k (current_disabled_slots c),
      previous_disabled_slots := om_remove k (previous_disabled_slots c)\<rparr>"

lemma drop_unpark:
  assumes "park_wf c"
  shows "(if os_elem (current_epoch_parking c) k \<or> os_elem (previous_epoch_parking c) k \<or>
       om_contains (current_disabled_slots c) k \<or> om_contains (previous_disabled_slots c) k
     then unpark_validator k c
     else (Inr \<lparr>ur_current_epoch = False, ur_previous_epoch = False, ur_current_disabled_slots = None,
       ur_previous_disabled_slots = None\<rparr>, c)) = (Inr (park_receipt k c), unparked k c)"
  using assms disabled_wfD(1)
  by (cases c) (auto simp: unpark_validator_def Let_def park_receipt_def unparked_def park_wf_def os.rem_absent om.rem_absent om_contains_def)

lemma unparked_simps [simp]:
  "sc_balance (unparked k c) = sc_balance c" "inactive_stake_by_address (unparked k c) = inactive_stake_by_address c"
  "inactive_validators_by_key (unparked k c) = inactive_validators_by_key c"
  by (simp_all add: unparked_def)

lemma unparked_wf: "sc_wf c \<Longrightarrow> sc_wf (unparked k c)"
  by (auto simp: sc_wf_def unparked_def park_wf_def disabled_wf_remove)

lemma revert_unparked:
  assumes "park_wf c"
  shows "revert_unpark_validator k (park_receipt k c) ((unparked k c)\<lparr>sc_balance := b, inactive_stake_by_address := m\<rparr>) =
    (Inr (), c\<lparr>sc_balance := b, inactive_stake_by_address := m\<rparr>)"
  using assms disabled_wfD(1)
  by (cases c) (auto simp: revert_unpark_validator_def park_receipt_def unparked_def park_wf_def os.ins_rem_present os.rem_absent
      om.ins_rem om.ins_present om.rem_absent split: option.split)

lemma stakes_sum_total: "stakes_sum xs = om_total val xs"
  by (simp add: om_total_def comp_def case_prod_unfold)

lemma val_foldl: "val v + stakes_sum xs \<le> max_safe \<Longrightarrow> val (foldl coin_add v (map snd xs)) = val v + stakes_sum xs"
proof (induction xs arbitrary: v)
  case (Cons p xs)
  then have "val (coin_add v (snd p)) = val v + val (snd p)"
    by (cases p) (simp add: val_coin_add)
  with Cons.IH [of "coin_add v (snd p)"] Cons.prems show ?case
    by (cases p) simp
qed simp

lemma inactive_validator_facts:
  assumes "sc_wf c" "om_get (inactive_validators_by_key c) k = Some iv"
  shows "sc_del k c = c\<lparr>inactive_validators_by_key := om_remove k (inactive_validators_by_key c)\<rparr>" "va_validator_key (iv_validator iv) = k"
    "validator_ok (iv_validator iv)" "val (va_balance (iv_validator iv)) \<le> val (sc_balance c)"
    "val b + val (va_balance (iv_validator iv)) = val (sc_balance c) \<Longrightarrow> sc_wf ((sc_del k c)\<lparr>sc_balance := b\<rparr>)"
proof -
  note d = sc_wfD [OF assms(1)]
  have v: "sc_lookup c k = Some (iv_validator iv, Some (iv_retire_time iv))"
    using vals_wf_inactive [OF d(1)] assms(2) by simp
  have "om_get (active_validators_by_key c) k = None"
    using vals_wf_active [OF d(1), of k] v by (cases "om_get (active_validators_by_key c) k") auto
  then show "sc_del k c = c\<lparr>inactive_validators_by_key := om_remove k (inactive_validators_by_key c)\<rparr>"
    using assms(2) by (simp add: sc_del_def remove_validator_def)
  show "va_validator_key (iv_validator iv) = k" "validator_ok (iv_validator iv)"
    using vals_wf_key [OF d(1) v] validators_okD [OF d(2) v] .
  note tot = vtotal_del [OF d(1) v]
  show "val (va_balance (iv_validator iv)) \<le> val (sc_balance c)"
    using tot d(6) by simp
  show "sc_wf ((sc_del k c)\<lparr>sc_balance := b\<rparr>)" if "val b + val (va_balance (iv_validator iv)) = val (sc_balance c)"
    using d tot that vals_wf_del [OF d(1)] validators_ok_del [OF d(1,2)] by (simp add: sc_wf_def coin_ok_val)
qed

lemma drop_validator_eq:
  assumes "sc_wf c" "om_get (inactive_validators_by_key c) k = Some iv" "v = iv_validator iv"
  shows "\<exists>b m. drop_validator k x c =
      (Inr \<lparr>dvr_reward_address = va_reward_address v, dvr_retirement_by_address = retirements (inactive_stake_by_address c) (va_stakes v),
        dvr_retire_time = iv_retire_time iv, dvr_unpark_receipt = park_receipt k c\<rparr>,
       unparked k ((sc_del k c)\<lparr>sc_balance := b, inactive_stake_by_address := m\<rparr>)) \<and>
    sc_wf (unparked k ((sc_del k c)\<lparr>sc_balance := b, inactive_stake_by_address := m\<rparr>)) \<and>
    val b + val (va_balance v) = val (sc_balance c) + om_total val (va_stakes v) \<and>
    (\<forall>a. om_get m a = after_retirement (va_stakes v) (iv_retire_time iv) (inactive_stake_by_address c) a)"
proof -
  note d = sc_wfD [OF assms(1)] and f = inactive_validator_facts [OF assms(1,2), folded assms(3)]
  define b0 where "b0 = coin_sub (sc_balance c) (va_balance v)"
  have b0: "balance_sub (sc_balance c) (va_balance v) = Inr b0" "val b0 + val (va_balance v) = val (sc_balance c)"
    using f(4) d(7) by (simp_all add: b0_def balance_sub_coin val_coin_sub)
  define c0 where "c0 = (sc_del k c)\<lparr>sc_balance := b0\<rparr>"
  have wf0: "sc_wf c0"
    unfolding c0_def by (rule f(5)) (use b0 in simp)
  have w: "stakes_wf (va_stakes v)" "om_total val (va_stakes v) \<le> val (va_balance v)"
    using f(3) by (simp_all add: validator_ok_def)
  have "om_inv (retirements m (va_stakes v))" for m
    using stakes_wfD(1) [OF w(1)] by (simp add: om_inv_def retirements_def comp_def case_prod_unfold)
  then obtain b m where r: "retire_stakes (va_stakes v) (iv_retire_time iv) [] c0 =
      (Inr (retirements (inactive_stake_by_address c) (va_stakes v)), c0\<lparr>sc_balance := b, inactive_stake_by_address := m\<rparr>)"
    "sc_wf (c0\<lparr>sc_balance := b, inactive_stake_by_address := m\<rparr>)" "val b = val b0 + om_total val (va_stakes v)"
    and get: "\<forall>a. om_get m a = after_retirement (va_stakes v) (iv_retire_time iv) (inactive_stake_by_address c) a"
    using retire_stakes_spec [OF wf0, of "[]" "va_stakes v" "iv_retire_time iv"] w b0(2) d(7)
    by (auto simp: c0_def stakes_sum_total stakes_wf_def)
  define c1 where "c1 = c0\<lparr>sc_balance := b, inactive_stake_by_address := m\<rparr>"
  have "drop_validator k x c =
      (Inr \<lparr>dvr_reward_address = va_reward_address v, dvr_retirement_by_address = retirements (inactive_stake_by_address c) (va_stakes v),
        dvr_retire_time = iv_retire_time iv, dvr_unpark_receipt = park_receipt k c1\<rparr>, unparked k c1)"
    using r(1) b0(1) assms(2) by (simp add: drop_validator_def f(1) [symmetric] assms(3) [symmetric] c0_def [symmetric] c1_def [symmetric]
        drop_unpark [OF sc_wfD(4) [OF r(2) [folded c1_def]]] Let_def del: sc_put_del_update)
  moreover have "park_receipt k c1 = park_receipt k c" "c1 = (sc_del k c)\<lparr>sc_balance := b, inactive_stake_by_address := m\<rparr>"
    by (simp_all add: c1_def c0_def park_receipt_def)
  ultimately show ?thesis
    using unparked_wf [OF r(2), of k] r(3) b0(2) get unfolding c1_def [symmetric]
    by (intro exI [of _ b] exI [of _ m]) simp
qed

lemma drop_validator_undo:
  assumes "sc_wf c" "om_get (inactive_validators_by_key c) k = Some iv" "drop_validator k x c = (r, c')"
    and "val tv + om_total val (va_stakes (iv_validator iv)) = val (va_balance (iv_validator iv))"
  shows "\<exists>receipt. r = Inr receipt \<and> revert_drop_validator k tv receipt c' = (Inr (), c) \<and> sc_wf c' \<and> val (sc_balance c) = val (sc_balance c') + val tv"
proof -
  define v where "v = iv_validator iv"
  note d = sc_wfD [OF assms(1)] and f = inactive_validator_facts [OF assms(1,2), folded v_def]
  let ?m0 = "inactive_stake_by_address c"
  obtain b m where r: "r = Inr \<lparr>dvr_reward_address = va_reward_address v, dvr_retirement_by_address = retirements ?m0 (va_stakes v),
        dvr_retire_time = iv_retire_time iv, dvr_unpark_receipt = park_receipt k c\<rparr>"
    and c': "c' = unparked k ((sc_del k c)\<lparr>sc_balance := b, inactive_stake_by_address := m\<rparr>)" and wf: "sc_wf c'"
    and b: "val b + val (va_balance v) = val (sc_balance c) + om_total val (va_stakes v)"
    and get: "\<And>a. om_get m a = after_retirement (va_stakes v) (iv_retire_time iv) ?m0 a"
    using drop_validator_eq [OF assms(1,2) v_def, of x] assms(3) by auto
  have w: "stakes_wf (va_stakes v)" and tv: "val tv + om_total val (va_stakes v) = val (va_balance v)"
    using f(3) assms(4) by (simp_all add: validator_ok_def v_def)
  have bm: "sc_balance c' = b" "inactive_stake_by_address c' = m"
    by (simp_all add: c')
  have pre: "\<forall>(a, s) \<in> set (va_stakes v). val s \<noteq> 0 \<and> om_get m a = Some (joined s (Some (iv_retire_time iv)) (om_get ?m0 a)) \<and>
      (\<forall>old. om_get ?m0 a = Some old \<longrightarrow> val (is_balance old) + val s \<le> max_safe)"
  proof clarify
    fix a s
    assume "(a, s) \<in> set (va_stakes v)"
    then have s: "om_get (va_stakes v) a = Some s"
      using stakes_wfD(1) [OF w] by (simp add: om_get_in_set)
    have "val s \<le> val (va_balance v)"
      using om.total_ge [OF stakes_wfD(1) [OF w] s, of val] tv by simp
    moreover have "val (is_balance old) + val (va_balance v) \<le> val (sc_balance c)" if "om_get ?m0 a = Some old" for old
      using om.total_ge [OF inactive_wfD(1) [OF d(3)] that, of "\<lambda>i. val (is_balance i)"] vtotal_del [OF d(1), of k v "Some (iv_retire_time iv)"]
        vals_wf_inactive [OF d(1), of k v "iv_retire_time iv"] assms(2) d(6) by (simp add: v_def)
    ultimately show "val s \<noteq> 0 \<and> om_get m a = Some (joined s (Some (iv_retire_time iv)) (om_get ?m0 a)) \<and>
        (\<forall>old. om_get ?m0 a = Some old \<longrightarrow> val (is_balance old) + val s \<le> max_safe)"
      using stakes_wfD(2) [OF w s] s d(7) get [of a] by (fastforce simp: after_retirement_def om_get_def)
  qed
  obtain b' m' where u: "unretire_stakes (retirements ?m0 (va_stakes v)) [] tv c' =
      (Inr (va_stakes v, foldl coin_add tv (map snd (va_stakes v))), c'\<lparr>sc_balance := b', inactive_stake_by_address := m'\<rparr>)"
      "val b = val b' + om_total val (va_stakes v)" "om_inv m'"
    and get': "\<And>a. om_get m' a = (if a \<in> fst ` set (va_stakes v) then om_get ?m0 a else om_get m a)"
    using unretire_stakes_spec [OF d(3), of c' "[]" "va_stakes v" "iv_retire_time iv" tv] pre stakes_wfD(1) [OF w] b f(4) tv
      inactive_wfD(1) [OF sc_wfD(3) [OF wf]] sc_wfD(7) [OF wf] by (auto simp: bm stakes_sum_total)
  have "om_get m' a = om_get ?m0 a" for a
    using get' [of a] get [of a] map_of_eq_None_iff [of "va_stakes v" a] by (cases "map_of (va_stakes v) a") (auto simp: after_retirement_def)
  then have m': "m' = ?m0"
    using u(3) inactive_wfD(1) [OF d(3)] by (rule om.extensional [rotated 2]) 
  have fold: "foldl coin_add tv (map snd (va_stakes v)) = va_balance v"
    using val_foldl [of tv "va_stakes v"] tv f(4) d(7) by (simp add: coin_eq_iff stakes_sum_total)
  have add: "balance_add b' (va_balance v) = Inr (sc_balance c)"
    using u(2) b d(7) by (simp add: balance_add_Inr)
  have same: "c'\<lparr>sc_balance := b', inactive_stake_by_address := m'\<rparr>\<lparr>sc_balance := sc_balance c\<rparr> =
      (unparked k (sc_del k c))\<lparr>sc_balance := sc_balance c, inactive_stake_by_address := ?m0\<rparr>"
    by (simp add: c' m' unparked_def)
  have iv: "\<lparr>iv_validator = \<lparr>va_balance = va_balance v, va_reward_address = va_reward_address v, va_validator_key = k, va_stakes = va_stakes v\<rparr>,
      iv_retire_time = iv_retire_time iv\<rparr> = iv"
    using f(2) by (simp add: v_def)
  have "park_receipt k c = park_receipt k (sc_del k c)" "park_wf (sc_del k c)"
    using d(4) by (simp_all add: park_receipt_def park_wf_def)
  moreover have "(sc_del k c)\<lparr>sc_balance := sc_balance c, inactive_stake_by_address := ?m0,
      inactive_validators_by_key := om_insert k iv (om_remove k (inactive_validators_by_key c))\<rparr> = c"
    using om.ins_rem [OF vals_wfD(3) [OF d(1)]] om.ins_present [OF vals_wfD(3) [OF d(1)] assms(2)] by (simp add: f(1))
  ultimately have "revert_drop_validator k tv \<lparr>dvr_reward_address = va_reward_address v, dvr_retirement_by_address = retirements ?m0 (va_stakes v),
        dvr_retire_time = iv_retire_time iv, dvr_unpark_receipt = park_receipt k c\<rparr> c' = (Inr (), c)"
    using revert_unparked [of "sc_del k c" k ?m0 "sc_balance c"]
    by (simp add: revert_drop_validator_def u(1) fold add same iv) (simp add: f(1))
  then show ?thesis
    using r wf b tv by (auto simp: bm)
qed

end
