(* ===== verification/Staking_Handlers.thy ===== *)
theory Staking_Handlers
  imports Staking_Drop Slots Simple_Accounts
begin

text \<open>
  The handlers of the staking contract (\<open>staking_contract/actions/mod.rs\<close>): incoming, outgoing and self transactions and inherents,
  with the byte format of their receipts.  Each handler parses the data or the proof of the transaction, runs the action and
  serializes its receipt.
\<close>

section \<open>Receipts\<close>

definition ser_inactive_stake_receipt :: "inactive_stake_receipt \<Rightarrow> written" where
  "ser_inactive_stake_receipt r = wseqs [ser_u32 (isr_retire_time r)]"

definition deser_inactive_stake_receipt :: "inactive_stake_receipt reader" where
  "deser_inactive_stake_receipt = dbind deser_u32 (\<lambda>t. dret \<lparr>isr_retire_time = t\<rparr>)"

definition ser_unpark_receipt :: "unpark_receipt \<Rightarrow> written" where
  "ser_unpark_receipt r =
    wseqs [ser_bool (ur_current_epoch r), ser_bool (ur_previous_epoch r), ser_option (ser_set 2 ser_u16) (ur_current_disabled_slots r),
      ser_option (ser_set 2 ser_u16) (ur_previous_disabled_slots r)]"

definition deser_unpark_receipt :: "unpark_receipt reader" where
  "deser_unpark_receipt =
    dbind deser_bool (\<lambda>cur. dbind deser_bool (\<lambda>prev. dbind (deser_option (deser_set 2 deser_u16)) (\<lambda>cd.
    dbind (deser_option (deser_set 2 deser_u16)) (\<lambda>pd.
    dret \<lparr>ur_current_epoch = cur, ur_previous_epoch = prev, ur_current_disabled_slots = cd, ur_previous_disabled_slots = pd\<rparr>))))"

definition ser_update_validator_receipt :: "update_validator_receipt \<Rightarrow> written" where
  "ser_update_validator_receipt r = wseqs [ser_address (uvr_old_reward_address r)]"

definition deser_update_validator_receipt :: "update_validator_receipt reader" where
  "deser_update_validator_receipt = dbind deser_address (\<lambda>a. dret \<lparr>uvr_old_reward_address = a\<rparr>)"

definition ser_retirement_receipt :: "retirement_receipt \<Rightarrow> written" where
  "ser_retirement_receipt r = wseqs [ser_coin (rr_stake r), ser_option ser_inactive_stake_receipt (rr_inactive_stake_receipt r)]"

definition deser_retirement_receipt :: "retirement_receipt reader" where
  "deser_retirement_receipt =
    dbind deser_coin (\<lambda>s. dbind (deser_option deser_inactive_stake_receipt) (\<lambda>i.
    dret \<lparr>rr_stake = s, rr_inactive_stake_receipt = i\<rparr>))"

definition ser_drop_validator_receipt :: "drop_validator_receipt \<Rightarrow> written" where
  "ser_drop_validator_receipt r =
    wseqs [ser_address (dvr_reward_address r), ser_map 4 ser_address ser_retirement_receipt (dvr_retirement_by_address r),
      ser_u32 (dvr_retire_time r), ser_unpark_receipt (dvr_unpark_receipt r)]"

definition deser_drop_validator_receipt :: "drop_validator_receipt reader" where
  "deser_drop_validator_receipt =
    dbind deser_address (\<lambda>a. dbind (deser_map 4 deser_address deser_retirement_receipt) (\<lambda>m. dbind deser_u32 (\<lambda>t.
    dbind deser_unpark_receipt (\<lambda>u.
    dret \<lparr>dvr_reward_address = a, dvr_retirement_by_address = m, dvr_retire_time = t, dvr_unpark_receipt = u\<rparr>))))"

definition ser_inactive_validator_receipt :: "inactive_validator_receipt \<Rightarrow> written" where
  "ser_inactive_validator_receipt r = wseqs [ser_u32 (ivr_retire_time r)]"

definition deser_inactive_validator_receipt :: "inactive_validator_receipt reader" where
  "deser_inactive_validator_receipt = dbind deser_u32 (\<lambda>t. dret \<lparr>ivr_retire_time = t\<rparr>)"

definition ser_slash_receipt :: "slash_receipt \<Rightarrow> written" where
  "ser_slash_receipt r = wseqs [ser_bool (newly_parked r), ser_bool (newly_disabled r), ser_bool (newly_lost_rewards r)]"

definition deser_slash_receipt :: "slash_receipt reader" where
  "deser_slash_receipt =
    dbind deser_bool (\<lambda>p. dbind deser_bool (\<lambda>d. dbind deser_bool (\<lambda>l.
    dret \<lparr>newly_parked = p, newly_disabled = d, newly_lost_rewards = l\<rparr>)))"

text \<open>How the handlers turn the value of an action into a receipt, and read it back.\<close>

type_synonym handled = "(receipt_data, account_error) result \<times> staking_contract"

definition no_receipt :: "('r, account_error) result \<times> staking_contract \<Rightarrow> handled" where
  "no_receipt p = sbind p (\<lambda>_ c. (Inr None, c))"

definition with_receipt :: "('r \<Rightarrow> written) \<Rightarrow> ('r, account_error) result \<times> staking_contract \<Rightarrow> handled" where
  "with_receipt s p = sbind p (\<lambda>r c. (rbind (serialize_to_vec (s r)) (\<lambda>bs. Inr (Some bs)), c))"

definition optional_receipt :: "('r \<Rightarrow> written) \<Rightarrow> ('r option, account_error) result \<times> staking_contract \<Rightarrow> handled" where
  "optional_receipt s p =
    sbind p (\<lambda>r c. case r of None \<Rightarrow> (Inr None, c) | Some x \<Rightarrow> (rbind (serialize_to_vec (s x)) (\<lambda>bs. Inr (Some bs)), c))"

definition read_data :: "'a reader \<Rightarrow> bytes \<Rightarrow> ('a, account_error) result" where
  "read_data r bs = map_err AE_InvalidSerialization (deserialize_from_vec r bs)"

definition required_receipt :: "'a reader \<Rightarrow> receipt_data \<Rightarrow> ('a, account_error) result" where
  "required_receipt r receipt = rbind (ok_or AE_InvalidReceipt receipt) (read_data r)"

definition conditional_deserialize :: "'a reader \<Rightarrow> receipt_data \<Rightarrow> ('a option, account_error) result" where
  "conditional_deserialize r receipt =
    (case receipt of Some v \<Rightarrow> rbind (read_data r v) (\<lambda>x. Inr (Some x)) | None \<Rightarrow> Inr None)"

section \<open>Transactions\<close>

definition staking_new_contract :: "account_type \<Rightarrow> coin \<Rightarrow> transaction \<Rightarrow> (staking_contract, account_error) result" where
  "staking_new_contract ty b tx = Inl (Err AE_InvalidForRecipient)"

definition staking_create :: "coin \<Rightarrow> transaction \<Rightarrow> (staking_contract, account_error) result" where
  "staking_create b tx = Inl (Err AE_InvalidForRecipient)"

definition staking_check_incoming :: "transaction \<Rightarrow> (unit, account_error) result" where
  "staking_check_incoming tx = Inr ()"

definition staker_of :: "address option \<Rightarrow> transaction \<Rightarrow> address" where
  "staker_of a tx = (case a of Some a' \<Rightarrow> a' | None \<Rightarrow> tx_sender tx)"

fun commit_incoming_data :: "u32 \<Rightarrow> transaction \<Rightarrow> incoming_staking_data \<Rightarrow> staking_contract \<Rightarrow> handled" where
  "commit_incoming_data h tx (CreateValidator k _ a) c = no_receipt (create_validator k a (tx_value tx) c)"
| "commit_incoming_data h tx (UpdateValidator k k' _ a _) c = with_receipt ser_update_validator_receipt (update_validator k k' a c)"
| "commit_incoming_data h tx (RetireValidator k _) c = no_receipt (retire_validator k h c)"
| "commit_incoming_data h tx (ReactivateValidator k _) c = with_receipt ser_inactive_validator_receipt (reactivate_validator k c)"
| "commit_incoming_data h tx (UnparkValidator k _) c = with_receipt ser_unpark_receipt (unpark_validator k c)"
| "commit_incoming_data h tx (Stake k a) c = no_receipt (stake (staker_of a tx) (tx_value tx) k c)"

fun commit_incoming_self :: "u32 \<Rightarrow> transaction \<Rightarrow> address \<Rightarrow> self_staking_data \<Rightarrow> staking_contract \<Rightarrow> handled" where
  "commit_incoming_self h tx a (RetireStake _) c = optional_receipt ser_inactive_stake_receipt (retire_recipient a (tx_value tx) (Some h) c)"
| "commit_incoming_self h tx a (ReactivateStake k) c = no_receipt (reactivate_recipient a (tx_value tx) k c)"

definition staking_commit_incoming :: "crypto \<Rightarrow> u32 \<Rightarrow> transaction \<Rightarrow> staking_contract \<Rightarrow> handled" where
  "staking_commit_incoming cr h tx c =
    (if tx_sender tx \<noteq> tx_recipient tx
     then sbind (map_err AE_InvalidTransaction (parse_incoming tx), c) (\<lambda>d c. commit_incoming_data h tx d c)
     else
       sbind (read_data deser_self_staking_data (tx_data tx), c) (\<lambda>d c. sbind (get_self_signer cr tx, c) (\<lambda>a c.
       commit_incoming_self h tx a d c)))"

fun revert_incoming_data :: "transaction \<Rightarrow> receipt_data \<Rightarrow> incoming_staking_data \<Rightarrow> unit action" where
  "revert_incoming_data tx receipt (CreateValidator k _ _) c = revert_create_validator k (tx_value tx) c"
| "revert_incoming_data tx receipt (UpdateValidator k k' _ _ _) c =
    sbind (required_receipt deser_update_validator_receipt receipt, c) (\<lambda>r c. revert_update_validator k k' r c)"
| "revert_incoming_data tx receipt (RetireValidator k _) c = revert_retire_validator k c"
| "revert_incoming_data tx receipt (ReactivateValidator k _) c =
    sbind (required_receipt deser_inactive_validator_receipt receipt, c) (\<lambda>r c. revert_reactivate_validator k r c)"
| "revert_incoming_data tx receipt (UnparkValidator k _) c =
    sbind (required_receipt deser_unpark_receipt receipt, c) (\<lambda>r c. revert_unpark_validator k r c)"
| "revert_incoming_data tx receipt (Stake k a) c = revert_stake (staker_of a tx) (tx_value tx) k c"

fun revert_incoming_self :: "transaction \<Rightarrow> receipt_data \<Rightarrow> address \<Rightarrow> self_staking_data \<Rightarrow> unit action" where
  "revert_incoming_self tx receipt a (RetireStake _) c =
    sbind (conditional_deserialize deser_inactive_stake_receipt receipt, c) (\<lambda>r c. revert_retire_recipient a (tx_value tx) r c)"
| "revert_incoming_self tx receipt a (ReactivateStake k) c = revert_reactivate_recipient a (tx_value tx) k c"

definition staking_revert_incoming :: "crypto \<Rightarrow> transaction \<Rightarrow> receipt_data \<Rightarrow> unit action" where
  "staking_revert_incoming cr tx receipt c =
    (if tx_sender tx \<noteq> tx_recipient tx
     then sbind (read_data deser_incoming_staking_data (tx_data tx), c) (\<lambda>d c. revert_incoming_data tx receipt d c)
     else
       sbind (read_data deser_self_staking_data (tx_data tx), c) (\<lambda>d c. sbind (get_self_signer cr tx, c) (\<lambda>a c.
       revert_incoming_self tx receipt a d c)))"

text \<open>The sum of the stakes of a validator is computed with the wrapping operator of coins, as is the rest of its balance.\<close>

definition staker_stake :: "validator \<Rightarrow> coin" where
  "staker_stake v = foldl coin_add coin_ZERO (map snd (va_stakes v))"

fun check_outgoing_proof :: "crypto \<Rightarrow> u32 \<Rightarrow> transaction \<Rightarrow> outgoing_staking_proof \<Rightarrow> staking_contract \<Rightarrow> (unit, account_error) result" where
  "check_outgoing_proof cr h tx (Unstake sp) c =
    rbind (ok_or AE_InvalidForSender (om_get (inactive_stake_by_address c) (compute_signer cr sp))) (\<lambda>i.
    if h < election_block_after (is_retire_time i) then Inl (Err AE_InvalidForSender)
    else rbind (tx_total tx) (balance_sufficient (is_balance i)))"
| "check_outgoing_proof cr h tx (DropValidator k _) c =
    rbind (ok_or AE_InvalidForSender (om_get (inactive_validators_by_key c) k)) (\<lambda>iv.
    if h < election_block_after (iv_retire_time iv) then Inl (Err AE_InvalidForSender)
    else let v = iv_validator iv in
      rbind (tx_total tx) (\<lambda>t.
      if coin_sub (va_balance v) (staker_stake v) \<noteq> t
      then Inl (Err (InsufficientFunds (coin_add (staker_stake v) t) (va_balance v))) else Inr ()))"

fun check_outgoing_self :: "transaction \<Rightarrow> address \<Rightarrow> self_staking_data \<Rightarrow> staking_contract \<Rightarrow> (unit, account_error) result" where
  "check_outgoing_self tx a (RetireStake k) c =
    rbind (ok_or AE_InvalidForSender (get_validator k c)) (\<lambda>v.
    rbind (ok_or AE_InvalidForSender (om_get (va_stakes v) a)) (\<lambda>s.
    rbind (tx_total tx) (balance_sufficient s)))"
| "check_outgoing_self tx a (ReactivateStake k) c =
    rbind (ok_or AE_InvalidForSender (om_get (inactive_stake_by_address c) a)) (\<lambda>i.
    rbind (ok_or AE_InvalidForSender (get_validator k c)) (\<lambda>_.
    rbind (tx_total tx) (balance_sufficient (is_balance i))))"

definition staking_check_outgoing :: "crypto \<Rightarrow> u32 \<Rightarrow> transaction \<Rightarrow> staking_contract \<Rightarrow> (unit, account_error) result" where
  "staking_check_outgoing cr h tx c =
    (if tx_sender tx \<noteq> tx_recipient tx
     then rbind (read_data (deser_outgoing_staking_proof cr) (tx_proof tx)) (\<lambda>p. check_outgoing_proof cr h tx p c)
     else
       rbind (read_data deser_self_staking_data (tx_data tx)) (\<lambda>d. rbind (get_self_signer cr tx) (\<lambda>a.
       check_outgoing_self tx a d c)))"

fun commit_outgoing_proof :: "crypto \<Rightarrow> transaction \<Rightarrow> outgoing_staking_proof \<Rightarrow> staking_contract \<Rightarrow> handled" where
  "commit_outgoing_proof cr tx (Unstake sp) c =
    sbind (tx_total tx, c) (\<lambda>t c. optional_receipt ser_inactive_stake_receipt (unstake (compute_signer cr sp) t c))"
| "commit_outgoing_proof cr tx (DropValidator k _) c =
    sbind (tx_total tx, c) (\<lambda>t c. with_receipt ser_drop_validator_receipt (drop_validator k t c))"

fun commit_outgoing_self :: "transaction \<Rightarrow> address \<Rightarrow> self_staking_data \<Rightarrow> staking_contract \<Rightarrow> handled" where
  "commit_outgoing_self tx a (RetireStake k) c = sbind (tx_total tx, c) (\<lambda>t c. no_receipt (retire_sender a t k c))"
| "commit_outgoing_self tx a (ReactivateStake _) c =
    sbind (tx_total tx, c) (\<lambda>t c. optional_receipt ser_inactive_stake_receipt (reactivate_sender a t None c))"

definition staking_commit_outgoing :: "crypto \<Rightarrow> u32 \<Rightarrow> transaction \<Rightarrow> staking_contract \<Rightarrow> handled" where
  "staking_commit_outgoing cr h tx c =
    sbind (staking_check_outgoing cr h tx c, c) (\<lambda>_ c.
    if tx_sender tx \<noteq> tx_recipient tx
    then sbind (read_data (deser_outgoing_staking_proof cr) (tx_proof tx), c) (\<lambda>p c. commit_outgoing_proof cr tx p c)
    else
      sbind (read_data deser_self_staking_data (tx_data tx), c) (\<lambda>d c. sbind (get_self_signer cr tx, c) (\<lambda>a c.
      commit_outgoing_self tx a d c)))"

fun revert_outgoing_proof :: "crypto \<Rightarrow> transaction \<Rightarrow> receipt_data \<Rightarrow> outgoing_staking_proof \<Rightarrow> unit action" where
  "revert_outgoing_proof cr tx receipt (Unstake sp) c =
    sbind (conditional_deserialize deser_inactive_stake_receipt receipt, c) (\<lambda>r c. sbind (tx_total tx, c) (\<lambda>t c.
    revert_unstake (compute_signer cr sp) t r c))"
| "revert_outgoing_proof cr tx receipt (DropValidator k _) c =
    sbind (required_receipt deser_drop_validator_receipt receipt, c) (\<lambda>r c. sbind (tx_total tx, c) (\<lambda>t c.
    revert_drop_validator k t r c))"

fun revert_outgoing_self :: "transaction \<Rightarrow> receipt_data \<Rightarrow> address \<Rightarrow> self_staking_data \<Rightarrow> unit action" where
  "revert_outgoing_self tx receipt a (RetireStake k) c = sbind (tx_total tx, c) (\<lambda>t c. revert_retire_sender a t k c)"
| "revert_outgoing_self tx receipt a (ReactivateStake _) c =
    sbind (conditional_deserialize deser_inactive_stake_receipt receipt, c) (\<lambda>r c. sbind (tx_total tx, c) (\<lambda>t c.
    revert_reactivate_sender a t r c))"

definition staking_revert_outgoing :: "crypto \<Rightarrow> transaction \<Rightarrow> receipt_data \<Rightarrow> unit action" where
  "staking_revert_outgoing cr tx receipt c =
    (if tx_sender tx \<noteq> tx_recipient tx
     then sbind (read_data (deser_outgoing_staking_proof cr) (tx_proof tx), c) (\<lambda>p c. revert_outgoing_proof cr tx receipt p c)
     else
       sbind (read_data deser_self_staking_data (tx_data tx), c) (\<lambda>d c. sbind (get_self_signer cr tx, c) (\<lambda>a c.
       revert_outgoing_self tx receipt a d c)))"

section \<open>Inherents\<close>

definition staking_check_inherent :: "inherent \<Rightarrow> staking_contract \<Rightarrow> (unit, account_error) result" where
  "staking_check_inherent i c =
    (if inh_value i \<noteq> coin_ZERO then Inl (Err AE_InvalidInherent)
     else case inh_ty i of
       Slash \<Rightarrow>
         if length (inh_data i) < 285 then Inl (Err AE_InvalidInherent)
         else rbind (read_data deser_slashed_slot (inh_data i)) (\<lambda>slot.
           if \<not> om_contains (active_validators_by_key c) (ss_validator_key slot) \<and>
              \<not> om_contains (inactive_validators_by_key c) (ss_validator_key slot)
           then Inl (Err AE_InvalidInherent) else Inr ())
     | Reward \<Rightarrow> Inl (Err AE_InvalidForTarget)
     | _ \<Rightarrow> if inh_data i \<noteq> [] then Inl (Err AE_InvalidInherent) else Inr ())"

text \<open>\<open>entry(key).or_insert_with(BTreeSet::new).insert(slot)\<close>\<close>

definition disable_slot :: "bls_public_key \<Rightarrow> u16 \<Rightarrow> disabled_slots \<Rightarrow> bool \<times> disabled_slots" where
  "disable_slot k s m =
    (let old = (case om_get m k of Some xs \<Rightarrow> xs | None \<Rightarrow> []) in (\<not> os_elem old s, om_insert k (os_insert s old) m))"

definition slash :: "slashed_slot \<Rightarrow> u32 \<Rightarrow> staking_contract \<Rightarrow> slash_receipt \<times> staking_contract" where
  "slash slot h c =
    (let k = ss_validator_key slot; n = unat (ss_slot slot);
       parked = \<not> os_elem (current_epoch_parking c) k;
       c = c\<lparr>current_epoch_parking := os_insert k (current_epoch_parking c)\<rparr> in
     if epoch_at (ss_event_block slot) < epoch_at h
     then (\<lparr>newly_parked = parked, newly_disabled = False, newly_lost_rewards = \<not> bitset_contains (previous_lost_rewards c) n\<rparr>,
           c\<lparr>previous_lost_rewards := bitset_insert n (previous_lost_rewards c)\<rparr>)
     else
       let (disabled, m) = disable_slot k (ss_slot slot) (current_disabled_slots c) in
       if batch_at (ss_event_block slot) < batch_at h
       then (\<lparr>newly_parked = parked, newly_disabled = disabled, newly_lost_rewards = \<not> bitset_contains (previous_lost_rewards c) n\<rparr>,
             c\<lparr>previous_lost_rewards := bitset_insert n (previous_lost_rewards c), current_disabled_slots := m\<rparr>)
       else (\<lparr>newly_parked = parked, newly_disabled = disabled, newly_lost_rewards = \<not> bitset_contains (current_lost_rewards c) n\<rparr>,
             c\<lparr>current_lost_rewards := bitset_insert n (current_lost_rewards c), current_disabled_slots := m\<rparr>))"

text \<open>The loop over the parked validators.  The source iterates over a hash set; the order does not matter
  (\<open>retire_parked_lookup\<close> below), and the model takes the order of the keys.\<close>

fun retire_parked :: "bls_public_key list \<Rightarrow> u32 \<Rightarrow> unit action" where
  "retire_parked [] h c = (Inr (), c)"
| "retire_parked (k # ks) h c =
    (if om_contains (active_validators_by_key c) k
     then sbind (retire_validator k h c) (\<lambda>_ c. retire_parked ks h c)
     else retire_parked ks h c)"

definition finalize_batch :: "staking_contract \<Rightarrow> staking_contract" where
  "finalize_batch c = c\<lparr>current_lost_rewards := bitset_new, previous_lost_rewards := current_lost_rewards c\<rparr>"

definition finalize_epoch :: "u32 \<Rightarrow> unit action" where
  "finalize_epoch h c =
    (let old_epoch = previous_epoch_parking c in
     retire_parked old_epoch h
       ((finalize_batch c)\<lparr>current_epoch_parking := [], previous_epoch_parking := current_epoch_parking c,
          current_disabled_slots := [], previous_disabled_slots := current_disabled_slots c\<rparr>))"

definition staking_commit_inherent :: "u32 \<Rightarrow> inherent \<Rightarrow> staking_contract \<Rightarrow> handled" where
  "staking_commit_inherent h i c =
    sbind (staking_check_inherent i c, c) (\<lambda>_ c. case inh_ty i of
      Slash \<Rightarrow> sbind (read_data deser_slashed_slot (inh_data i), c) (\<lambda>slot c.
        case slash slot h c of (r, c') \<Rightarrow> with_receipt ser_slash_receipt (Inr r, c'))
    | FinalizeBatch \<Rightarrow> (Inr None, finalize_batch c)
    | FinalizeEpoch \<Rightarrow> no_receipt (finalize_epoch h c)
    | Reward \<Rightarrow> (Inl Panic, c))"

definition enable_slot :: "bls_public_key \<Rightarrow> u16 \<Rightarrow> disabled_slots \<Rightarrow> (disabled_slots, account_error) result" where
  "enable_slot k s m =
    (case om_get m k of
       None \<Rightarrow> Inl Panic
     | Some xs \<Rightarrow> let xs' = os_remove s xs in Inr (if xs' = [] then om_remove k m else om_insert k xs' m))"

definition unslash :: "slash_receipt \<Rightarrow> slashed_slot \<Rightarrow> u32 \<Rightarrow> unit action" where
  "unslash receipt slot h c =
    (let k = ss_validator_key slot; n = unat (ss_slot slot) in
     if newly_parked receipt \<and> \<not> os_elem (current_epoch_parking c) k then (Inl (Err AE_InvalidInherent), c)
     else
       let c = (if newly_parked receipt then c\<lparr>current_epoch_parking := os_remove k (current_epoch_parking c)\<rparr> else c) in
       sbind (if newly_disabled receipt \<and> \<not> epoch_at (ss_event_block slot) < epoch_at h
              then sbind (enable_slot k (ss_slot slot) (current_disabled_slots c), c) (\<lambda>m c. (Inr (), c\<lparr>current_disabled_slots := m\<rparr>))
              else (Inr (), c)) (\<lambda>_ c.
       (Inr (),
        if newly_lost_rewards receipt
        then if epoch_at (ss_event_block slot) < epoch_at h \<or> batch_at (ss_event_block slot) < batch_at h
             then c\<lparr>previous_lost_rewards := bitset_remove n (previous_lost_rewards c)\<rparr>
             else c\<lparr>current_lost_rewards := bitset_remove n (current_lost_rewards c)\<rparr>
        else c)))"

definition staking_revert_inherent :: "u32 \<Rightarrow> inherent \<Rightarrow> receipt_data \<Rightarrow> unit action" where
  "staking_revert_inherent h i receipt c =
    (case inh_ty i of
       Slash \<Rightarrow>
         sbind (required_receipt deser_slash_receipt receipt, c) (\<lambda>r c. sbind (read_data deser_slashed_slot (inh_data i), c) (\<lambda>slot c.
         unslash r slot h c))
     | FinalizeBatch \<Rightarrow> (Inl (Err AE_InvalidForTarget), c)
     | _ \<Rightarrow> (Inl Panic, c))"

end
