(* ===== verification/Staking_Revert.thy ===== *)
theory Staking_Revert
  imports Staking_Handlers
begin

text \<open>
  The handlers of the staking contract keep its invariant, move exactly the coins of the transaction, and are undone by the reverting
  handlers from the serialized receipt.  Each direction interprets \<open>reversible\<close>, the contract the accounts tree relies on.
\<close>

section \<open>Receipts are encoded\<close>

text \<open>The sets of slots are written with a 16-bit length: a set of all \<open>2 ^ 16\<close> slots cannot be written.\<close>

definition slots_ok :: "u16 oset option \<Rightarrow> bool" where
  "slots_ok x \<longleftrightarrow> (case x of None \<Rightarrow> True | Some s \<Rightarrow> os_inv s \<and> length s < 2 ^ 16)"

definition unpark_receipt_ok :: "unpark_receipt \<Rightarrow> bool" where
  "unpark_receipt_ok r \<longleftrightarrow> slots_ok (ur_current_disabled_slots r) \<and> slots_ok (ur_previous_disabled_slots r)"

definition drop_receipt_ok :: "drop_validator_receipt \<Rightarrow> bool" where
  "drop_receipt_ok r \<longleftrightarrow> address_ok (dvr_reward_address r) \<and> om_inv (dvr_retirement_by_address r) \<and>
    length (dvr_retirement_by_address r) < 2 ^ 32 \<and>
    (\<forall>(a, x) \<in> set (dvr_retirement_by_address r). address_ok a \<and> coin_ok (rr_stake x)) \<and> unpark_receipt_ok (dvr_unpark_receipt r)"

abbreviation size_slots :: "u16 oset option \<Rightarrow> nat" where
  "size_slots \<equiv> size_option (size_set 2 (\<lambda>_. 2))"

lemma encodes_slots:
  "slots_ok x \<Longrightarrow> encodes (ser_option (ser_set 2 ser_u16) x) (deser_option (deser_set 2 deser_u16)) x (size_slots x)"
  by (rule encodes_option) (auto simp: slots_ok_def intro!: encodes_set u16.encoded)

lemma encodes_ret_eq: "encodes (Inr []) (dret x) y 0 \<longleftrightarrow> x = y"
  by (simp add: encodes_def dret_def)

interpretation inactive_stake_receipt: codec ser_inactive_stake_receipt deser_inactive_stake_receipt "\<lambda>_. 4 + 0" "\<lambda>_. True"
  unfolding codec_def ser_inactive_stake_receipt_def deser_inactive_stake_receipt_def by (intro allI impI encodes_fields) (simp_all add: encodes_ret_eq)

interpretation update_validator_receipt: codec ser_update_validator_receipt deser_update_validator_receipt "\<lambda>_. 20 + 0"
  "\<lambda>r. address_ok (uvr_old_reward_address r)"
  unfolding codec_def ser_update_validator_receipt_def deser_update_validator_receipt_def by (intro allI impI encodes_fields) (simp_all add: encodes_ret_eq)

interpretation inactive_validator_receipt: codec ser_inactive_validator_receipt deser_inactive_validator_receipt "\<lambda>_. 4 + 0" "\<lambda>_. True"
  unfolding codec_def ser_inactive_validator_receipt_def deser_inactive_validator_receipt_def by (intro allI impI encodes_fields) (simp_all add: encodes_ret_eq)

interpretation slash_receipt: codec ser_slash_receipt deser_slash_receipt "\<lambda>_. 1 + (1 + (1 + 0))" "\<lambda>_. True"
  unfolding codec_def ser_slash_receipt_def deser_slash_receipt_def by (intro allI impI encodes_fields) (simp_all add: encodes_ret_eq)

interpretation unpark_receipt: codec ser_unpark_receipt deser_unpark_receipt
  "\<lambda>r. 1 + (1 + (size_slots (ur_current_disabled_slots r) + (size_slots (ur_previous_disabled_slots r) + 0)))" unpark_receipt_ok
  unfolding codec_def ser_unpark_receipt_def deser_unpark_receipt_def unpark_receipt_ok_def
  by (intro allI impI encodes_fields encodes_wseqs_Cons [OF encodes_slots]) (simp_all add: encodes_ret_eq)

abbreviation size_retirement :: "retirement_receipt \<Rightarrow> nat" where
  "size_retirement r \<equiv> 8 + (size_option (\<lambda>_. 4 + 0) (rr_inactive_stake_receipt r) + 0)"

interpretation retirement_receipt: codec ser_retirement_receipt deser_retirement_receipt size_retirement "\<lambda>r. coin_ok (rr_stake r)"
  unfolding codec_def ser_retirement_receipt_def deser_retirement_receipt_def
  by (intro allI impI encodes_fields encodes_wseqs_Cons [OF encodes_option [OF inactive_stake_receipt.encoded]]) (simp_all add: encodes_ret_eq)

interpretation drop_receipt: codec ser_drop_validator_receipt deser_drop_validator_receipt
  "\<lambda>r. 20 + (size_map 4 (\<lambda>_. 20) size_retirement (dvr_retirement_by_address r) + (4 +
    (1 + (1 + (size_slots (ur_current_disabled_slots (dvr_unpark_receipt r)) + (size_slots (ur_previous_disabled_slots (dvr_unpark_receipt r)) + 0))) + 0)))"
  drop_receipt_ok
proof
  fix r
  assume ok: "drop_receipt_ok r"
  have m: "encodes (ser_map 4 ser_address ser_retirement_receipt (dvr_retirement_by_address r)) (deser_map 4 deser_address deser_retirement_receipt)
      (dvr_retirement_by_address r) (size_map 4 (\<lambda>_. 20) size_retirement (dvr_retirement_by_address r))"
    using ok by (intro encodes_map address.encoded retirement_receipt.encoded) (auto simp: drop_receipt_ok_def)
  show "encodes (ser_drop_validator_receipt r) deser_drop_validator_receipt r
    (20 + (size_map 4 (\<lambda>_. 20) size_retirement (dvr_retirement_by_address r) + (4 +
      (1 + (1 + (size_slots (ur_current_disabled_slots (dvr_unpark_receipt r)) + (size_slots (ur_previous_disabled_slots (dvr_unpark_receipt r)) + 0))) + 0))))"
    unfolding ser_drop_validator_receipt_def deser_drop_validator_receipt_def
    by (intro encodes_fields encodes_wseqs_Cons [OF m] encodes_wseqs_Cons [OF unpark_receipt.encoded])
      (use ok in \<open>simp_all add: drop_receipt_ok_def encodes_ret_eq\<close>)
qed

text \<open>What has been written was within the bounds of the format.\<close>

lemma wseqs_Inr: "wseqs ws = Inr bs \<Longrightarrow> w \<in> set ws \<Longrightarrow> \<exists>bs'. w = Inr bs'"
  by (induction ws arbitrary: bs) (auto simp: wseq_def rbind_eq_Inr)

lemma ser_slots_length: "ser_option (ser_set 2 ser_u16) (Some s) = Inr bs \<Longrightarrow> length s < 2 ^ 16"
  by (auto simp: ser_set_def wseq_def ser_len_def rbind_eq_Inr split: if_splits)

lemma ser_unpark_receipt_ok:
  assumes "ser_unpark_receipt r = Inr bs" "\<And>s. ur_current_disabled_slots r = Some s \<Longrightarrow> os_inv s" "\<And>s. ur_previous_disabled_slots r = Some s \<Longrightarrow> os_inv s"
  shows "unpark_receipt_ok r"
proof -
  have "\<exists>bs'. ser_option (ser_set 2 ser_u16) (ur_current_disabled_slots r) = Inr bs'"
    "\<exists>bs'. ser_option (ser_set 2 ser_u16) (ur_previous_disabled_slots r) = Inr bs'"
    using assms(1) unfolding ser_unpark_receipt_def by (rule wseqs_Inr; simp)+
  then show ?thesis
    using assms(2,3) ser_slots_length
    by (cases "ur_current_disabled_slots r"; cases "ur_previous_disabled_slots r") (auto simp: unpark_receipt_ok_def slots_ok_def simp del: ser_option.simps)
qed

lemma ser_drop_receipt_bounds:
  assumes "ser_drop_validator_receipt r = Inr bs"
  shows "length (dvr_retirement_by_address r) < 2 ^ 32" "\<exists>bs'. ser_unpark_receipt (dvr_unpark_receipt r) = Inr bs'"
proof -
  have "\<exists>bs'. ser_map 4 ser_address ser_retirement_receipt (dvr_retirement_by_address r) = Inr bs'"
    using assms unfolding ser_drop_validator_receipt_def by (rule wseqs_Inr) simp
  then show "length (dvr_retirement_by_address r) < 2 ^ 32"
    by (auto simp: ser_map_def wseq_def ser_len_def rbind_eq_Inr split: if_splits)
  show "\<exists>bs'. ser_unpark_receipt (dvr_unpark_receipt r) = Inr bs'"
    using assms unfolding ser_drop_validator_receipt_def by (rule wseqs_Inr) simp
qed

section \<open>What a reader can return\<close>

definition yields :: "'a reader \<Rightarrow> ('a \<Rightarrow> bool) \<Rightarrow> bool" where
  "yields r P \<longleftrightarrow> (\<forall>bs x rest. r bs = Inr (x, rest) \<longrightarrow> P x)"

lemma yieldsD: "yields r P \<Longrightarrow> r bs = Inr (x, rest) \<Longrightarrow> P x"
  by (auto simp: yields_def)

lemma yields_bind: "yields r Q \<Longrightarrow> (\<And>x. Q x \<Longrightarrow> yields (f x) P) \<Longrightarrow> yields (dbind r f) P"
  by (fastforce simp: yields_def dbind_def split: sum.splits)

lemma yields_any: "yields r (\<lambda>_. True)"
  by (simp add: yields_def)

lemma yields_ret: "P x \<Longrightarrow> yields (dret x) P"
  by (simp add: yields_def dret_def)

lemma yields_fail: "yields (dfail e) P"
  by (simp add: yields_def dfail_def)

lemma yields_read_exact: "yields (read_exact n) (\<lambda>x. length x = n)"
  by (simp add: yields_def read_exact_def)

lemma yields_fields:
  "yields deser_address address_ok" "yields deser_bls_key bls_key_ok" "yields deser_bls_sig bls_sig_ok"
  using yields_read_exact
  by (simp_all add: deser_address_def deser_bls_key_def deser_bls_sig_def deser_array_def address_ok_def bls_key_ok_def bls_sig_ok_def yields_def)

lemma yields_option: "yields r P \<Longrightarrow> yields (deser_option r) (wf_option P)"
  unfolding deser_option_def
  by (rule yields_bind [OF yields_any]) (auto intro!: yields_ret yields_fail yields_bind)

lemma yields_incoming: "yields deser_incoming_staking_data incoming_ok"
  unfolding deser_incoming_staking_data_def
  apply (rule yields_bind [OF yields_any], split incoming_staking_type.split, intro conjI impI)
  subgoal by (intro yields_bind [OF yields_fields(2)] yields_bind [OF yields_fields(3)] yields_bind [OF yields_fields(1)] yields_ret) simp
  subgoal
    apply (rule yields_bind [OF yields_fields(2)], rule yields_bind [OF yields_any], rule yields_bind [OF yields_any])
    apply (rule yields_bind [where Q = "\<lambda>(k', p). wf_option bls_key_ok k' \<and> wf_option bls_sig_ok p \<and> (k' = None \<longleftrightarrow> p = None)"])
    subgoal by (auto intro!: yields_bind [OF yields_fields(2)] yields_bind [OF yields_fields(3)] yields_ret)
    apply (clarify, rule yields_bind [where Q = "wf_option address_ok"])
    subgoal by (auto intro!: yields_bind [OF yields_fields(1)] yields_ret)
    subgoal by (intro yields_bind [OF yields_fields(3)] yields_ret) simp
    done
  subgoal by (intro yields_bind [OF yields_fields(2)] yields_bind [OF yields_fields(3)] yields_ret) simp
  subgoal by (intro yields_bind [OF yields_fields(2)] yields_bind [OF yields_fields(3)] yields_ret) simp
  subgoal by (intro yields_bind [OF yields_fields(2)] yields_bind [OF yields_fields(3)] yields_ret) simp
  subgoal by (intro yields_bind [OF yields_fields(2)] yields_bind [OF yields_option [OF yields_fields(1)]] yields_ret) simp
  done

lemma parse_incoming_Inr:
  assumes "parse_incoming tx = Inr d"
  shows "incoming_ok d" "read_data deser_incoming_staking_data (tx_data tx) = Inr d"
  using assms yieldsD [OF yields_incoming]
  by (auto simp: parse_incoming_def full_parse_def rbind_eq_Inr read_data_def deserialize_from_vec_def split: if_splits)

definition blake2b_ok :: "crypto \<Rightarrow> bool" where
  "blake2b_ok cr \<longleftrightarrow> (\<forall>bs. length (blake2b cr bs) = 32)"

lemma path_root_length:
  assumes "blake2b_ok cr"
  shows "length (path_compute_root (blake2b cr) p x) = 32"
proof -
  have step: "length (path_step (blake2b cr) acc n) = 32" for acc n
    using assms by (simp add: path_step_def blake2b_ok_def)
  have "length acc = 32 \<Longrightarrow> length (foldl (path_step (blake2b cr)) acc p) = 32" for acc
    by (induction p arbitrary: acc) (simp_all add: step)
  then show ?thesis
    using assms by (simp add: path_compute_root_def blake2b_ok_def)
qed

lemma signer_ok: "blake2b_ok cr \<Longrightarrow> address_ok (compute_signer cr sp)"
  by (simp add: compute_signer_def address_from_hash_def address_ok_def path_root_length)

lemma self_signer_ok: "blake2b_ok cr \<Longrightarrow> get_self_signer cr tx = Inr a \<Longrightarrow> address_ok a"
  by (auto simp: get_self_signer_def rbind_eq_Inr intro: signer_ok)

section \<open>Incoming transactions\<close>

lemma no_receipt_Inr: "no_receipt p = (Inr r, c') \<longleftrightarrow> (\<exists>x. p = (Inr x, c')) \<and> r = None"
  by (auto simp: no_receipt_def sbind_eq_Inr)

lemma with_receipt_Inr: "with_receipt s p = (Inr r, c') \<longleftrightarrow> (\<exists>x bs. p = (Inr x, c') \<and> s x = Inr bs \<and> r = Some bs)"
  by (auto simp: with_receipt_def sbind_eq_Inr rbind_eq_Inr)

lemma optional_receipt_Inr:
  "optional_receipt s p = (Inr r, c') \<longleftrightarrow>
    (\<exists>x. p = (Inr x, c') \<and> (case x of None \<Rightarrow> r = None | Some y \<Rightarrow> \<exists>bs. s y = Inr bs \<and> r = Some bs))"
  by (cases p; cases "fst p") (auto simp: optional_receipt_def rbind_eq_Inr split: option.splits)

lemma read_data_encoded: "encodes w r x n \<Longrightarrow> w = Inr bs \<Longrightarrow> read_data r bs = Inr x"
  using encodesD [of w r x n bs "[]"] by (simp add: read_data_def deserialize_from_vec_def)

lemma required_receipt_encoded: "encodes w r x n \<Longrightarrow> w = Inr bs \<Longrightarrow> required_receipt r (Some bs) = Inr x"
  by (simp add: required_receipt_def read_data_encoded)

lemma conditional_encoded:
  assumes "case x of None \<Rightarrow> r = None | Some y \<Rightarrow> \<exists>bs. ser_inactive_stake_receipt y = Inr bs \<and> r = Some bs"
  shows "conditional_deserialize deser_inactive_stake_receipt r = Inr x"
  using assms read_data_encoded [OF inactive_stake_receipt.encoded]
  by (auto simp: conditional_deserialize_def split: option.splits)

text \<open>A stake must not be empty, which the static verification of transactions guarantees, and a new key must not belong to
  another validator, which nothing checks.\<close>

fun data_allowed :: "transaction \<Rightarrow> incoming_staking_data \<Rightarrow> staking_contract \<Rightarrow> bool" where
  "data_allowed tx (UpdateValidator k k' _ _ _) c = key_free k k' c"
| "data_allowed tx (Stake _ _) c = (val (tx_value tx) \<noteq> 0)"
| "data_allowed tx _ c = True"

definition incoming_allowed :: "transaction \<Rightarrow> staking_contract \<Rightarrow> bool" where
  "incoming_allowed tx c \<longleftrightarrow> address_ok (tx_sender tx) \<and>
    (if tx_sender tx \<noteq> tx_recipient tx then (case parse_incoming tx of Inr d \<Rightarrow> data_allowed tx d c | Inl _ \<Rightarrow> True)
     else val (tx_value tx) \<noteq> 0)"

definition data_value :: "transaction \<Rightarrow> incoming_staking_data \<Rightarrow> nat" where
  "data_value tx d = (if incoming_is_signalling d then 0 else val (tx_value tx))"

lemma unpark_receipt_eq: "unpark_validator k c = (Inr receipt, c') \<Longrightarrow> receipt = park_receipt k c"
  by (auto simp: unpark_validator_def park_receipt_def Let_def split: if_splits)

lemma park_receipt_ok:
  assumes "park_wf c" "ser_unpark_receipt (park_receipt k c) = Inr bs"
  shows "unpark_receipt_ok (park_receipt k c)"
  using assms(2) by (rule ser_unpark_receipt_ok) (use assms(1) in \<open>auto simp: park_receipt_def park_wf_def dest: disabled_wfD(2)\<close>)

lemma incoming_data_ok:
  assumes "sc_wf c" "commit_incoming_data h tx d c = (Inr r, c')" "incoming_ok d" "data_allowed tx d c" "address_ok (tx_sender tx)"
  shows "sc_wf c' \<and> val (sc_balance c') = val (sc_balance c) + data_value tx d \<and> revert_incoming_data tx r d c' = (Inr (), c)"
proof (cases d)
  case (CreateValidator k p a)
  with assms(2,3) show ?thesis
    using create_validator_ok [OF assms(1), of k a "tx_value tx" _ c'] by (auto simp: no_receipt_Inr data_value_def)
next
  case (UpdateValidator k k' p a s)
  then obtain receipt bs where u: "update_validator k k' a c = (Inr receipt, c')" "ser_update_validator_receipt receipt = Inr bs" "r = Some bs"
    using assms(2) by (auto simp: with_receipt_Inr)
  have "key_free k k' c" "wf_option bls_key_ok k'" "wf_option address_ok a"
    using assms(3,4) UpdateValidator by auto
  note ok = update_validator_ok [OF assms(1) u(1) this]
  with u(2,3) UpdateValidator show ?thesis
    by (simp add: required_receipt_encoded [OF update_validator_receipt.encoded] data_value_def)
next
  case (RetireValidator k s)
  with assms(2) show ?thesis
    using retire_validator_ok [OF assms(1), of k h _ c'] by (auto simp: no_receipt_Inr data_value_def)
next
  case (ReactivateValidator k s)
  then obtain receipt bs where u: "reactivate_validator k c = (Inr receipt, c')" "ser_inactive_validator_receipt receipt = Inr bs" "r = Some bs"
    using assms(2) by (auto simp: with_receipt_Inr)
  with ReactivateValidator reactivate_validator_ok [OF assms(1) u(1)] show ?thesis
    by (simp add: required_receipt_encoded [OF inactive_validator_receipt.encoded] data_value_def)
next
  case (UnparkValidator k s)
  then obtain bs where u: "unpark_validator k c = (Inr (park_receipt k c), c')" "ser_unpark_receipt (park_receipt k c) = Inr bs" "r = Some bs"
    using assms(2) by (auto simp: with_receipt_Inr dest: unpark_receipt_eq)
  note d = sc_wfD(4) [OF assms(1)]
  have "required_receipt deser_unpark_receipt r = Inr (park_receipt k c)"
    using required_receipt_encoded [OF unpark_receipt.encoded [OF park_receipt_ok [OF d u(2)]] u(2)] u(3) by simp
  with UnparkValidator unpark_validator_wf [OF assms(1) u(1)] unpark_validator_ok(2) [OF d u(1)] unpark_validator_frame(1) [OF u(1)]
  show ?thesis
    by (simp add: data_value_def)
next
  case (Stake k a)
  have "address_ok (staker_of a tx)"
    using assms(3,5) Stake by (auto simp: staker_of_def split: option.splits)
  with assms(2,4) Stake show ?thesis
    using stake_ok [OF assms(1), of "staker_of a tx" "tx_value tx" k _ c'] by (auto simp: no_receipt_Inr data_value_def)
qed

lemma incoming_self_ok:
  assumes "sc_wf c" "commit_incoming_self h tx a d c = (Inr r, c')" "address_ok a" "val (tx_value tx) \<noteq> 0"
  shows "sc_wf c' \<and> val (sc_balance c') = val (sc_balance c) + val (tx_value tx) \<and> revert_incoming_self tx r a d c' = (Inr (), c)"
proof (cases d)
  case (RetireStake k)
  then obtain x where u: "retire_recipient a (tx_value tx) (Some h) c = (Inr x, c')"
    and x: "case x of None \<Rightarrow> r = None | Some y \<Rightarrow> \<exists>bs. ser_inactive_stake_receipt y = Inr bs \<and> r = Some bs"
    using assms(2) by (auto simp: optional_receipt_Inr)
  with RetireStake retire_recipient_wf [OF assms(1) u assms(4,3)] retire_recipient_undo [OF assms(1) u assms(4,3)] show ?thesis
    by (simp add: conditional_encoded [OF x])
next
  case (ReactivateStake k)
  with assms(2-4) show ?thesis
    using stake_ok [OF assms(1), of a "tx_value tx" k _ c']
    by (auto simp: no_receipt_Inr reactivate_recipient_def revert_reactivate_recipient_def)
qed

definition incoming_value :: "transaction \<Rightarrow> nat" where
  "incoming_value tx =
    (if tx_sender tx \<noteq> tx_recipient tx then (case parse_incoming tx of Inr d \<Rightarrow> data_value tx d | Inl _ \<Rightarrow> 0) else val (tx_value tx))"

lemma staking_incoming_ok:
  assumes "blake2b_ok cr" "sc_wf c" "incoming_allowed tx c" "staking_commit_incoming cr h tx c = (Inr r, c')"
  shows "sc_wf c' \<and> val (sc_balance c') = val (sc_balance c) + incoming_value tx \<and> staking_revert_incoming cr tx r c' = (Inr (), c)"
proof (cases "tx_sender tx = tx_recipient tx")
  case False
  then obtain d where d: "parse_incoming tx = Inr d" "commit_incoming_data h tx d c = (Inr r, c')"
    using assms(4) by (auto simp: staking_commit_incoming_def sbind_eq_Inr)
  with incoming_data_ok [OF assms(2) d(2) parse_incoming_Inr(1) [OF d(1)]] assms(3) False show ?thesis
    by (simp add: staking_revert_incoming_def parse_incoming_Inr(2) [OF d(1)] incoming_allowed_def incoming_value_def)
next
  case True
  then obtain d a where d: "read_data deser_self_staking_data (tx_data tx) = Inr d" "get_self_signer cr tx = Inr a"
      "commit_incoming_self h tx a d c = (Inr r, c')"
    using assms(4) by (auto simp: staking_commit_incoming_def sbind_eq_Inr)
  with incoming_self_ok [OF assms(2) d(3) self_signer_ok [OF assms(1) d(2)]] assms(3) True show ?thesis
    by (simp add: staking_revert_incoming_def incoming_allowed_def incoming_value_def)
qed

interpretation staking_incoming: reversible "staking_commit_incoming cr h" "staking_revert_incoming cr" sc_wf
  "\<lambda>tx c. blake2b_ok cr \<and> incoming_allowed tx c" for cr h
  by unfold_locales (use staking_incoming_ok in blast)+

section \<open>Outgoing transactions\<close>

lemma staker_stake_total:
  assumes "validator_ok v"
  shows "val (staker_stake v) = om_total val (va_stakes v)" "val (coin_sub (va_balance v) (staker_stake v)) = val (va_balance v) - om_total val (va_stakes v)"
proof -
  have w: "om_total val (va_stakes v) \<le> val (va_balance v)" "val (va_balance v) \<le> max_safe"
    using assms by (simp_all add: validator_ok_def coin_ok_val)
  then show s: "val (staker_stake v) = om_total val (va_stakes v)"
    using val_foldl [of coin_ZERO "va_stakes v"] by (simp add: staker_stake_def stakes_sum_total)
  then show "val (coin_sub (va_balance v) (staker_stake v)) = val (va_balance v) - om_total val (va_stakes v)"
    using w val_coin_sub [of "staker_stake v" "va_balance v"] by simp
qed

lemma balance_sufficient_Inr: "balance_sufficient b t = Inr u \<longleftrightarrow> val t \<le> val b"
  by (auto simp: balance_sufficient_def coin_less_val)

lemma retirements_ok:
  assumes "stakes_wf xs" "om_total val xs \<le> max_safe"
  shows "om_inv (retirements m xs)" "\<forall>(a, x) \<in> set (retirements m xs). address_ok a \<and> coin_ok (rr_stake x)"
proof -
  show "om_inv (retirements m xs)"
    using stakes_wfD(1) [OF assms(1)] by (simp add: om_inv_def retirements_def comp_def case_prod_unfold)
  have "val s \<le> max_safe" if "(a, s) \<in> set xs" for a s
    using om.total_ge [OF stakes_wfD(1) [OF assms(1)], of a s val] that assms stakes_wfD(1) [OF assms(1)] by (simp add: om_get_in_set)
  then show "\<forall>(a, x) \<in> set (retirements m xs). address_ok a \<and> coin_ok (rr_stake x)"
    using assms(1) by (fastforce simp: retirements_def stakes_wf_def coin_ok_val)
qed

lemma outgoing_drop_ok:
  assumes "sc_wf c" "om_get (inactive_validators_by_key c) k = Some iv" "coin_sub (va_balance (iv_validator iv)) (staker_stake (iv_validator iv)) = t"
    and "with_receipt ser_drop_validator_receipt (drop_validator k t c) = (Inr r, c')"
  shows "sc_wf c' \<and> val (sc_balance c) = val (sc_balance c') + val t \<and>
    (\<exists>receipt. required_receipt deser_drop_validator_receipt r = Inr receipt \<and> revert_drop_validator k t receipt c' = (Inr (), c))"
proof -
  define v where "v = iv_validator iv"
  note f = inactive_validator_facts [OF assms(1,2), folded v_def]
  have w: "stakes_wf (va_stakes v)" "om_total val (va_stakes v) \<le> val (va_balance v)" "val (va_balance v) \<le> max_safe" "address_ok (va_reward_address v)"
    using f(3) by (simp_all add: validator_ok_def coin_ok_val)
  have t: "val t + om_total val (va_stakes v) = val (va_balance v)"
    using assms(3) staker_stake_total(2) [OF f(3)] w(2) by (simp add: v_def)
  obtain receipt bs where r: "drop_validator k t c = (Inr receipt, c')" "ser_drop_validator_receipt receipt = Inr bs" "r = Some bs"
    using assms(4) by (auto simp: with_receipt_Inr)
  have u: "revert_drop_validator k t receipt c' = (Inr (), c)" "sc_wf c'" "val (sc_balance c) = val (sc_balance c') + val t"
    using drop_validator_undo [OF assms(1,2) r(1), of t] t by (auto simp: v_def)
  have receipt: "receipt = \<lparr>dvr_reward_address = va_reward_address v, dvr_retirement_by_address = retirements (inactive_stake_by_address c) (va_stakes v),
        dvr_retire_time = iv_retire_time iv, dvr_unpark_receipt = park_receipt k c\<rparr>"
    using drop_validator_eq [OF assms(1,2) v_def, of t] r(1) by auto
  have "unpark_receipt_ok (park_receipt k c)"
    using ser_drop_receipt_bounds(2) [OF r(2)] park_receipt_ok [OF sc_wfD(4) [OF assms(1)]] by (auto simp: receipt)
  then have "drop_receipt_ok receipt"
    using ser_drop_receipt_bounds(1) [OF r(2)] retirements_ok [OF w(1)] w by (simp add: drop_receipt_ok_def receipt)
  then have "required_receipt deser_drop_validator_receipt r = Inr receipt"
    using required_receipt_encoded [OF drop_receipt.encoded r(2)] r(3) by simp
  with u show ?thesis by blast
qed

lemma outgoing_inactive_ok:
  assumes "sc_wf c" "om_get (inactive_stake_by_address c) a = Some i" "val t \<le> val (is_balance i)"
    and "optional_receipt ser_inactive_stake_receipt (reactivate_sender a t None c) = (Inr r, c')"
  shows "sc_wf c' \<and> val (sc_balance c) = val (sc_balance c') + val t \<and>
    (\<exists>receipt. conditional_deserialize deser_inactive_stake_receipt r = Inr receipt \<and>
      revert_reactivate_sender a t receipt c' = (Inr (), c) \<and> revert_unstake a t receipt c' = (Inr (), c))"
proof -
  obtain x where u: "reactivate_sender a t None c = (Inr x, c')"
    and x: "case x of None \<Rightarrow> r = None | Some y \<Rightarrow> \<exists>bs. ser_inactive_stake_receipt y = Inr bs \<and> r = Some bs"
    using assms(4) by (auto simp: optional_receipt_Inr)
  from reactivate_sender_wf [OF assms(1-3) u] reactivate_sender_undo [OF assms(1-3) u] conditional_encoded [OF x] show ?thesis
    by blast
qed

lemma outgoing_proof_ok:
  assumes "sc_wf c" "check_outgoing_proof cr h tx p c = Inr ()" "commit_outgoing_proof cr tx p c = (Inr r, c')"
  shows "sc_wf c' \<and> val (sc_balance c) = val (sc_balance c') + (val (tx_value tx) + val (tx_fee tx)) \<and>
    revert_outgoing_proof cr tx r p c' = (Inr (), c)"
proof (cases p)
  case (DropValidator k s)
  obtain iv t where iv: "om_get (inactive_validators_by_key c) k = Some iv" and t: "tx_total tx = Inr t"
    and sub: "coin_sub (va_balance (iv_validator iv)) (staker_stake (iv_validator iv)) = t"
    using assms(2) DropValidator by (auto simp: rbind_eq_Inr Let_def split: if_splits option.splits)
  from outgoing_drop_ok [OF assms(1) iv sub, of r c'] assms(3) DropValidator t tx_total_Inr [THEN iffD1, OF t] show ?thesis
    by auto
next
  case (Unstake sp)
  let ?a = "compute_signer cr sp"
  obtain i t where i: "om_get (inactive_stake_by_address c) ?a = Some i" and t: "tx_total tx = Inr t" and le: "val t \<le> val (is_balance i)"
    using assms(2) Unstake by (auto simp: rbind_eq_Inr balance_sufficient_Inr split: if_splits option.splits)
  note d = sc_wfD [OF assms(1)]
  have "unstake ?a t c = reactivate_sender ?a t None c"
    using unstake_eq [OF inactive_wfD(1) [OF d(3)] i le inactive_le [OF assms(1) i] d(7)] .
  with outgoing_inactive_ok [OF assms(1) i le, of r c'] assms(3) Unstake t tx_total_Inr [THEN iffD1, OF t] show ?thesis
    by auto
qed

lemma outgoing_self_ok:
  assumes "sc_wf c" "check_outgoing_self tx a d c = Inr ()" "commit_outgoing_self tx a d c = (Inr r, c')"
  shows "sc_wf c' \<and> val (sc_balance c) = val (sc_balance c') + (val (tx_value tx) + val (tx_fee tx)) \<and>
    revert_outgoing_self tx r a d c' = (Inr (), c)"
proof (cases d)
  case (RetireStake k)
  obtain t where t: "tx_total tx = Inr t"
    using assms(3) RetireStake by (auto simp: sbind_eq_Inr)
  with assms(3) RetireStake show ?thesis
    using retire_sender_ok [OF assms(1), of a t k _ c'] tx_total_Inr [THEN iffD1, OF t] by (auto simp: no_receipt_Inr)
next
  case (ReactivateStake k)
  obtain i t where i: "om_get (inactive_stake_by_address c) a = Some i" and t: "tx_total tx = Inr t" and le: "val t \<le> val (is_balance i)"
    using assms(2) ReactivateStake by (auto simp: rbind_eq_Inr balance_sufficient_Inr split: option.splits)
  with outgoing_inactive_ok [OF assms(1) i le, of r c'] assms(3) ReactivateStake tx_total_Inr [THEN iffD1, OF t] show ?thesis
    by auto
qed

lemma staking_outgoing_ok:
  assumes "sc_wf c" "staking_commit_outgoing cr h tx c = (Inr r, c')"
  shows "sc_wf c' \<and> val (sc_balance c) = val (sc_balance c') + (val (tx_value tx) + val (tx_fee tx)) \<and>
    staking_revert_outgoing cr tx r c' = (Inr (), c)"
  using assms outgoing_proof_ok [OF assms(1)] outgoing_self_ok [OF assms(1)]
  by (auto simp: staking_commit_outgoing_def staking_check_outgoing_def staking_revert_outgoing_def sbind_eq_Inr rbind_eq_Inr)

interpretation staking_outgoing: reversible "staking_commit_outgoing cr h" "staking_revert_outgoing cr" sc_wf "\<lambda>tx c. True" for cr h
  by unfold_locales (use staking_outgoing_ok in blast)+

end
