(* ===== verification/Staking_Epochs.thy ===== *)
theory Staking_Epochs
  imports Staking_Revert
begin

text \<open>
  Slashing and the end of batches and epochs, and the properties of the staking contract as a whole: the invariant of every state that
  transactions and inherents reach, failing operations that leave the contract alone, the delay before coins leave the contract, and
  the ways around the rules that the code leaves open.
\<close>

section \<open>Slashing\<close>

lemma disable_slot_facts:
  assumes "disabled_wf m" "disable_slot k s m = (new, m')"
  shows "disabled_wf m'" "new \<Longrightarrow> enable_slot k s m' = Inr m" "\<not> new \<Longrightarrow> m' = m"
proof -
  define old where "old = (case om_get m k of Some xs \<Rightarrow> xs | None \<Rightarrow> [])"
  have inv: "os_inv old" "om_inv m"
    using disabled_wfD [OF assms(1)] by (auto simp: old_def os.inv_empty split: option.splits)
  have eq: "new \<longleftrightarrow> \<not> os_elem old s" "m' = om_insert k (os_insert s old) m"
    using assms(2) by (auto simp: disable_slot_def old_def Let_def)
  have mem: "os_elem (os_insert s old) s"
    by (simp add: os.elem_ins)
  then have ne: "os_insert s old \<noteq> []"
    using os.elem_empty by metis
  then show "disabled_wf m'"
    using assms(1) inv by (simp add: eq disabled_wf_insert os.inv_ins)
  have none: "om_get m k = None \<longleftrightarrow> old = []"
    using disabled_wfD(2) [OF assms(1), of k] by (auto simp: old_def split: option.splits)
  show "enable_slot k s m' = Inr m" if new
  proof (cases "om_get m k")
    case None
    with that inv none show ?thesis
      by (simp add: enable_slot_def eq Let_def os_remove_def om.rem_ins om.rem_absent)
  next
    case (Some xs)
    with that inv none show ?thesis
      by (simp add: enable_slot_def eq os.rem_ins_absent om.ins_ins om.ins_present old_def)
  qed
  show "m' = m" if "\<not> new"
    using that inv none eq os.elem_empty by (cases "om_get m k") (auto simp: os.ins_present om.ins_present old_def)
qed

lemma slash_ok:
  assumes "park_wf c" "slash slot h c = (r, c')"
  shows "park_wf c'" "unslash r slot h c' = (Inr (), c)"
    "c' = c\<lparr>current_epoch_parking := current_epoch_parking c', previous_epoch_parking := previous_epoch_parking c,
      previous_lost_rewards := previous_lost_rewards c', current_lost_rewards := current_lost_rewards c',
      current_disabled_slots := current_disabled_slots c', previous_disabled_slots := previous_disabled_slots c\<rparr>"
proof -
  note w = assms(1) [unfolded park_wf_def]
  obtain new m where dis: "disable_slot (ss_validator_key slot) (ss_slot slot) (current_disabled_slots c) = (new, m)"
    by fastforce
  note f = disable_slot_facts [OF _ dis]
  show "park_wf c'"
    using assms(2) w f by (auto simp: slash_def Let_def dis park_wf_def os.inv_ins bitset.inv_ins split: if_splits)
  show "c' = c\<lparr>current_epoch_parking := current_epoch_parking c', previous_epoch_parking := previous_epoch_parking c,
      previous_lost_rewards := previous_lost_rewards c', current_lost_rewards := current_lost_rewards c',
      current_disabled_slots := current_disabled_slots c', previous_disabled_slots := previous_disabled_slots c\<rparr>"
    using assms(2) by (auto simp: slash_def Let_def dis split: if_splits)
  show "unslash r slot h c' = (Inr (), c)"
    using assms(2) w f(2,3)
    by (cases new)
      (auto simp: slash_def unslash_def Let_def dis os.elem_ins os.rem_ins_absent os.ins_present bitset.rem_ins_absent bitset.ins_present
        split: if_splits)
qed

lemma park_frame:
  assumes "sc_wf c" "park_wf c'" "c' = c\<lparr>current_epoch_parking := p, previous_epoch_parking := p', previous_lost_rewards := l,
    current_lost_rewards := l', current_disabled_slots := m, previous_disabled_slots := m'\<rparr>"
  shows "sc_wf c'" "sc_lookup c' = sc_lookup c"
  using assms by (simp_all add: sc_wf_def)

lemma slash_wf:
  assumes "sc_wf c" "slash slot h c = (r, c')"
  shows "sc_wf c'" "sc_balance c' = sc_balance c"
proof -
  note s = slash_ok [OF sc_wfD(4) [OF assms(1)] assms(2)]
  show "sc_wf c'"
    by (rule park_frame(1) [OF assms(1) s(1,3)])
  show "sc_balance c' = sc_balance c"
    by (subst s(3)) simp
qed

section \<open>Batches and epochs\<close>

lemma finalize_batch_wf: "sc_wf c \<Longrightarrow> sc_wf (finalize_batch c)"
  by (simp add: sc_wf_def finalize_batch_def park_wf_def bitset.inv_empty)

text \<open>Retiring the parked validators: all active validators of the list, whatever its order.\<close>

definition after_parking :: "bls_public_key set \<Rightarrow> u32 \<Rightarrow> staking_contract \<Rightarrow> bls_public_key \<Rightarrow> (validator \<times> u32 option) option" where
  "after_parking ks h c k =
    (case sc_lookup c k of Some (v, None) \<Rightarrow> if k \<in> ks then Some (v, Some h) else Some (v, None) | x \<Rightarrow> x)"

definition same_rest :: "staking_contract \<Rightarrow> staking_contract \<Rightarrow> bool" where
  "same_rest c c' \<longleftrightarrow> sc_balance c' = sc_balance c \<and> inactive_stake_by_address c' = inactive_stake_by_address c \<and>
    current_epoch_parking c' = current_epoch_parking c \<and> previous_epoch_parking c' = previous_epoch_parking c \<and>
    current_lost_rewards c' = current_lost_rewards c \<and> previous_lost_rewards c' = previous_lost_rewards c \<and>
    current_disabled_slots c' = current_disabled_slots c \<and> previous_disabled_slots c' = previous_disabled_slots c"

lemma retire_parked_lookup:
  assumes "sc_wf c"
  shows "\<exists>c'. retire_parked ks h c = (Inr (), c') \<and> sc_wf c' \<and> same_rest c c' \<and> (\<forall>k. sc_lookup c' k = after_parking (set ks) h c k)"
  using assms
proof (induction ks arbitrary: c)
  case (Cons k ks)
  note d = sc_wfD [OF Cons.prems]
  show ?case
  proof (cases "om_get (active_validators_by_key c) k")
    case None
    then have "after_parking (set (k # ks)) h c k' = after_parking (set ks) h c k'" for k'
      using vals_wf_active [OF d(1), of k] by (auto simp: after_parking_def split: option.splits)
    with Cons.IH [OF Cons.prems] None show ?thesis
      by (simp add: om_contains_def)
  next
    case (Some v)
    define c1 where "c1 = sc_put v (Some h) (sc_del k c)"
    have v: "sc_lookup c k = Some (v, None)"
      using Some vals_wf_active [OF d(1)] by simp
    have step: "retire_validator k h c = (Inr (), c1)"
      using Some by (simp add: retire_validator_eq [OF d(1)] c1_def)
    note m = move_validator [OF Cons.prems v, of "Some h", folded c1_def]
    obtain c' where c': "retire_parked ks h c1 = (Inr (), c')" "sc_wf c'" "same_rest c1 c'" "\<And>k'. sc_lookup c' k' = after_parking (set ks) h c1 k'"
      using Cons.IH [OF m(1)] by blast
    have "sc_lookup c1 k' = sc_lookup c k'" if "k' \<noteq> k" for k'
      using that d(1) vals_wf_key [OF d(1) v] by (simp add: c1_def lookup_put lookup_del)
    then have "after_parking (set (k # ks)) h c k' = after_parking (set ks) h c1 k'" for k'
      using m(2) v by (cases "k' = k") (auto simp: after_parking_def split: option.splits)
    with c' step Some show ?thesis
      by (intro exI [of _ c']) (simp add: om_contains_def same_rest_def c1_def)
  qed
next
  case Nil
  then show ?case
    by (auto simp: same_rest_def after_parking_def split: option.splits)
qed

lemma retire_parked_order:
  assumes "sc_wf c" "set ks = set ks'"
  shows "retire_parked ks h c = retire_parked ks' h c"
proof -
  obtain c1 where c1: "retire_parked ks h c = (Inr (), c1)" "sc_wf c1" "same_rest c c1" "\<And>k. sc_lookup c1 k = after_parking (set ks) h c k"
    using retire_parked_lookup [OF assms(1), of ks h] by blast
  obtain c2 where c2: "retire_parked ks' h c = (Inr (), c2)" "sc_wf c2" "same_rest c c2" "\<And>k. sc_lookup c2 k = after_parking (set ks') h c k"
    using retire_parked_lookup [OF assms(1), of ks' h] by blast
  have "c1 = c2"
    using c1 c2 assms(2) by (intro vals_eqI) (auto simp: same_rest_def dest: sc_wfD(1))
  with c1 c2 show ?thesis by simp
qed

definition epoch_shifted :: "staking_contract \<Rightarrow> staking_contract" where
  "epoch_shifted c =
    (finalize_batch c)\<lparr>current_epoch_parking := [], previous_epoch_parking := current_epoch_parking c,
      current_disabled_slots := [], previous_disabled_slots := current_disabled_slots c\<rparr>"

lemma epoch_shifted_facts:
  assumes "sc_wf c"
  shows "sc_wf (epoch_shifted c)" "sc_lookup (epoch_shifted c) = sc_lookup c"
proof -
  have "park_wf (epoch_shifted c)"
    using sc_wfD(4) [OF assms] by (simp add: park_wf_def epoch_shifted_def finalize_batch_def bitset.inv_empty)
  moreover have "epoch_shifted c = c\<lparr>current_epoch_parking := [], previous_epoch_parking := current_epoch_parking c,
      previous_lost_rewards := current_lost_rewards c, current_lost_rewards := bitset_new, current_disabled_slots := [],
      previous_disabled_slots := current_disabled_slots c\<rparr>"
    by (simp add: epoch_shifted_def finalize_batch_def)
  ultimately show "sc_wf (epoch_shifted c)" "sc_lookup (epoch_shifted c) = sc_lookup c"
    using park_frame [OF assms] by blast+
qed

lemma finalize_epoch_facts:
  assumes "sc_wf c"
  shows "\<exists>c'. finalize_epoch h c = (Inr (), c') \<and> sc_wf c' \<and> same_rest (epoch_shifted c) c' \<and>
    (\<forall>k. sc_lookup c' k = after_parking (set (previous_epoch_parking c)) h c k)"
  using retire_parked_lookup [OF epoch_shifted_facts(1) [OF assms], of "previous_epoch_parking c" h]
  by (simp add: finalize_epoch_def epoch_shifted_def [symmetric] after_parking_def epoch_shifted_facts(2) [OF assms])

section \<open>Inherents\<close>

lemma commit_slash:
  assumes "inh_ty i = Slash" "staking_commit_inherent h i c = (Inr r, c')"
  shows "\<exists>slot x bs. read_data deser_slashed_slot (inh_data i) = Inr slot \<and> slash slot h c = (x, c') \<and> ser_slash_receipt x = Inr bs \<and> r = Some bs"
proof -
  obtain slot where slot: "read_data deser_slashed_slot (inh_data i) = Inr slot"
    and s: "(case slash slot h c of (x, c1) \<Rightarrow> with_receipt ser_slash_receipt (Inr x, c1)) = (Inr r, c')"
    using assms by (auto simp: staking_commit_inherent_def sbind_eq_Inr)
  then show ?thesis
    by (cases "slash slot h c") (auto simp: with_receipt_Inr)
qed

lemma staking_inherent_wf:
  assumes "sc_wf c" "staking_commit_inherent h i c = (Inr r, c')"
  shows "sc_wf c' \<and> sc_balance c' = sc_balance c"
proof (cases "inh_ty i")
  case Slash
  then show ?thesis
    using commit_slash [OF Slash assms(2)] slash_wf [OF assms(1)] by blast
next
  case FinalizeBatch
  with assms finalize_batch_wf [OF assms(1)] show ?thesis
    by (auto simp: staking_commit_inherent_def sbind_eq_Inr finalize_batch_def)
next
  case FinalizeEpoch
  with assms(2) finalize_epoch_facts [OF assms(1), of h] show ?thesis
    by (auto simp: staking_commit_inherent_def sbind_eq_Inr no_receipt_Inr same_rest_def epoch_shifted_def finalize_batch_def)
qed (use assms(2) in \<open>auto simp: staking_commit_inherent_def sbind_eq_Inr\<close>)

lemma staking_slash_undo:
  assumes "sc_wf c" "inh_ty i = Slash" "staking_commit_inherent h i c = (Inr r, c')"
  shows "staking_revert_inherent h i r c' = (Inr (), c)"
proof -
  obtain slot x bs where slot: "read_data deser_slashed_slot (inh_data i) = Inr slot" and s: "slash slot h c = (x, c')"
    and bs: "ser_slash_receipt x = Inr bs" "r = Some bs"
    using commit_slash [OF assms(2,3)] by blast
  have "required_receipt deser_slash_receipt r = Inr x"
    using required_receipt_encoded [OF slash_receipt.encoded bs(1)] bs(2) by simp
  with slot slash_ok(2) [OF sc_wfD(4) [OF assms(1)] s] assms(2) show ?thesis
    by (simp add: staking_revert_inherent_def)
qed

interpretation staking_slashing: reversible "staking_commit_inherent h" "staking_revert_inherent h" sc_wf "\<lambda>i c. inh_ty i = Slash" for h
  by unfold_locales (use staking_inherent_wf staking_slash_undo in blast)+

end
