(* ===== verification/Staking_Properties.thy ===== *)
theory Staking_Properties
  imports Staking_Epochs
begin

text \<open>
  The properties of the staking contract as a whole: the invariant of its runs, committing and
  reverting, failing operations that leave the contract alone, the delay before coins leave the contract, the end of an epoch, and two
  ways around the rules that the code leaves open.
\<close>

section \<open>Runs of the contract\<close>

text \<open>A run commits incoming transactions, outgoing transactions and inherents in any order, each at its block height; it is None as soon
  as one of them is refused.\<close>

datatype staking_event = Ev_Incoming u32 transaction | Ev_Outgoing u32 transaction | Ev_Inherent u32 inherent

fun staking_apply :: "crypto \<Rightarrow> staking_event \<Rightarrow> staking_contract \<Rightarrow> staking_contract option" where
  "staking_apply cr (Ev_Incoming h tx) c = (case staking_commit_incoming cr h tx c of (Inr _, c') \<Rightarrow> Some c' | _ \<Rightarrow> None)"
| "staking_apply cr (Ev_Outgoing h tx) c = (case staking_commit_outgoing cr h tx c of (Inr _, c') \<Rightarrow> Some c' | _ \<Rightarrow> None)"
| "staking_apply cr (Ev_Inherent h i) c = (case staking_commit_inherent h i c of (Inr _, c') \<Rightarrow> Some c' | _ \<Rightarrow> None)"

fun staking_run :: "crypto \<Rightarrow> staking_event list \<Rightarrow> staking_contract \<Rightarrow> staking_contract option" where
  "staking_run cr [] c = Some c"
| "staking_run cr (e # es) c = (case staking_apply cr e c of None \<Rightarrow> None | Some c' \<Rightarrow> staking_run cr es c')"

text \<open>The condition on the incoming transactions of a run, each in the state that it meets: a stake or self transaction has a value
  and the new key of an update is not the key of another validator.\<close>

fun run_allowed :: "crypto \<Rightarrow> staking_event list \<Rightarrow> staking_contract \<Rightarrow> bool" where
  "run_allowed cr [] c = True"
| "run_allowed cr (e # es) c =
    ((case e of Ev_Incoming _ tx \<Rightarrow> incoming_allowed tx c | _ \<Rightarrow> True) \<and>
     (case staking_apply cr e c of None \<Rightarrow> True | Some c' \<Rightarrow> run_allowed cr es c'))"

lemma staking_apply_wf:
  assumes "blake2b_ok cr" "sc_wf c" "staking_apply cr e c = Some c'" "case e of Ev_Incoming _ tx \<Rightarrow> incoming_allowed tx c | _ \<Rightarrow> True"
  shows "sc_wf c'"
  using assms(3,4) staking_incoming_ok [OF assms(1,2)] staking_outgoing_ok [OF assms(2)] staking_inherent_wf [OF assms(2)]
  by (cases e) (auto split: prod.splits sum.splits)

lemma staking_run_wf:
  assumes "blake2b_ok cr" "sc_wf c" "staking_run cr es c = Some c'" "run_allowed cr es c"
  shows "sc_wf c'"
  using assms(2-4)
proof (induction es arbitrary: c)
  case (Cons e es)
  then obtain c1 where "staking_apply cr e c = Some c1" "staking_run cr es c1 = Some c'" "run_allowed cr es c1"
    by (auto split: option.splits)
  with Cons staking_apply_wf [OF assms(1) Cons.prems(1), of e] show ?case
    by simp
qed simp

lemma sc_wf_meaning:
  assumes "sc_wf c"
  shows "set (active_validators_sorted c) = snd ` set (active_validators_by_key c)"
    "\<not> (om_contains (active_validators_by_key c) k \<and> om_contains (inactive_validators_by_key c) k)"
    "get_validator k c = Some v \<Longrightarrow> va_validator_key v = k \<and> om_total val (va_stakes v) \<le> val (va_balance v)"
proof -
  note d = sc_wfD [OF assms]
  show "set (active_validators_sorted c) = snd ` set (active_validators_by_key c)"
  proof (rule set_eqI)
    fix v
    have "v \<in> snd ` set (active_validators_by_key c) \<longleftrightarrow> (\<exists>k. om_get (active_validators_by_key c) k = Some v)"
      using vals_wfD(2) [OF d(1)] by (force simp: om_get_in_set)
    then show "v \<in> set (active_validators_sorted c) \<longleftrightarrow> v \<in> snd ` set (active_validators_by_key c)"
      using consistentD(4) [OF vals_wfD(1) [OF d(1)], of v] keyedD [OF vals_wfD(4) [OF d(1)], of _ v] by auto
  qed
  show "\<not> (om_contains (active_validators_by_key c) k \<and> om_contains (inactive_validators_by_key c) k)"
    using vals_wfD(6) [OF d(1), of k] by (simp add: om_contains_def)
  show "va_validator_key v = k \<and> om_total val (va_stakes v) \<le> val (va_balance v)" if "get_validator k c = Some v"
    using that vals_wf_key [OF d(1)] validators_okD [OF d(2)] by (auto simp: get_validator_lookup validator_ok_def)
qed

text \<open>C1: Take any run of incoming transactions, outgoing transactions and inherents that are all committed, from the empty contract on,
  in which every stake and every transaction of the contract to itself is worth something (the static verification sees to that) and no validator changes its key to the
  key of another validator (nothing in the code sees to that).  In the contract it leads to, the balance is the sum of the balances of all
  validators, active and inactive, and of all inactive stakes; the ordered set of active validators holds exactly the active
  validators; no key is both active and inactive; every validator is stored under its key, and the stakes in a validator never exceed
  its balance.\<close>

theorem staking_invariant:
  assumes "blake2b_ok cr" "staking_run cr es staking_contract_default = Some c" "run_allowed cr es staking_contract_default"
  shows "val (sc_balance c) =
      om_total (\<lambda>v. val (va_balance v)) (active_validators_by_key c) +
      om_total (\<lambda>iv. val (va_balance (iv_validator iv))) (inactive_validators_by_key c) +
      om_total (\<lambda>i. val (is_balance i)) (inactive_stake_by_address c) \<and>
    val (sc_balance c) \<le> max_safe \<and>
    set (active_validators_sorted c) = snd ` set (active_validators_by_key c) \<and>
    (\<forall>k. \<not> (om_contains (active_validators_by_key c) k \<and> om_contains (inactive_validators_by_key c) k)) \<and>
    (\<forall>k v. get_validator k c = Some v \<longrightarrow> va_validator_key v = k \<and> om_total val (va_stakes v) \<le> val (va_balance v))"
proof -
  note wf = staking_run_wf [OF assms(1) sc_wf_default assms(2,3)]
  then show ?thesis
    using sc_wfD(6,7) [OF wf] sc_wf_meaning [OF wf] by (simp add: vtotal_def)
qed

definition example_key :: "u8 \<Rightarrow> bls_public_key" where
  "example_key n = replicate 285 n"

definition example_incoming :: "bytes \<Rightarrow> u64 \<Rightarrow> transaction" where
  "example_incoming d v =
    (new_basic (replicate 20 1) (replicate 20 9) (Coin v) (Coin 0) 1 Dummy)\<lparr>tx_data := d, tx_recipient_type := AT_Staking\<rparr>"

definition example_create :: transaction where
  "example_create = example_incoming (0 # example_key 7 @ replicate 95 0 @ replicate 20 3) 1000"

definition example_stake :: transaction where
  "example_stake = example_incoming (5 # example_key 7 @ [0]) 50"

definition example_created :: staking_contract where
  "example_created =
    (let v = \<lparr>va_balance = Coin 1000, va_reward_address = replicate 20 3, va_validator_key = example_key 7, va_stakes = []\<rparr> in
     staking_contract_default\<lparr>sc_balance := Coin 1000, active_validators_sorted := [v], active_validators_by_key := [(example_key 7, v)]\<rparr>)"

definition example_contract :: staking_contract where
  "example_contract =
    (let v = \<lparr>va_balance = Coin 1050, va_reward_address = replicate 20 3, va_validator_key = example_key 7, va_stakes = [(replicate 20 1, Coin 50)]\<rparr> in
     staking_contract_default\<lparr>sc_balance := Coin 1050, active_validators_sorted := [v], active_validators_by_key := [(example_key 7, v)]\<rparr>)"

lemma example_key_length [simp]: "length (example_key n) = 285"
  by (simp add: example_key_def)

lemma example_blake2b: "blake2b_ok example_crypto"
  by (auto simp: blake2b_ok_def example_crypto_def)

lemma example_parse:
  "parse_incoming example_create = Inr (CreateValidator (example_key 7) (replicate 95 0) (replicate 20 3))"
  "parse_incoming example_stake = Inr (Stake (example_key 7) None)"
proof -
  have ok: "incoming_ok (CreateValidator (example_key 7) (replicate 95 0) (replicate 20 3))" "incoming_ok (Stake (example_key 7) None)"
    by (simp_all add: example_key_def bls_key_ok_def bls_sig_ok_def address_ok_def)
  show "parse_incoming example_create = Inr (CreateValidator (example_key 7) (replicate 95 0) (replicate 20 3))"
    using full_parse_encoded [OF incoming.encoded [OF ok(1)]]
    by (simp add: parse_incoming_def example_create_def example_incoming_def ser_incoming_staking_type_def ser_u8_def ser_bls_key_def ser_bls_sig_def
        ser_address_def ser_array_def wseq_def)
  show "parse_incoming example_stake = Inr (Stake (example_key 7) None)"
    using full_parse_encoded [OF incoming.encoded [OF ok(2)]]
    by (simp add: parse_incoming_def example_stake_def example_incoming_def ser_incoming_staking_type_def ser_u8_def ser_bls_key_def wseq_def)
qed

lemmas staking_eval = stake_def ok_or_entry_def remove_validator_def try_add_stake_def add_stake_def with_balance_def
  om_get_def om_remove_def vset_remove_def validator_cmp_simps

lemma example_commits:
  "staking_commit_incoming example_crypto 1 example_create staking_contract_default = (Inr None, example_created)"
  "staking_commit_incoming example_crypto 2 example_stake example_created = (Inr None, example_contract)"
  "incoming_allowed example_create staking_contract_default" "incoming_allowed example_stake example_created"
proof -
  have tx: "tx_sender example_create = replicate 20 1" "tx_recipient example_create = replicate 20 9" "tx_value example_create = Coin 1000"
    "tx_sender example_stake = replicate 20 1" "tx_recipient example_stake = replicate 20 9" "tx_value example_stake = Coin 50"
    "(replicate 20 1 :: bytes) \<noteq> replicate 20 9"
    by (simp_all add: example_create_def example_stake_def example_incoming_def new_basic_def)
  have add: "balance_add coin_ZERO (Coin 1000) = Inr (Coin 1000)" "balance_add (Coin 1000) (Coin 50) = Inr (Coin 1050)"
    "coin_add coin_ZERO (Coin 50) = Coin 50"
    by code_simp+
  show "staking_commit_incoming example_crypto 1 example_create staking_contract_default = (Inr None, example_created)"
    by (simp add: staking_commit_incoming_def tx example_parse no_receipt_def create_validator_def om_contains_def om_get_def add
        staking_contract_default_def validator_new_def example_created_def Let_def)
  show "staking_commit_incoming example_crypto 2 example_stake example_created = (Inr None, example_contract)"
    by (simp add: staking_commit_incoming_def tx example_parse no_receipt_def staking_eval add staker_of_def example_created_def example_contract_def
        staking_contract_default_def Let_def)
  show "incoming_allowed example_create staking_contract_default" "incoming_allowed example_stake example_created"
    by (simp_all add: incoming_allowed_def tx example_parse address_ok_def)
qed

lemma example_run:
  "staking_run example_crypto [Ev_Incoming 1 example_create, Ev_Incoming 2 example_stake] staking_contract_default = Some example_contract"
  "run_allowed example_crypto [Ev_Incoming 1 example_create, Ev_Incoming 2 example_stake] staking_contract_default"
  by (simp_all add: example_commits)

lemma example_created_wf: "sc_wf example_created"
  using staking_incoming_ok [OF example_blake2b sc_wf_default example_commits(3,1)] by blast

lemma example_wf: "sc_wf example_contract"
  using staking_run_wf [OF example_blake2b sc_wf_default example_run] .

theorem staking_invariant_witness:
  "val (sc_balance example_contract) =
    om_total (\<lambda>v. val (va_balance v)) (active_validators_by_key example_contract) +
    om_total (\<lambda>iv. val (va_balance (iv_validator iv))) (inactive_validators_by_key example_contract) +
    om_total (\<lambda>i. val (is_balance i)) (inactive_stake_by_address example_contract)"
  using staking_invariant [OF example_blake2b example_run] by blast

section \<open>Committing and reverting\<close>

text \<open>C3: In a consistent contract (sc_wf, which allowed runs keep, lemma staking_run_wf), an incoming transaction that is committed, whose stake is not
  empty and whose new key, if it has one, is not that of another validator, adds its value to the contract, or nothing when its data is
  signalling; it leaves the contract consistent and is undone exactly by reverting it with the receipt that was written.\<close>

theorem staking_incoming_reverts:
  assumes "blake2b_ok cr" "sc_wf c" "incoming_allowed tx c" "staking_commit_incoming cr h tx c = (Inr r, c')"
  shows "val (sc_balance c') = val (sc_balance c) + incoming_value tx \<and> sc_wf c' \<and> staking_revert_incoming cr tx r c' = (Inr (), c)"
  using staking_incoming_ok [OF assms] by blast

theorem staking_incoming_reverts_witness:
  "val (sc_balance example_contract) = val (sc_balance example_created) + incoming_value example_stake \<and>
    staking_revert_incoming example_crypto example_stake None example_contract = (Inr (), example_created)"
  using staking_incoming_reverts [OF example_blake2b example_created_wf example_commits(4,2)] by blast

text \<open>C2: Any sequence of outgoing transactions, unstaking and dropping validators included, that is committed one after the other
  from a consistent contract (sc_wf, which allowed runs keep, lemma staking_run_wf) leaves a consistent contract and is undone exactly by reverting the
  receipts from the last to the first.\<close>

theorem staking_outgoing_reverts:
  assumes "sc_wf c" "commit_all (staking_commit_outgoing cr h) txs c = (Inr rs, c')"
  shows "revert_all (staking_revert_outgoing cr) rs c' = (Inr (), c) \<and> sc_wf c'"
proof -
  have "staking_outgoing.all_allowed cr h txs c" for c
    by (induction txs arbitrary: c) auto
  with assms show ?thesis
    using staking_outgoing.revert_all_commit_all staking_outgoing.commit_all_inv by blast
qed

text \<open>C32: A slash inherent that is committed is undone exactly by reverting it, and neither changes what the validators and stakers own.\<close>

theorem staking_slash_reverts:
  assumes "sc_wf c" "inh_ty i = Slash" "staking_commit_inherent h i c = (Inr r, c')"
  shows "staking_revert_inherent h i r c' = (Inr (), c) \<and> sc_wf c' \<and> sc_balance c' = sc_balance c \<and>
    (\<forall>k. get_validator k c' = get_validator k c)"
proof -
  obtain slot x where s: "slash slot h c = (x, c')"
    using commit_slash [OF assms(2,3)] by blast
  have "sc_lookup c' = sc_lookup c"
    by (rule park_frame(2) [OF assms(1) slash_ok(1,3) [OF sc_wfD(4) [OF assms(1)] s]])
  then show ?thesis
    using staking_slash_undo [OF assms] slash_wf [OF assms(1) s] by (simp add: get_validator_lookup)
qed

section \<open>Failures\<close>

lemma serialize_no_Err: "serialize_to_vec w \<noteq> Inl (Err e)"
  by (cases w) (simp_all add: serialize_to_vec_def)

lemma receipt_Err:
  "no_receipt p = (Inl e, c') \<longleftrightarrow> p = (Inl e, c')"
  "with_receipt s q = (Inl (Err e'), c') \<Longrightarrow> q = (Inl (Err e'), c')"
  "optional_receipt s o' = (Inl (Err e'), c') \<Longrightarrow> o' = (Inl (Err e'), c')"
  by (auto simp: no_receipt_def with_receipt_def optional_receipt_def sbind_eq_Inl rbind_eq_Inl serialize_no_Err split: option.splits)

lemma incoming_data_Err:
  assumes "sc_wf c" "commit_incoming_data h tx d c = (Inl (Err e), c')"
  shows "c' = c"
proof -
  note d = sc_wfD [OF assms(1)]
  show ?thesis
  proof (cases d)
    case (UnparkValidator k s)
    then have "with_receipt ser_unpark_receipt (unpark_validator k c) = (Inl (Err e), c')"
      using assms(2) by simp
    from unpark_validator_Inl [OF d(4) receipt_Err(2) [OF this]] show ?thesis ..
  next
    case (Stake k a)
    with assms(2) show ?thesis
      by (auto simp: receipt_Err(1) stake_changes [OF d(1)] dest: change_validator_Inl)
  next
    case (CreateValidator k p a)
    with assms(2) have "create_validator k a (tx_value tx) c = (Inl (Err e), c')"
      by (simp add: receipt_Err(1))
    then show ?thesis
      by (auto simp: create_validator_eq sbind_eq_Inl split: if_splits)
  next
    case (UpdateValidator k k' p a s)
    with assms(2) have "with_receipt ser_update_validator_receipt (update_validator k k' a c) = (Inl (Err e), c')"
      by simp
    from receipt_Err(2) [OF this] show ?thesis
      by (auto simp: update_validator_eq split: option.splits)
  next
    case (RetireValidator k s)
    with assms(2) have "retire_validator k h c = (Inl (Err e), c')"
      by (simp add: receipt_Err(1))
    then show ?thesis
      by (auto simp: retire_validator_eq [OF d(1)] split: option.splits)
  next
    case (ReactivateValidator k s)
    with assms(2) have "with_receipt ser_inactive_validator_receipt (reactivate_validator k c) = (Inl (Err e), c')"
      by simp
    from receipt_Err(2) [OF this] show ?thesis
      by (auto simp: reactivate_validator_eq [OF d(1)] split: option.splits)
  qed
qed

lemma staking_incoming_Err: "sc_wf c \<Longrightarrow> staking_commit_incoming cr h tx c = (Inl (Err e), c') \<Longrightarrow> c' = c"
proof -
  assume wf: "sc_wf c" and eq: "staking_commit_incoming cr h tx c = (Inl (Err e), c')"
  have "c' = c" if "commit_incoming_self h tx a d c = (Inl (Err e), c')" for a d
    using that retire_recipient_Inl [OF wf] by (cases d)
      (auto simp: receipt_Err(1) reactivate_recipient_def stake_changes [OF sc_wfD(1) [OF wf]] dest!: receipt_Err(3) dest: change_validator_Inl)
  then show ?thesis
    using eq incoming_data_Err [OF wf] by (auto simp: staking_commit_incoming_def sbind_eq_Inl split: if_splits)
qed

lemma outgoing_proof_Err:
  assumes "sc_wf c" "check_outgoing_proof cr h tx p c = Inr ()" "commit_outgoing_proof cr tx p c = (Inl (Err e), c')"
  shows "c' = c"
proof (cases p)
  case (DropValidator k s)
  obtain iv t where iv: "om_get (inactive_validators_by_key c) k = Some iv" and t: "tx_total tx = Inr t"
    using assms(2) DropValidator by (auto simp: rbind_eq_Inr Let_def split: if_splits option.splits)
  then have "with_receipt ser_drop_validator_receipt (drop_validator k t c) = (Inl (Err e), c')"
    using assms(3) DropValidator by simp
  from receipt_Err(2) [OF this] drop_validator_eq [OF assms(1) iv refl, of t] show ?thesis
    by auto
next
  case (Unstake sp)
  obtain i t where i: "om_get (inactive_stake_by_address c) (compute_signer cr sp) = Some i" and t: "tx_total tx = Inr t" and le: "val t \<le> val (is_balance i)"
    using assms(2) Unstake by (auto simp: rbind_eq_Inr balance_sufficient_Inr split: if_splits option.splits)
  note d = sc_wfD [OF assms(1)]
  note pre = inactive_wfD(1) [OF d(3)] i le inactive_le [OF assms(1) i] d(7)
  have "optional_receipt ser_inactive_stake_receipt (reactivate_sender (compute_signer cr sp) t None c) = (Inl (Err e), c')"
    using assms(3) Unstake t unstake_eq [OF pre] by simp
  from receipt_Err(3) [OF this] reactivate_sender_eq [OF pre, of None] show ?thesis
    by simp
qed

lemma outgoing_self_Err:
  assumes "sc_wf c" "check_outgoing_self tx a d c = Inr ()" "commit_outgoing_self tx a d c = (Inl (Err e), c')"
  shows "c' = c"
proof (cases d)
  case (RetireStake k)
  with assms(3) show ?thesis
    by (auto simp: receipt_Err(1) sbind_eq_Inl unstake_changes [OF assms(1)] dest: change_validator_Inl)
next
  case (ReactivateStake k)
  obtain i t where i: "om_get (inactive_stake_by_address c) a = Some i" and t: "tx_total tx = Inr t" and le: "val t \<le> val (is_balance i)"
    using assms(2) ReactivateStake by (auto simp: rbind_eq_Inr balance_sufficient_Inr split: option.splits)
  note d = sc_wfD [OF assms(1)]
  note pre = inactive_wfD(1) [OF d(3)] i le inactive_le [OF assms(1) i] d(7)
  have "optional_receipt ser_inactive_stake_receipt (reactivate_sender a t None c) = (Inl (Err e), c')"
    using assms(3) ReactivateStake t by simp
  from receipt_Err(3) [OF this] reactivate_sender_eq [OF pre, of None] show ?thesis
    by simp
qed

text \<open>C34: A transaction or inherent that the contract refuses with an error leaves the contract as it was.\<close>

theorem staking_refusal_unchanged:
  assumes "sc_wf c"
    and "staking_commit_incoming cr h tx c = (Inl (Err e), c') \<or> staking_commit_outgoing cr h tx c = (Inl (Err e), c') \<or>
      staking_commit_inherent h i c = (Inl (Err e), c')"
  shows "c' = c"
  using assms(2)
proof (elim disjE)
  assume "staking_commit_outgoing cr h tx c = (Inl (Err e), c')"
  then show ?thesis
    using outgoing_proof_Err [OF assms(1)] outgoing_self_Err [OF assms(1)]
    by (auto simp: staking_commit_outgoing_def staking_check_outgoing_def sbind_eq_Inl rbind_eq_Inr split: if_splits)
next
  assume inh: "staking_commit_inherent h i c = (Inl (Err e), c')"
  have slash: "(case p of (r, c1) \<Rightarrow> with_receipt ser_slash_receipt (Inr r, c1)) \<noteq> (Inl (Err e), c')" for p
    by (cases p) (auto dest: receipt_Err(2))
  obtain c1 where "finalize_epoch h c = (Inr (), c1)"
    using finalize_epoch_facts [OF assms(1), of h] by blast
  with inh slash show ?thesis
    by (cases "inh_ty i") (auto simp: staking_commit_inherent_def sbind_eq_Inl receipt_Err(1))
qed (use staking_incoming_Err [OF assms(1)] in blast)

section \<open>Withdrawals\<close>

lemma dropped_stakes:
  assumes "sc_wf c" "om_get (inactive_validators_by_key c) k = Some iv" "drop_validator k t c = (Inr receipt, c')"
    and "om_get (va_stakes (iv_validator iv)) a = Some s"
  shows "\<exists>i. om_get (inactive_stake_by_address c') a = Some i \<and> is_retire_time i = iv_retire_time iv \<and>
    val (is_balance i) = val s + (case om_get (inactive_stake_by_address c) a of None \<Rightarrow> 0 | Some old \<Rightarrow> val (is_balance old))"
proof -
  define v where "v = iv_validator iv"
  note d = sc_wfD [OF assms(1)] and f = inactive_validator_facts [OF assms(1,2), folded v_def]
  have get: "om_get (inactive_stake_by_address c') a = Some (joined s (Some (iv_retire_time iv)) (om_get (inactive_stake_by_address c) a))"
    using drop_validator_eq [OF assms(1,2) v_def, of t] assms(3,4) by (auto simp: after_retirement_def om_get_def v_def)
  have "val (is_balance old) + val s < 2 ^ 64" if "om_get (inactive_stake_by_address c) a = Some old" for old
  proof -
    have "val s \<le> val (va_balance v)"
      using f(3) om.total_ge [of "va_stakes v" a s val] assms(4) stakes_wfD(1) by (fastforce simp: validator_ok_def v_def)
    then show ?thesis
      using f(4) d(7) inactive_le [OF assms(1) that] by simp
  qed
  then show ?thesis
    by (auto simp: get joined_def val_coin_add split: option.splits)
qed

lemma drop_removes:
  assumes "sc_wf c" "om_get (inactive_validators_by_key c) k = Some iv" "drop_validator k t c = (Inr receipt, c')"
  shows "get_validator k c' = None"
proof -
  obtain b m where "c' = unparked k ((sc_del k c)\<lparr>sc_balance := b, inactive_stake_by_address := m\<rparr>)"
    using drop_validator_eq [OF assms(1,2) refl, of t] assms(3) by auto
  then have "sc_lookup c' k = sc_lookup (sc_del k c) k"
    by (simp add: unparked_def)
  then show ?thesis
    using sc_wfD(1) [OF assms(1)] by (simp add: get_validator_lookup lookup_del)
qed

text \<open>C4: A transaction that pays coins of a consistent contract to another account is committed only after the election block that
  follows the retirement time recorded with them.  Either the signer of the proof withdraws at most the inactive stake recorded for
  them; or an inactive validator is dropped and pays out exactly what is not staked with it, every stake becomes an inactive stake of
  its staker, and all of that staker's inactive stake takes the retirement time of the validator, be it earlier than its own.
  Transactions of the contract to itself, whose fee leaves it, are not meant.\<close>

theorem staking_withdrawal_delay:
  assumes "sc_wf c" "tx_sender tx \<noteq> tx_recipient tx" "staking_commit_outgoing cr h tx c = (Inr r, c')"
  shows "(\<exists>sp i. read_data (deser_outgoing_staking_proof cr) (tx_proof tx) = Inr (Unstake sp) \<and>
      om_get (inactive_stake_by_address c) (compute_signer cr sp) = Some i \<and> election_block_after (is_retire_time i) \<le> h \<and>
      val (tx_value tx) + val (tx_fee tx) \<le> val (is_balance i)) \<or>
    (\<exists>k s iv. read_data (deser_outgoing_staking_proof cr) (tx_proof tx) = Inr (DropValidator k s) \<and>
      om_get (inactive_validators_by_key c) k = Some iv \<and> election_block_after (iv_retire_time iv) \<le> h \<and> get_validator k c' = None \<and>
      val (tx_value tx) + val (tx_fee tx) + om_total val (va_stakes (iv_validator iv)) = val (va_balance (iv_validator iv)) \<and>
      (\<forall>a s. om_get (va_stakes (iv_validator iv)) a = Some s \<longrightarrow>
        (\<exists>i. om_get (inactive_stake_by_address c') a = Some i \<and> is_retire_time i = iv_retire_time iv \<and>
          val (is_balance i) = val s + (case om_get (inactive_stake_by_address c) a of None \<Rightarrow> 0 | Some old \<Rightarrow> val (is_balance old)))))"
proof -
  obtain p where p: "read_data (deser_outgoing_staking_proof cr) (tx_proof tx) = Inr p" "check_outgoing_proof cr h tx p c = Inr ()"
      "commit_outgoing_proof cr tx p c = (Inr r, c')"
    using assms(2,3) by (auto simp: staking_commit_outgoing_def staking_check_outgoing_def sbind_eq_Inr rbind_eq_Inr)
  show ?thesis
  proof (cases p)
    case (Unstake sp)
    with p show ?thesis
      by (fastforce simp: rbind_eq_Inr balance_sufficient_Inr tx_total_Inr split: if_splits option.splits)
  next
    case (DropValidator k s)
    obtain iv t where iv: "om_get (inactive_validators_by_key c) k = Some iv" "election_block_after (iv_retire_time iv) \<le> h" and t: "tx_total tx = Inr t"
      and sub: "coin_sub (va_balance (iv_validator iv)) (staker_stake (iv_validator iv)) = t"
      using p(2) DropValidator by (auto simp: rbind_eq_Inr Let_def split: if_splits option.splits)
    obtain receipt where drop: "drop_validator k t c = (Inr receipt, c')"
      using p(3) DropValidator t by (auto simp: with_receipt_Inr)
    have ok: "validator_ok (iv_validator iv)"
      using inactive_validator_facts(3) [OF assms(1) iv(1)] .
    have "val t + om_total val (va_stakes (iv_validator iv)) = val (va_balance (iv_validator iv))"
      using staker_stake_total(2) [OF ok] sub ok by (simp add: validator_ok_def)
    with p(1) DropValidator iv tx_total_Inr [THEN iffD1, OF t] drop_removes [OF assms(1) iv(1) drop] dropped_stakes [OF assms(1) iv(1) drop]
    show ?thesis by auto
  qed
qed

section \<open>The end of an epoch\<close>

lemma of_lookup:
  assumes "vals_wf c"
  shows "om_get (active_validators_by_key c) k = (case sc_lookup c k of Some (v, None) \<Rightarrow> Some v | _ \<Rightarrow> None)"
    "om_get (inactive_validators_by_key c) k =
      (case sc_lookup c k of Some (v, Some t) \<Rightarrow> Some \<lparr>iv_validator = v, iv_retire_time = t\<rparr> | _ \<Rightarrow> None)"
  using vals_wfD(6) [OF assms, of k] by (auto simp: sc_lookup_def split: option.split)

text \<open>C33: Finalizing an epoch never fails: it shifts the parking lists, the disabled slots and the lost rewards, and retires exactly those
  active validators that were parked in the epoch before the one that ends, at the height of the block; the coins stay where they are.\<close>

theorem staking_finalize_epoch:
  assumes "sc_wf c" "inh_ty i = FinalizeEpoch" "inh_value i = coin_ZERO" "inh_data i = []"
  shows "\<exists>c'. staking_commit_inherent h i c = (Inr None, c') \<and> sc_balance c' = sc_balance c \<and>
    current_epoch_parking c' = [] \<and> previous_epoch_parking c' = current_epoch_parking c \<and>
    current_disabled_slots c' = [] \<and> previous_disabled_slots c' = current_disabled_slots c \<and>
    current_lost_rewards c' = bitset_new \<and> previous_lost_rewards c' = current_lost_rewards c \<and>
    inactive_stake_by_address c' = inactive_stake_by_address c \<and>
    (\<forall>k. om_get (active_validators_by_key c') k = (if k \<in> set (previous_epoch_parking c) then None else om_get (active_validators_by_key c) k)) \<and>
    (\<forall>k. om_get (inactive_validators_by_key c') k =
      (case om_get (active_validators_by_key c) k of
         Some v \<Rightarrow> if k \<in> set (previous_epoch_parking c) then Some \<lparr>iv_validator = v, iv_retire_time = h\<rparr> else None
       | None \<Rightarrow> om_get (inactive_validators_by_key c) k))"
proof -
  note d = sc_wfD [OF assms(1)]
  obtain c' where c': "finalize_epoch h c = (Inr (), c')" "sc_wf c'" "same_rest (epoch_shifted c) c'"
      "\<And>k. sc_lookup c' k = after_parking (set (previous_epoch_parking c)) h c k"
    using finalize_epoch_facts [OF assms(1), of h] by blast
  note d' = sc_wfD(1) [OF c'(2)]
  have active: "om_get (active_validators_by_key c') k = (if k \<in> set (previous_epoch_parking c) then None else om_get (active_validators_by_key c) k)" for k
    by (simp add: of_lookup [OF d'] of_lookup [OF d(1)] c'(4) after_parking_def split: option.split)
  have inactive: "om_get (inactive_validators_by_key c') k =
      (case om_get (active_validators_by_key c) k of
         Some v \<Rightarrow> if k \<in> set (previous_epoch_parking c) then Some \<lparr>iv_validator = v, iv_retire_time = h\<rparr> else None
       | None \<Rightarrow> om_get (inactive_validators_by_key c) k)" for k
    by (simp add: of_lookup [OF d'] of_lookup [OF d(1)] c'(4) after_parking_def split: option.split)
  show ?thesis
    using c'(1,3) active inactive assms(2-4)
    by (intro exI [of _ c']) (simp add: staking_commit_inherent_def staking_check_inherent_def no_receipt_def same_rest_def epoch_shifted_def finalize_batch_def)
qed

section \<open>Updating the key of a validator\<close>

text \<open>C36: Nothing checks that the new key of an update is free.  When it belongs to another active validator, that validator is
  overwritten, and its balance stays in the contract without an owner.\<close>

theorem update_to_existing_key_loses_validator:
  assumes "sc_wf c" "om_get (active_validators_by_key c) k = Some v" "om_get (active_validators_by_key c) k' = Some v'" "k \<noteq> k'"
    and "update_validator k (Some k') a c = (Inr receipt, c')"
  shows "om_get (active_validators_by_key c') k' = Some (va_update_validator a (Some k') v) \<and>
    val (sc_balance c') =
      om_total (\<lambda>v. val (va_balance v)) (active_validators_by_key c') +
      om_total (\<lambda>iv. val (va_balance (iv_validator iv))) (inactive_validators_by_key c') +
      om_total (\<lambda>i. val (is_balance i)) (inactive_stake_by_address c') + val (va_balance v')"
proof -
  note d = sc_wfD [OF assms(1)] and inv = vals_wfD(2) [OF sc_wfD(1) [OF assms(1)]]
  let ?f = "\<lambda>v. val (va_balance v)" and ?m = "active_validators_by_key c" and ?w = "va_update_validator a (Some k') v"
  have lookup: "sc_lookup c k = Some (v, None)"
    using vals_wf_active [OF d(1)] assms(2) by simp
  have c': "c' = sc_put ?w None (sc_del k c)" "va_validator_key ?w = k'" "va_balance ?w = va_balance v"
    using assms(5) lookup by (simp_all add: update_validator_eq va_update_validator_def)
  have active: "active_validators_by_key c' = om_insert k' ?w (om_remove k ?m)" and inactive: "inactive_validators_by_key c' = inactive_validators_by_key c"
    using assms(2) c'(2) by (simp_all add: c'(1) sc_put_def sc_del_def remove_validator_def)
  have "om_get (om_remove k ?m) k' = Some v'" "om_inv (om_remove k ?m)"
    using assms(3,4) inv by simp_all
  then have "om_total ?f (om_insert k' ?w (om_remove k ?m)) + ?f v' = om_total ?f ?m"
    using om.total_ins_present [of "om_remove k ?m" k' v' ?f ?w] om.total_rem [OF inv assms(2), of ?f] c'(3) by simp
  then show ?thesis
    using d(6) active inactive by (simp add: vtotal_def) (simp add: c'(1))
qed

text \<open>C35: The parking lists hold keys and are not changed by an update.  A parked validator that changes its key in time stays active at
  the end of the epoch, which would have retired it.\<close>

theorem parked_validator_escapes:
  assumes "sc_wf c" "om_get (active_validators_by_key c) k = Some v" "k \<in> set (previous_epoch_parking c)"
    and "get_validator k' c = None" "k' \<notin> set (previous_epoch_parking c)" "bls_key_ok k'"
    and "update_validator k (Some k') None c = (Inr receipt, c1)" "finalize_epoch h c1 = (r, c2)" "finalize_epoch h c = (r', c3)"
  shows "om_get (active_validators_by_key c2) k' = Some (v\<lparr>va_validator_key := k'\<rparr>) \<and>
    om_get (active_validators_by_key c3) k = None \<and> om_get (inactive_validators_by_key c3) k = Some \<lparr>iv_validator = v, iv_retire_time = h\<rparr>"
proof -
  note d = sc_wfD(1) [OF assms(1)]
  let ?w = "va_update_validator None (Some k') v"
  have lookup: "sc_lookup c k = Some (v, None)" "sc_lookup c k' = None"
    using vals_wf_active [OF d] assms(2,4) by (simp_all add: get_validator_lookup)
  have wf1: "sc_wf c1"
    by (rule update_validator_ok(1) [OF assms(1,7)]) (use assms(4,6) in \<open>simp_all add: key_free_def\<close>)
  have w: "?w = v\<lparr>va_validator_key := k'\<rparr>"
    by (simp add: va_update_validator_def)
  have c1: "c1 = sc_put ?w None (sc_del k c)"
    using assms(7) lookup by (simp add: update_validator_eq)
  have l1: "sc_lookup c1 k' = Some (?w, None)" and p1: "previous_epoch_parking c1 = previous_epoch_parking c"
    using lookup d by (simp_all add: c1 lookup_put lookup_del w)
  have "sc_lookup c2 k' = Some (?w, None)" "sc_wf c2"
    using finalize_epoch_facts [OF wf1, of h] assms(5,8) l1 p1 by (auto simp: after_parking_def)
  moreover have "sc_lookup c3 k = Some (v, Some h)" "sc_wf c3"
    using finalize_epoch_facts [OF assms(1), of h] assms(3,9) lookup by (auto simp: after_parking_def)
  ultimately show ?thesis
    using w by (simp add: of_lookup [OF sc_wfD(1)])
qed

section \<open>Examples\<close>

definition example_unstakable :: staking_contract where
  "example_unstakable =
    staking_contract_default\<lparr>sc_balance := Coin 50, inactive_stake_by_address := [(replicate 20 1, \<lparr>is_balance = Coin 50, is_retire_time = 5\<rparr>)]\<rparr>"

definition example_unstake :: transaction where
  "example_unstake = (new_basic (replicate 20 9) (replicate 20 1) (Coin 5) (Coin 1) 1 Dummy)\<lparr>tx_proof := 5 # example_proof\<rparr>"

lemma example_unstakable_wf: "sc_wf example_unstakable"
proof -
  have "retire_recipient (replicate 20 1) (Coin 50) (Some 5) staking_contract_default = (Inr None, example_unstakable)"
    by code_simp
  from retire_recipient_wf(1) [OF sc_wf_default this] show ?thesis
    by (simp add: address_ok_def)
qed

lemma example_unstakes:
  "staking_commit_outgoing example_crypto 200 example_unstake example_unstakable =
    (Inr None, example_unstakable\<lparr>sc_balance := Coin 44, inactive_stake_by_address := [(replicate 20 1, \<lparr>is_balance = Coin 44, is_retire_time = 5\<rparr>)]\<rparr>)"
  "staking_commit_outgoing example_crypto 100 example_unstake example_unstakable = (Inl (Err AE_InvalidForSender), example_unstakable)"
  by code_simp+

theorem staking_outgoing_reverts_witness:
  "revert_all (staking_revert_outgoing example_crypto) [(example_unstake, None)]
    (example_unstakable\<lparr>sc_balance := Coin 44, inactive_stake_by_address := [(replicate 20 1, \<lparr>is_balance = Coin 44, is_retire_time = 5\<rparr>)]\<rparr>) =
    (Inr (), example_unstakable)"
  using staking_outgoing_reverts [OF example_unstakable_wf, of example_crypto 200 "[example_unstake]"] example_unstakes(1) by simp

theorem staking_refusal_unchanged_witness:
  "snd (staking_commit_outgoing example_crypto 100 example_unstake example_unstakable) = example_unstakable"
  using staking_refusal_unchanged [OF example_unstakable_wf, of example_crypto 100 example_unstake AE_InvalidForSender] example_unstakes(2) by simp

theorem staking_withdrawal_delay_witness:
  "\<exists>i. om_get (inactive_stake_by_address example_unstakable) (replicate 20 1) = Some i \<and> election_block_after (is_retire_time i) \<le> 200 \<and>
    val (tx_value example_unstake) + val (tx_fee example_unstake) \<le> val (is_balance i)"
proof -
  have ne: "tx_sender example_unstake \<noteq> tx_recipient example_unstake"
    by (simp add: example_unstake_def new_basic_def)
  have proof_bytes: "\<exists>sp. read_data (deser_outgoing_staking_proof example_crypto) (tx_proof example_unstake) = Inr (Unstake sp) \<and>
      compute_signer example_crypto sp = replicate 20 1"
    by (rule exI [of _ "\<lparr>sp_public_key = replicate 32 1, sp_merkle_path = [], sp_signature = replicate 64 1\<rparr>"]) code_simp
  from staking_withdrawal_delay [OF example_unstakable_wf ne example_unstakes(1)] show ?thesis
    using proof_bytes by auto
qed

definition example_slash :: inherent where
  "example_slash = \<lparr>inh_ty = Slash, inh_target = replicate 20 9, inh_value = coin_ZERO, inh_data = [0, 5] @ example_key 7 @ [0, 0, 0, 1]\<rparr>"

interpretation slashed_slot: codec ser_slashed_slot deser_slashed_slot "\<lambda>_. 2 + (285 + (4 + 0))" "\<lambda>s. bls_key_ok (ss_validator_key s)"
  unfolding codec_def ser_slashed_slot_def deser_slashed_slot_def by (intro allI impI encodes_fields) (simp_all add: encodes_ret_eq)

lemma example_slashed: "fst (staking_commit_inherent 3 example_slash example_contract) = Inr (Some [1, 1, 1])"
proof -
  let ?slot = "\<lparr>ss_slot = 5, ss_validator_key = example_key 7, ss_event_block = 1\<rparr>"
  have ser: "ser_u16 5 = Inr [0, 5]" "ser_u32 1 = Inr [0, 0, 0, 1]"
    by code_simp+
  have "bls_key_ok (ss_validator_key ?slot)"
    by (simp add: bls_key_ok_def)
  from read_data_encoded [OF slashed_slot.encoded [OF this]]
  have read: "read_data deser_slashed_slot (inh_data example_slash) = Inr ?slot"
    by (simp add: example_slash_def ser_slashed_slot_def ser ser_bls_key_def wseq_def)
  have blocks: "epoch_at 1 = 1" "epoch_at 3 = 1" "batch_at 1 = 1" "batch_at 3 = 1" "\<not> bitset_contains bitset_new 5"
    by code_simp+
  show ?thesis
    using read by (simp add: staking_commit_inherent_def staking_check_inherent_def slash_def example_contract_def example_slash_def
        staking_contract_default_def om_contains_def om_get_def blocks Let_def disable_slot_def with_receipt_def ser_slash_receipt_def
        ser_bool_def ser_u8_def wseq_def serialize_to_vec_def)
qed

theorem staking_slash_reverts_witness:
  "staking_revert_inherent 3 example_slash (Some [1, 1, 1]) (snd (staking_commit_inherent 3 example_slash example_contract)) = (Inr (), example_contract)"
proof -
  have "inh_ty example_slash = Slash"
    by (simp add: example_slash_def)
  from staking_slash_reverts [OF example_wf this, of 3 "Some [1, 1, 1]"] example_slashed show ?thesis
    by (metis prod.collapse)
qed

definition example_parked :: staking_contract where
  "example_parked = example_contract\<lparr>previous_epoch_parking := [example_key 7]\<rparr>"

lemma example_parked_wf: "sc_wf example_parked"
  using example_wf by (simp add: sc_wf_def example_parked_def park_wf_def os_inv_def)

theorem staking_finalize_epoch_witness:
  "om_get (active_validators_by_key (snd (staking_commit_inherent 128 \<lparr>inh_ty = FinalizeEpoch, inh_target = replicate 20 9, inh_value = coin_ZERO,
    inh_data = []\<rparr> example_parked))) (example_key 7) = None"
  using staking_finalize_epoch [OF example_parked_wf, of "\<lparr>inh_ty = FinalizeEpoch, inh_target = replicate 20 9, inh_value = coin_ZERO, inh_data = []\<rparr>" 128]
  by (auto simp: example_parked_def)

definition example_two :: staking_contract where
  "example_two =
    (let v = \<lparr>va_balance = Coin 1000, va_reward_address = replicate 20 3, va_validator_key = example_key 7, va_stakes = []\<rparr>;
       w = \<lparr>va_balance = Coin 500, va_reward_address = replicate 20 4, va_validator_key = example_key 8, va_stakes = []\<rparr> in
     staking_contract_default\<lparr>sc_balance := Coin 1500, active_validators_sorted := [v, w],
       active_validators_by_key := [(example_key 7, v), (example_key 8, w)]\<rparr>)"

lemma example_key_order: "example_key 7 < example_key 8" "example_key 7 \<noteq> example_key 8" "example_key 8 \<noteq> example_key 7"
  "\<not> example_key 8 < example_key 7"
proof -
  have k: "example_key n = n # replicate 284 n" for n
    unfolding example_key_def by (simp only: replicate_Suc [symmetric] eval_nat_numeral)
  have cons: "a < b \<Longrightarrow> a # xs < b # ys" for a b :: u8 and xs ys
    by simp
  show "example_key 7 < example_key 8"
    unfolding k by (rule cons) code_simp
  then show "example_key 7 \<noteq> example_key 8" "example_key 8 \<noteq> example_key 7" "\<not> example_key 8 < example_key 7"
    by auto
qed

lemma example_two_wf: "sc_wf example_two"
proof -
  have add: "balance_add (Coin 1000) (Coin 500) = Inr (Coin 1500)" "Coin 500 < Coin 1000" "\<not> Coin 1000 < Coin 500"
    by code_simp+
  have create: "create_validator (example_key 8) (replicate 20 4) (Coin 500) example_created = (Inr (), example_two)"
    using example_key_order
    by (simp add: create_validator_def example_created_def example_two_def Let_def om_contains_def om_get_def staking_contract_default_def add
        validator_new_def validator_cmp_def ord_cmp_def then_with_def)
  from create_validator_ok(1) [OF example_created_wf create] show ?thesis
    by (simp add: address_ok_def bls_key_ok_def)
qed

theorem update_to_existing_key_loses_validator_witness:
  "let c' = snd (update_validator (example_key 7) (Some (example_key 8)) None example_two) in
    val (sc_balance c') =
      om_total (\<lambda>v. val (va_balance v)) (active_validators_by_key c') +
      om_total (\<lambda>iv. val (va_balance (iv_validator iv))) (inactive_validators_by_key c') +
      om_total (\<lambda>i. val (is_balance i)) (inactive_stake_by_address c') + 500"
proof -
  let ?r = "update_validator (example_key 7) (Some (example_key 8)) None example_two"
  have get: "om_get (active_validators_by_key example_two) (example_key 7) =
      Some \<lparr>va_balance = Coin 1000, va_reward_address = replicate 20 3, va_validator_key = example_key 7, va_stakes = []\<rparr>"
    "om_get (active_validators_by_key example_two) (example_key 8) =
      Some \<lparr>va_balance = Coin 500, va_reward_address = replicate 20 4, va_validator_key = example_key 8, va_stakes = []\<rparr>"
    using example_key_order by (simp_all add: example_two_def om_get_def Let_def)
  have "\<exists>receipt. ?r = (Inr receipt, snd ?r)"
    using get(1) by (simp add: update_validator_eq sc_lookup_def)
  then show ?thesis
    using update_to_existing_key_loses_validator [OF example_two_wf get example_key_order(2), of None] by (auto simp: Let_def)
qed

theorem parked_validator_escapes_witness:
  "om_get (active_validators_by_key (snd (finalize_epoch 128 (snd (update_validator (example_key 7) (Some (example_key 8)) None example_parked)))))
    (example_key 8) \<noteq> None \<and>
   om_get (active_validators_by_key (snd (finalize_epoch 128 example_parked))) (example_key 7) = None"
proof -
  let ?r = "update_validator (example_key 7) (Some (example_key 8)) None example_parked"
  obtain v where get: "om_get (active_validators_by_key example_parked) (example_key 7) = Some v"
    by (simp add: example_parked_def example_contract_def om_get_def Let_def)
  have "\<exists>receipt. ?r = (Inr receipt, snd ?r)"
    using get by (simp add: update_validator_eq sc_lookup_def)
  then obtain receipt where r: "?r = (Inr receipt, snd ?r)" by blast
  have "get_validator (example_key 8) example_parked = None"
    using example_key_order by (simp add: example_parked_def example_contract_def get_validator_def om_get_def Let_def staking_contract_default_def)
  from parked_validator_escapes [OF example_parked_wf get _ this _ _ r surjective_pairing surjective_pairing, of 128] show ?thesis
    using example_key_order by (simp add: example_parked_def bls_key_ok_def)
qed

end
