(* ===== verification/Rust_String.thy ===== *)
theory Rust_String
  imports Beserial
begin

text \<open>
  Rust strings as their UTF-8 bytes: validity as \<open>String::from_utf8\<close> checks it, the character boundaries at which a string may be sliced,
  the codec of \<open>String\<close> (\<open>beserial/src/lib.rs\<close>), and the two functions of the crate \<open>hex\<close> that the sources call, as a parameter with
  what its documentation promises.
\<close>

section \<open>UTF-8\<close>

definition is_continuation :: "u8 \<Rightarrow> bool" where
  "is_continuation b \<longleftrightarrow> 0x80 \<le> b \<and> b \<le> 0xBF"

fun utf8_valid :: "bytes \<Rightarrow> bool" where
  "utf8_valid [] = True"
| "utf8_valid (b # bs) =
    (if b < 0x80 then utf8_valid bs
     else if 0xC2 \<le> b \<and> b \<le> 0xDF then
       (case bs of c # cs \<Rightarrow> is_continuation c \<and> utf8_valid cs | [] \<Rightarrow> False)
     else if 0xE0 \<le> b \<and> b \<le> 0xEF then
       (case bs of c # d # ds \<Rightarrow>
          is_continuation c \<and> is_continuation d \<and> (b = 0xE0 \<longrightarrow> 0xA0 \<le> c) \<and> (b = 0xED \<longrightarrow> c \<le> 0x9F) \<and> utf8_valid ds
        | _ \<Rightarrow> False)
     else if 0xF0 \<le> b \<and> b \<le> 0xF4 then
       (case bs of c # d # e # es \<Rightarrow>
          is_continuation c \<and> is_continuation d \<and> is_continuation e \<and> (b = 0xF0 \<longrightarrow> 0x90 \<le> c) \<and> (b = 0xF4 \<longrightarrow> c \<le> 0x8F) \<and>
          utf8_valid es
        | _ \<Rightarrow> False)
     else False)"

definition is_char_boundary :: "bytes \<Rightarrow> nat \<Rightarrow> bool" where
  "is_char_boundary s i \<longleftrightarrow> i = 0 \<or> i = length s \<or> i < length s \<and> \<not> is_continuation (s ! i)"

text \<open>\<open>char::to_digit(16)\<close> of a one-byte character.\<close>

definition to_digit16 :: "u8 \<Rightarrow> nat option" where
  "to_digit16 c =
    (if 48 \<le> c \<and> c \<le> 57 then Some (unat c - 48)
     else if 97 \<le> c \<and> c \<le> 102 then Some (unat c - 87)
     else if 65 \<le> c \<and> c \<le> 70 then Some (unat c - 55)
     else None)"

lemma utf8_valid_ascii: "(\<And>b. b \<in> set bs \<Longrightarrow> b < 0x80) \<Longrightarrow> utf8_valid bs"
  by (induction bs) simp_all

section \<open>The codec of strings\<close>

definition ser_string :: "nat \<Rightarrow> bytes \<Rightarrow> written" where
  "ser_string l s = ser_vec l ser_u8 s"

definition deser_string :: "nat \<Rightarrow> bytes reader" where
  "deser_string l = dbind (deser_vec l deser_u8) (\<lambda>v. if utf8_valid v then dret v else dfail InvalidEncoding)"

lemma encodes_string:
  assumes "utf8_valid s" "length s < 256 ^ l"
  shows "encodes (ser_string l s) (deser_string l) s (l + length s)"
proof -
  have "encodes (ser_vec l ser_u8 s) (deser_vec l deser_u8) s (size_vec l (\<lambda>_. 1) s)"
    using assms(2) by (intro encodes_vec u8.encoded) simp_all
  then have "encodes (ser_string l s) (deser_string l) s (size_vec l (\<lambda>_. 1) s)"
    unfolding ser_string_def deser_string_def by (rule encodes_last) (simp only: assms(1) if_True)
  then show ?thesis
    by (simp add: size_vec_def sum_list_triv)
qed

interpretation string8: codec "ser_string 1" "deser_string 1" "\<lambda>s. 1 + length s" "\<lambda>s. utf8_valid s \<and> length s < 256"
  by unfold_locales (use encodes_string [of _ 1] in simp)

section \<open>The crate \<open>hex\<close>\<close>

datatype from_hex_error = InvalidHexCharacter u8 nat | OddLength | InvalidStringLength

record hex =
  hex_encode :: "bytes \<Rightarrow> bytes"
  hex_decode :: "bytes \<Rightarrow> from_hex_error + bytes"

definition hex_digit :: "nat \<Rightarrow> u8" where
  "hex_digit n = of_nat (if n < 10 then 48 + n else 87 + n)"

text \<open>What the documentation promises: two lower-case digits per byte, and that decoding undoes encoding.\<close>

definition hex_ok :: "hex \<Rightarrow> bool" where
  "hex_ok hx \<longleftrightarrow>
    (\<forall>bs. hex_encode hx bs = concat (map (\<lambda>b. [hex_digit (unat b div 16), hex_digit (unat b mod 16)]) bs)) \<and>
    (\<forall>bs. hex_decode hx (hex_encode hx bs) = Inr bs)"

lemma unat_hex_digit: "n < 16 \<Longrightarrow> unat (hex_digit n) = (if n < 10 then 48 + n else 87 + n)"
  unfolding hex_digit_def by (subst unsigned_of_nat) (simp add: take_bit_nat_eq_self)

lemma hex_digit_ascii: "n < 16 \<Longrightarrow> hex_digit n < 0x80"
  by (simp add: word_less_nat_alt unat_hex_digit)

lemma to_digit16_hex_digit: "n < 16 \<Longrightarrow> to_digit16 (hex_digit n) = Some n"
  by (simp add: to_digit16_def word_le_nat_alt unat_hex_digit)

lemma hex_encode_ascii:
  assumes "hex_ok hx" "b \<in> set (hex_encode hx bs)"
  shows "b < 0x80"
proof -
  have "unat c div 16 < 16" for c :: u8
    using unsigned_less [of c, where 'a = nat] by simp
  then show ?thesis
    using assms by (auto simp: hex_ok_def hex_digit_ascii)
qed

text \<open>A decoder that satisfies it, for concrete values.\<close>

fun decode_pairs :: "nat \<Rightarrow> bytes \<Rightarrow> from_hex_error + bytes" where
  "decode_pairs i [] = Inr []"
| "decode_pairs i [c] = Inl OddLength"
| "decode_pairs i (c # d # s) =
    (case (to_digit16 c, to_digit16 d) of
       (None, _) \<Rightarrow> Inl (InvalidHexCharacter c i)
     | (Some _, None) \<Rightarrow> Inl (InvalidHexCharacter d (i + 1))
     | (Some x, Some y) \<Rightarrow> (case decode_pairs (i + 2) s of Inl e \<Rightarrow> Inl e | Inr bs \<Rightarrow> Inr (of_nat (x * 16 + y) # bs)))"

definition example_hex :: hex where
  "example_hex =
    \<lparr>hex_encode = (\<lambda>bs. concat (map (\<lambda>b. [hex_digit (unat b div 16), hex_digit (unat b mod 16)]) bs)),
     hex_decode = decode_pairs 0\<rparr>"

lemma decode_pairs_encode:
  "decode_pairs i (concat (map (\<lambda>b. [hex_digit (unat b div 16), hex_digit (unat b mod 16)]) bs)) = Inr bs"
proof (induction bs arbitrary: i)
  case (Cons b bs)
  have "unat b div 16 < 16"
    using unsigned_less [of b, where 'a = nat] by simp
  moreover have "of_nat (unat b div 16 * 16 + unat b mod 16) = b"
    by (simp only: div_mult_mod_eq) simp
  ultimately show ?case
    using Cons by (simp add: to_digit16_hex_digit)
qed simp

lemma example_hex_ok: "hex_ok example_hex"
  by (simp add: hex_ok_def example_hex_def decode_pairs_encode)

end
