(* ===== verification/Nibbles.thy ===== *)
theory Nibbles
  imports Rust_String Primitives "HOL-Library.Sublist"
begin

text \<open>
  Prefixes of addresses as sequences of half bytes (\<open>accounts/tree-primitives/src/address_nibbles.rs\<close>): the packed representation and
  its operations, which work on whole bytes, and that they implement the operations on lists of nibbles.  The fields are private;
  \<open>an_ok\<close> is what every constructor establishes and every operation keeps, and it keeps all indices in range.
\<close>

unbundle bit_operations_syntax

section \<open>The packed representation\<close>

record address_nibbles =
  an_bytes :: bytes
  an_length :: u8

definition an_empty :: address_nibbles where
  "an_empty = \<lparr>an_bytes = [], an_length = 0\<rparr>"

definition an_len :: "address_nibbles \<Rightarrow> nat" where
  "an_len a = unat (an_length a)"

definition an_get :: "address_nibbles \<Rightarrow> nat \<Rightarrow> nat option" where
  "an_get a index =
    (if index \<ge> an_len a then None
     else
       let byte = index div 2; nibble = index mod 2 in
       Some (unat (drop_bit ((1 - nibble) * 4) (an_bytes a ! byte) AND 0xf)))"

definition an_is_prefix_of :: "address_nibbles \<Rightarrow> address_nibbles \<Rightarrow> bool" where
  "an_is_prefix_of a b =
    (if an_length a > an_length b then False
     else
       let ends_in_byte = an_length a mod 2 = 1; end = an_len a div 2 in
       if ends_in_byte \<and> (drop_bit 4 (an_bytes a ! end) AND 0xf) \<noteq> (drop_bit 4 (an_bytes b ! end) AND 0xf) then False
       else take end (an_bytes a) = take end (an_bytes b))"

text \<open>\<open>slice\<close>: the loop moves every nibble by half a byte when the slice starts inside a byte.\<close>

fun slice_loop :: "bytes \<Rightarrow> u8 \<Rightarrow> bytes" where
  "slice_loop [] current = [current]"
| "slice_loop (b # bs) current = (current OR (drop_bit 4 b AND 0xf)) # slice_loop bs (push_bit 4 (b AND 0xf))"

definition an_slice :: "address_nibbles \<Rightarrow> nat \<Rightarrow> nat \<Rightarrow> address_nibbles" where
  "an_slice a start end =
    (if start \<ge> an_len a \<or> end \<le> start then an_empty
     else
       let end = min end (an_len a); byte_start = start div 2; byte_end = end div 2;
         new_bytes =
           (if start mod 2 = 0 then take (byte_end - byte_start) (drop byte_start (an_bytes a))
            else slice_loop (take (byte_end - (byte_start + 1)) (drop (byte_start + 1) (an_bytes a)))
                   (push_bit 4 ((an_bytes a ! byte_start) AND 0xf)));
         new_bytes =
           (if end mod 2 = 1 then
              let last_nibble = (an_bytes a ! byte_end) AND 0xf0 in
              if start mod 2 = 0 then new_bytes @ [last_nibble]
              else butlast new_bytes @ [last new_bytes OR drop_bit 4 last_nibble]
            else new_bytes) in
       \<lparr>an_bytes = new_bytes, an_length = of_nat (end - start)\<rparr>)"

definition an_suffix :: "address_nibbles \<Rightarrow> u8 \<Rightarrow> address_nibbles" where
  "an_suffix a start = an_slice a (unat start) (an_len a)"

text \<open>The loop over the bytes of \<open>common_prefix\<close>, from byte \<open>j\<close> on.\<close>

fun first_difference :: "nat \<Rightarrow> nat \<Rightarrow> address_nibbles \<Rightarrow> address_nibbles \<Rightarrow> nat \<Rightarrow> nat" where
  "first_difference 0 j a b d = d"
| "first_difference (Suc n) j a b d =
    (if an_bytes a ! j \<noteq> an_bytes b ! j
     then (if an_get a (j * 2) \<noteq> an_get b (j * 2) then j * 2 else j * 2 + 1)
     else first_difference n (Suc j) a b d)"

definition an_common_prefix :: "address_nibbles \<Rightarrow> address_nibbles \<Rightarrow> address_nibbles" where
  "an_common_prefix a b =
    (let min_len = min (an_len a) (an_len b); byte_len = min_len div 2 + min_len mod 2 in
     an_slice a 0 (first_difference byte_len 0 a b min_len))"

definition an_to_address :: "address_nibbles \<Rightarrow> address option" where
  "an_to_address a = (if an_length a \<noteq> 40 then None else Some (an_bytes a))"

definition an_from_bytes :: "bytes \<Rightarrow> address_nibbles" where
  "an_from_bytes v = \<lparr>an_bytes = v, an_length = of_nat (length v * 2)\<rparr>"

fun add_loop :: "bytes \<Rightarrow> u8 \<Rightarrow> bytes \<times> u8" where
  "add_loop [] next = ([], next)"
| "add_loop (b # bs) next =
    (let (rest, next') = add_loop bs (push_bit 4 (b AND 0xf)) in ((next OR drop_bit 4 b) # rest, next'))"

definition an_add :: "address_nibbles \<Rightarrow> address_nibbles \<Rightarrow> address_nibbles" where
  "an_add a b =
    \<lparr>an_bytes =
       (if an_len a mod 2 = 0 then an_bytes a @ an_bytes b
        else
          let (new, next) = add_loop (an_bytes b) (last (an_bytes a)) in
          butlast (an_bytes a) @ new @ (if an_length b mod 2 = 0 then [next] else [])),
     an_length = an_length a + an_length b\<rparr>"

text \<open>The derived order: the bytes lexicographically, then the length.\<close>

definition an_less :: "address_nibbles \<Rightarrow> address_nibbles \<Rightarrow> bool" where
  "an_less a b \<longleftrightarrow> an_bytes a < an_bytes b \<or> an_bytes a = an_bytes b \<and> an_length a < an_length b"

text \<open>
  The text form: the hexadecimal digits, without the last one when the length is odd.  The digits are ASCII, so \<open>pop\<close> drops a byte.
  \<open>from_str\<close> slices the string one byte before its end, which panics when that is inside a character.
\<close>

definition an_to_string :: "hex \<Rightarrow> address_nibbles \<Rightarrow> bytes" where
  "an_to_string hx a = (let h = hex_encode hx (an_bytes a) in if an_length a mod 2 = 1 then butlast h else h)"

definition an_from_str :: "hex \<Rightarrow> bytes \<Rightarrow> (address_nibbles, from_hex_error) result" where
  "an_from_str hx s =
    (if length s mod 2 = 0 then rbind (map_sum Err id (hex_decode hx s)) (\<lambda>v. Inr (an_from_bytes v))
     else if \<not> is_char_boundary s (length s - 1) then Inl Panic
     else
       rbind (map_sum Err id (hex_decode hx (take (length s - 1) s))) (\<lambda>v.
       rbind (ok_or (InvalidHexCharacter (last s) (length s - 1)) (to_digit16 (last s))) (\<lambda>last_nibble.
       Inr \<lparr>an_bytes = v @ [push_bit 4 (of_nat last_nibble)], an_length = of_nat (length s)\<rparr>)))"

definition ser_nibbles :: "hex \<Rightarrow> address_nibbles \<Rightarrow> written" where
  "ser_nibbles hx a = ser_string 1 (an_to_string hx a)"

definition deser_nibbles :: "hex \<Rightarrow> address_nibbles reader" where
  "deser_nibbles hx = dbind (deser_string 1) (\<lambda>hex_repr rest.
     case an_from_str hx hex_repr of
       Inl (Err _) \<Rightarrow> Inl (Err (IoError InvalidData))
     | Inl Panic \<Rightarrow> Inl Panic
     | Inr a \<Rightarrow> Inr (a, rest))"

section \<open>Lists of nibbles\<close>

definition hi :: "u8 \<Rightarrow> nat" where "hi b = unat (drop_bit 4 b)"
definition lo :: "u8 \<Rightarrow> nat" where "lo b = unat (b AND 15)"

fun flat :: "bytes \<Rightarrow> nat list" where
  "flat [] = []"
| "flat (b # bs) = hi b # lo b # flat bs"

definition an_ok :: "address_nibbles \<Rightarrow> bool" where
  "an_ok a \<longleftrightarrow> length (an_bytes a) = (an_len a + 1) div 2 \<and> (odd (an_len a) \<longrightarrow> lo (last (an_bytes a)) = 0)"

definition nib :: "address_nibbles \<Rightarrow> nat list" where
  "nib a = take (an_len a) (flat (an_bytes a))"

lemma byte_range: "unat (b :: u8) < 256"
  using unsigned_less [of b, where 'a = nat] by simp

lemma hi_div: "hi b = unat b div 16"
  by (simp add: hi_def drop_bit_eq_div unat_div)

lemma lo_mod: "lo b = unat b mod 16"
proof -
  have "b AND 15 = take_bit 4 b"
    by (simp add: take_bit_eq_mask mask_eq_exp_minus_1)
  then show ?thesis
    by (simp add: lo_def take_bit_eq_mod unat_mod)
qed

lemma hi_less [simp]: "hi b < 16"
  using byte_range [of b] by (simp add: hi_div)

lemma lo_less [simp]: "lo b < 16"
  by (simp add: lo_mod)

lemma hi_lo_inject:
  assumes "hi b = hi c" "lo b = lo c"
  shows "b = c"
proof -
  have "unat b = unat c"
    using assms div_mult_mod_eq [of "unat b" 16] div_mult_mod_eq [of "unat c" 16] unfolding hi_div lo_mod by argo
  then show ?thesis
    by (simp only: word_unat_eq_iff)
qed

lemma length_flat [simp]: "length (flat bs) = 2 * length bs"
  by (induction bs) simp_all

lemma flat_append: "flat (bs @ cs) = flat bs @ flat cs"
  by (induction bs) simp_all

lemma flat_take: "flat (take n bs) = take (2 * n) (flat bs)"
proof (induction bs arbitrary: n)
  case (Cons b bs)
  then show ?case by (cases n) simp_all
qed simp

lemma flat_drop: "flat (drop n bs) = drop (2 * n) (flat bs)"
proof -
  have "flat bs = take (2 * n) (flat bs) @ flat (drop n bs)"
    by (metis append_take_drop_id flat_append flat_take)
  then show ?thesis
    by (cases "n \<le> length bs") (auto simp: min_def dest: arg_cong [of _ _ "drop (2 * n)"])
qed

lemma flat_inject: "flat bs = flat cs \<Longrightarrow> bs = cs"
proof (induction bs arbitrary: cs)
  case Nil
  then show ?case by (cases cs) simp_all
next
  case (Cons b bs)
  then show ?case by (cases cs) (auto dest: hi_lo_inject)
qed

lemma flat_nth: "i < 2 * length bs \<Longrightarrow> flat bs ! i = (if even i then hi (bs ! (i div 2)) else lo (bs ! (i div 2)))"
proof (induction bs arbitrary: i)
  case (Cons b bs)
  consider "i = 0" | "i = 1" | j where "i = Suc (Suc j)"
    by (metis One_nat_def not0_implies_Suc)
  then show ?case
    using Cons by cases auto
qed simp

lemma an_ok_flat:
  assumes "an_ok a"
  shows "flat (an_bytes a) = nib a @ (if odd (an_len a) then [0] else [])"
proof (cases "odd (an_len a)")
  case True
  then obtain n where n: "an_len a = 2 * n + 1" by (elim oddE)
  then have len: "length (an_bytes a) = Suc n"
    using assms by (simp add: an_ok_def)
  then have "drop (2 * n + 1) (flat (an_bytes a)) = [flat (an_bytes a) ! (2 * n + 1)]"
    by (subst Cons_nth_drop_Suc [symmetric]) simp_all
  moreover have "flat (an_bytes a) ! (2 * n + 1) = 0"
  proof -
    have "last (an_bytes a) = an_bytes a ! n"
      using len last_conv_nth [of "an_bytes a"] by fastforce
    then show ?thesis
      using assms n len by (simp add: flat_nth an_ok_def)
  qed
  ultimately show ?thesis
    using True n by (simp add: nib_def) (metis append_take_drop_id)
next
  case False
  then show ?thesis
    using assms by (auto simp: an_ok_def nib_def elim!: evenE)
qed

lemma length_nib [simp]: "an_ok a \<Longrightarrow> length (nib a) = an_len a"
  by (auto simp: nib_def an_ok_def min_def)

lemma nib_inject: "an_ok a \<Longrightarrow> an_ok b \<Longrightarrow> nib a = nib b \<longleftrightarrow> a = b"
proof
  assume ok: "an_ok a" "an_ok b" and eq: "nib a = nib b"
  then have len: "an_len a = an_len b"
    by (metis length_nib)
  then have "an_bytes a = an_bytes b"
    using ok eq by (intro flat_inject) (simp add: an_ok_flat)
  with len show "a = b"
    by (cases a; cases b) (simp add: an_len_def word_unat_eq_iff)
qed simp

lemma an_okI:
  assumes "flat (an_bytes a) = xs @ (if odd (length xs) then [0] else [])" "an_len a = length xs"
  shows "an_ok a" "nib a = xs"
proof -
  have len: "2 * length (an_bytes a) = length xs + (if odd (length xs) then 1 else 0)"
    using arg_cong [OF assms(1), of length] by simp
  have "lo (last (an_bytes a)) = 0" if "odd (length xs)"
  proof -
    have "an_bytes a \<noteq> []"
      using len that by auto
    then have "last (flat (an_bytes a)) = lo (last (an_bytes a))"
      using flat_nth [of "2 * length (an_bytes a) - 1" "an_bytes a"]
      by (cases "an_bytes a" rule: rev_cases) (simp_all add: flat_append)
    then show ?thesis
      using assms(1) that by simp
  qed
  moreover have "length (an_bytes a) = (length xs + 1) div 2"
    using len by (cases "odd (length xs)") (auto elim!: oddE evenE)
  ultimately show "an_ok a"
    using assms(2) by (simp add: an_ok_def)
  show "nib a = xs"
    using assms by (simp add: nib_def)
qed

lemma nib_range: "an_ok a \<Longrightarrow> x \<in> set (nib a) \<Longrightarrow> x < 16"
proof -
  have "x \<in> set (flat bs) \<Longrightarrow> x < 16" for bs
    by (induction bs) auto
  then show "x \<in> set (nib a) \<Longrightarrow> x < 16"
    by (auto simp: nib_def dest: in_set_takeD)
qed

section \<open>The operations on lists\<close>

lemma bit_nibble_masks: "bit (15 :: u8) n \<longleftrightarrow> n < 4" "bit (240 :: u8) n \<longleftrightarrow> 4 \<le> n \<and> n < 8"
proof -
  have eq: "(15 :: u8) = mask 4" "(240 :: u8) = push_bit 4 (mask 4)"
    by (simp_all add: mask_eq_exp_minus_1 push_bit_eq_mult)
  show "bit (15 :: u8) n \<longleftrightarrow> n < 4"
    by (subst eq(1), subst bit_mask_iff) (auto simp: possible_bit_word)
  show "bit (240 :: u8) n \<longleftrightarrow> 4 \<le> n \<and> n < 8"
    by (subst eq(2), subst bit_push_bit_iff, subst bit_mask_iff) (auto simp: possible_bit_word)
qed

lemmas nibble_bits = bit_and_iff bit_or_iff bit_drop_bit_eq bit_push_bit_iff possible_bit_word bit_nibble_masks o_apply

lemma nibble_words:
  "drop_bit 4 b AND 15 = drop_bit 4 (b :: u8)" "drop_bit 4 (b AND 240) = drop_bit 4 b" "(b AND 240) AND 15 = 0"
  "drop_bit 4 (push_bit 4 b) = b AND 15" "push_bit 4 b AND 15 = 0" "drop_bit 4 (push_bit 4 (b AND 15)) = b AND 15"
  "push_bit 4 (b AND 15) AND 15 = 0"
  by (rule bit_word_eqI; simp only: nibble_bits bit_0_eq bot_apply; auto dest: bit_imp_le_length)+

lemma nibble_or_words:
  assumes "c AND 15 = (0 :: u8)"
  shows "drop_bit 4 (c OR drop_bit 4 b) = drop_bit 4 c" "(c OR drop_bit 4 b) AND 15 = drop_bit 4 b"
proof -
  have low: "\<not> bit c n" if "n < 4" for n
    using that arg_cong [OF assms(1), of "\<lambda>w. bit w n"] by (simp only: nibble_bits) simp
  show "drop_bit 4 (c OR drop_bit 4 b) = drop_bit 4 c" "(c OR drop_bit 4 b) AND 15 = drop_bit 4 b"
    by (rule bit_word_eqI; simp only: nibble_bits; auto simp: low dest: bit_imp_le_length)+
qed

lemma nibble_ops:
  "unat (drop_bit 4 b AND 15) = hi b" "unat (drop_bit 0 b AND 15) = lo b"
  "hi (push_bit 4 (b AND 15)) = lo b" "lo (push_bit 4 (b AND 15)) = 0" "hi (b AND 240) = hi b" "lo (b AND 240) = 0"
  "lo c = 0 \<Longrightarrow> hi (c OR drop_bit 4 b) = hi c" "lo c = 0 \<Longrightarrow> lo (c OR drop_bit 4 b) = hi b"
  "hi (push_bit 4 b) = lo b" "lo (push_bit 4 b) = 0" "unat (drop_bit 4 b) = hi b" "unat (b AND 15) = lo b"
  "lo (drop_bit 4 b) = hi b"
  by (simp_all only: hi_def lo_def nibble_words nibble_or_words and.right_idem unat_0 drop_bit_0 id_apply unat_eq_zero)

lemma nib_empty [simp]: "an_ok an_empty" "nib an_empty = []"
  by (simp_all add: an_empty_def an_ok_def nib_def an_len_def)

lemma an_get_nib: "an_ok a \<Longrightarrow> an_get a i = (if i < an_len a then Some (nib a ! i) else None)"
  by (auto simp: an_get_def nib_def an_ok_def flat_nth nibble_ops mod_2_eq_odd elim!: oddE)

lemma an_from_bytes_nib: "length v < 128 \<Longrightarrow> an_ok (an_from_bytes v) \<and> nib (an_from_bytes v) = flat v"
proof -
  assume "length v < 128"
  then have "unat (of_nat (length v * 2) :: u8) = length v * 2"
    by (subst unsigned_of_nat) (simp add: take_bit_nat_eq_self)
  then show ?thesis
    using an_okI [of "an_from_bytes v" "flat v"] by (simp add: an_from_bytes_def an_len_def)
qed

lemma add_loop_flat:
  "lo c = 0 \<Longrightarrow> add_loop bs c = (new, c') \<Longrightarrow> flat new @ [hi c'] = hi c # flat bs \<and> lo c' = 0 \<and> length new = length bs"
proof (induction bs arbitrary: c new)
  case (Cons b bs)
  obtain rest where r: "add_loop bs (push_bit 4 (b AND 15)) = (rest, c')" "new = (c OR drop_bit 4 b) # rest"
    using Cons.prems(2) by (auto split: prod.splits)
  with Cons.IH [OF _ r(1)] Cons.prems(1) show ?case
    by (simp add: nibble_ops)
qed simp

lemma an_add_nib:
  assumes "an_ok a" "an_ok b" "an_len a + an_len b < 256"
  shows "an_ok (an_add a b)" "nib (an_add a b) = nib a @ nib b"
proof -
  have len: "an_len (an_add a b) = length (nib a @ nib b)"
    using assms by (simp add: an_add_def an_len_def unat_word_ariths)
  have even_a: "an_len a mod 2 = 0 \<longleftrightarrow> even (an_len a)"
    by (simp add: even_iff_mod_2_eq_zero)
  have parity: "an_length b mod 2 = 0 \<longleftrightarrow> even (an_len b)"
    by (simp only: an_len_def word_unat_eq_iff unat_mod even_iff_mod_2_eq_zero unsigned_0) simp
  have "flat (an_bytes (an_add a b)) = (nib a @ nib b) @ (if odd (length (nib a @ nib b)) then [0] else [])"
  proof (cases "odd (an_len a)")
    case False
    with assms show ?thesis
      by (simp add: an_add_def flat_append an_ok_flat even_a)
  next
    case True
    then have ne: "an_bytes a \<noteq> []" and z: "lo (last (an_bytes a)) = 0"
      using assms(1) by (auto simp: an_ok_def)
    have "flat (butlast (an_bytes a)) @ [hi (last (an_bytes a))] @ [0] = nib a @ [0]"
      using an_ok_flat [OF assms(1)] True z flat_append [of "butlast (an_bytes a)" "[last (an_bytes a)]"] ne by simp
    then have na: "flat (butlast (an_bytes a)) @ [hi (last (an_bytes a))] = nib a"
      by simp
    obtain new nx where loop: "add_loop (an_bytes b) (last (an_bytes a)) = (new, nx)"
      by fastforce
    from add_loop_flat [OF z loop] have new: "flat new @ [hi nx] = hi (last (an_bytes a)) # flat (an_bytes b)" "lo nx = 0"
      by simp_all
    show ?thesis
    proof (cases "odd (an_len b)")
      case b: True
      then have "flat new = hi (last (an_bytes a)) # nib b"
        using new(1) an_ok_flat [OF assms(2)] by (simp flip: append_Cons)
      with b True assms parity na loop show ?thesis
        by (simp add: an_add_def flat_append even_a)
    next
      case b: False
      have "flat (butlast (an_bytes a)) @ flat new @ [hi nx] = nib a @ nib b"
        using an_ok_flat [OF assms(2)] b by (simp add: new(1) na [symmetric])
      with b True assms parity new(2) loop show ?thesis
        by (simp add: an_add_def flat_append even_a)
    qed
  qed
  from an_okI [OF this len] show "an_ok (an_add a b)" "nib (an_add a b) = nib a @ nib b" .
qed


lemma slice_loop_flat:
  "lo c = 0 \<Longrightarrow>
    slice_loop bs c \<noteq> [] \<and> lo (last (slice_loop bs c)) = 0 \<and>
    flat (butlast (slice_loop bs c)) @ [hi (last (slice_loop bs c))] = hi c # flat bs"
  by (induction bs arbitrary: c) (simp_all add: nibble_ops nibble_words)

lemma slice_loop_flat_all: "lo c = 0 \<Longrightarrow> flat (slice_loop bs c) = hi c # flat bs @ [0]"
  by (induction bs arbitrary: c) (simp_all add: nibble_ops nibble_words)

lemma take_drop_Suc: "s < e \<Longrightarrow> e \<le> length xs \<Longrightarrow> take (e - s) (drop s xs) = take (e - 1 - s) (drop s xs) @ [xs ! (e - 1)]"
  using take_Suc_conv_app_nth [of "e - 1 - s" "drop s xs"] by (simp add: Suc_diff_Suc)

lemma take_drop_first: "s < e \<Longrightarrow> s < length xs \<Longrightarrow> take (e - s) (drop s xs) = xs ! s # take (e - Suc s) (drop (Suc s) xs)"
  by (simp add: Cons_nth_drop_Suc [symmetric] Suc_diff_Suc take_Suc_Cons flip: Suc_diff_Suc)

text \<open>The bytes of a slice that starts at a byte and of one that starts inside a byte.\<close>

lemma slice_even_flat:
  assumes "2 * m < e" "e \<le> 2 * length bs"
  shows "flat (take (e div 2 - m) (drop m bs) @ (if odd e then [bs ! (e div 2) AND 240] else [])) =
    take (e - 2 * m) (drop (2 * m) (flat bs)) @ (if odd e then [0] else [])"
proof (cases "odd e")
  case True
  then obtain k where k: "e = 2 * k + 1" by (elim oddE)
  with assms have "flat bs ! (2 * k) = hi (bs ! k)"
    by (simp add: flat_nth)
  with assms k take_drop_Suc [of "2 * m" e "flat bs"] show ?thesis
    by (simp add: flat_append flat_take flat_drop nibble_ops right_diff_distrib')
next
  case False
  then obtain k where "e = 2 * k" by (auto elim: evenE)
  then show ?thesis
    by (simp add: flat_take flat_drop right_diff_distrib')
qed

lemma slice_odd_flat:
  assumes "2 * m + 1 < e" "e \<le> 2 * length bs"
  defines "new \<equiv> slice_loop (take (e div 2 - (m + 1)) (drop (m + 1) bs)) (push_bit 4 ((bs ! m) AND 15))"
  shows "flat (if odd e then butlast new @ [last new OR drop_bit 4 (bs ! (e div 2) AND 240)] else new) =
    take (e - (2 * m + 1)) (drop (2 * m + 1) (flat bs)) @ (if odd e then [] else [0])"
proof -
  have c: "lo (push_bit 4 ((bs ! m) AND 15)) = 0" "hi (push_bit 4 ((bs ! m) AND 15)) = flat bs ! (2 * m + 1)"
    using assms by (simp_all add: nibble_ops flat_nth)
  define mid where "mid = flat (take (e div 2 - (m + 1)) (drop (m + 1) bs))"
  have "2 * m + 1 < 2 * (e div 2)"
    using assms(1) by presburger
  then have mid: "flat bs ! (2 * m + 1) # mid = take (2 * (e div 2) - (2 * m + 1)) (drop (2 * m + 1) (flat bs))"
    using assms(2) take_drop_first [of "2 * m + 1" "2 * (e div 2)" "flat bs"]
    by (simp add: mid_def flat_take flat_drop right_diff_distrib')
  have loop: "flat (butlast new) @ [hi (last new)] = flat bs ! (2 * m + 1) # mid" "lo (last new) = 0"
    "flat new = flat bs ! (2 * m + 1) # mid @ [0]"
    using slice_loop_flat [OF c(1)] slice_loop_flat_all [OF c(1)] unfolding c(2) new_def mid_def by blast+
  show ?thesis
  proof (cases "odd e")
    case True
    then obtain k where k: "e = 2 * k + 1" by (elim oddE)
    with assms(2) have "flat bs ! (2 * k) = hi (bs ! k)"
      by (simp add: flat_nth)
    with assms(1,2) k take_drop_Suc [of "2 * m + 1" e "flat bs"] mid
    have "take (e - (2 * m + 1)) (drop (2 * m + 1) (flat bs)) = (flat bs ! (2 * m + 1) # mid) @ [hi (bs ! k)]"
      by simp
    with k loop(1,2) show ?thesis
      by (simp add: flat_append nibble_ops nibble_words)
  next
    case False
    then have "2 * (e div 2) = e"
      by simp
    with mid False loop(3) show ?thesis
      by simp
  qed
qed

lemma an_slice_nib:
  assumes "an_ok a"
  shows "an_ok (an_slice a s e)" "nib (an_slice a s e) = take (e - s) (drop s (nib a))"
proof -
  have "an_ok (an_slice a s e) \<and> nib (an_slice a s e) = take (e - s) (drop s (nib a))"
  proof (cases "s \<ge> an_len a \<or> e \<le> s")
    case True
    then show ?thesis
      using assms by (auto simp: an_slice_def)
  next
    case False
    define e' where "e' = min e (an_len a)"
    define xs where "xs = take (e' - s) (drop s (flat (an_bytes a)))"
    have bounds: "s < e'" "e' \<le> 2 * length (an_bytes a)" "e' \<le> an_len a" "e' - s < 256"
      using False assms unsigned_less [of "an_length a", where 'a = nat] by (auto simp: e'_def an_ok_def an_len_def)
    then have lenx: "length xs = e' - s"
      by (simp add: xs_def)
    have xs: "take (e - s) (drop s (nib a)) = xs"
      by (simp add: xs_def nib_def e'_def drop_take min_def)
    have "an_len (an_slice a s e) = unat (of_nat (e' - s) :: u8)"
      using False unfolding an_slice_def an_len_def by (simp add: Let_def e'_def [unfolded an_len_def, symmetric])
    also have "\<dots> = length xs"
      using bounds lenx by (subst unsigned_of_nat) (simp add: take_bit_nat_eq_self)
    finally have len: "an_len (an_slice a s e) = length xs" .
    have "flat (an_bytes (an_slice a s e)) = xs @ (if odd (length xs) then [0] else [])"
    proof (cases "odd s")
      case True
      then obtain m where m: "s = 2 * m + 1" by (elim oddE)
      with slice_odd_flat [of m e' "an_bytes a"] bounds lenx False show ?thesis
        by (cases "odd e'") (simp_all add: an_slice_def xs_def Let_def e'_def [symmetric] mod_2_eq_odd)
    next
      case even: False
      then obtain m where m: "s = 2 * m" by (auto elim: evenE)
      with slice_even_flat [of m e' "an_bytes a"] bounds lenx False show ?thesis
        by (cases "odd e'") (simp_all add: an_slice_def xs_def Let_def e'_def [symmetric] mod_2_eq_odd)
    qed
    from an_okI [OF this len] xs show ?thesis
      by simp
  qed
  then show "an_ok (an_slice a s e)" "nib (an_slice a s e) = take (e - s) (drop s (nib a))"
    by simp_all
qed


lemma an_suffix_nib: "an_ok a \<Longrightarrow> an_ok (an_suffix a n)" "an_ok a \<Longrightarrow> nib (an_suffix a n) = drop (unat n) (nib a)"
  by (simp_all add: an_suffix_def an_slice_nib)

lemma hi_eq_iff: "drop_bit 4 b AND 15 = drop_bit 4 c AND 15 \<longleftrightarrow> hi b = hi c"
  by (simp only: nibble_words hi_def word_unat_eq_iff)

lemma take_flat_inject: "take (2 * k) (flat as) = take (2 * k) (flat bs) \<longleftrightarrow> take k as = take k bs"
  by (metis flat_inject flat_take)

lemma odd_length_iff: "an_length a mod 2 = 1 \<longleftrightarrow> odd (an_len a)"
  by (simp only: an_len_def word_unat_eq_iff unat_mod odd_iff_mod_2_eq_one) simp

lemma an_is_prefix_of_nib:
  assumes "an_ok a" "an_ok b"
  shows "an_is_prefix_of a b \<longleftrightarrow> prefix (nib a) (nib b)"
proof (cases "an_length a > an_length b")
  case True
  then have "an_len b < an_len a"
    by (simp add: an_len_def word_less_nat_alt)
  with True assms show ?thesis
    by (auto simp: an_is_prefix_of_def dest: prefix_length_le)
next
  case False
  then have le: "an_len a \<le> an_len b"
    by (simp add: an_len_def word_less_nat_alt)
  then have pre: "prefix (nib a) (nib b) \<longleftrightarrow> take (an_len a) (flat (an_bytes a)) = take (an_len a) (flat (an_bytes b))"
    using assms by (auto simp: prefix_def nib_def min_def) (metis append_eq_conv_conj append_take_drop_id length_nib nib_def assms take_all_iff take_take min.absorb1)+
  show ?thesis
  proof (cases "odd (an_len a)")
    case True
    then obtain k where k: "an_len a = 2 * k + 1" by (elim oddE)
    have "flat (an_bytes a) ! (2 * k) = hi (an_bytes a ! k)" "flat (an_bytes b) ! (2 * k) = hi (an_bytes b ! k)"
      "2 * k < length (flat (an_bytes a))" "2 * k < length (flat (an_bytes b))"
      using assms le k by (simp_all add: flat_nth an_ok_def)
    with False True k pre show ?thesis
      by (auto simp: an_is_prefix_of_def odd_length_iff hi_eq_iff take_Suc_conv_app_nth take_flat_inject)
  next
    case even: False
    then obtain k where "an_len a = 2 * k" by (auto elim: evenE)
    with False even pre show ?thesis
      by (simp add: an_is_prefix_of_def odd_length_iff take_flat_inject)
  qed
qed

lemma longest_common_prefix_take:
  "r \<le> length xs \<Longrightarrow> r \<le> length ys \<Longrightarrow> take r xs = take r ys \<Longrightarrow> r = length xs \<or> r = length ys \<or> xs ! r \<noteq> ys ! r \<Longrightarrow>
    longest_common_prefix xs ys = take r xs"
proof (induction r arbitrary: xs ys)
  case 0
  then show ?case by (cases xs; cases ys) auto
next
  case (Suc r)
  then show ?case by (cases xs; cases ys) auto
qed


lemma nib_nth: "an_ok a \<Longrightarrow> i < an_len a \<Longrightarrow> nib a ! i = (if even i then hi (an_bytes a ! (i div 2)) else lo (an_bytes a ! (i div 2)))"
  by (subst flat_nth [symmetric]) (auto simp: nib_def an_ok_def)

lemma take_nib: "an_ok a \<Longrightarrow> n \<le> an_len a \<Longrightarrow> take n (nib a) = take n (flat (an_bytes a))"
  by (simp add: nib_def min_def)

lemma first_difference_nib:
  assumes ok: "an_ok a" "an_ok b" and m: "m = min (an_len a) (an_len b)"
  shows "n + j = m div 2 + m mod 2 \<Longrightarrow> take j (an_bytes a) = take j (an_bytes b) \<Longrightarrow> r = first_difference n j a b m \<Longrightarrow>
    r \<le> m \<and> take r (nib a) = take r (nib b) \<and> (r = m \<or> nib a ! r \<noteq> nib b ! r)"
proof (induction n arbitrary: j)
  case 0
  have "m \<le> 2 * (m div 2 + m mod 2)"
    by presburger
  with 0 have "m \<le> 2 * j"
    by simp
  moreover have "take (2 * j) (flat (an_bytes a)) = take (2 * j) (flat (an_bytes b))"
    using 0 by (simp only: take_flat_inject)
  ultimately have "take m (flat (an_bytes a)) = take m (flat (an_bytes b))"
    by (metis min.absorb1 take_take)
  then show ?case
    using 0 ok m by (simp add: take_nib)
next
  case (Suc n)
  have "2 * j < m"
    using Suc.prems(1) by presburger
  moreover have "2 * j < an_len c \<Longrightarrow> an_ok c \<Longrightarrow> j < length (an_bytes c)" for c
    unfolding an_ok_def by linarith
  ultimately have j: "2 * j < m" "j < length (an_bytes a)" "j < length (an_bytes b)"
    using ok m by simp_all
  show ?case
  proof (cases "an_bytes a ! j = an_bytes b ! j")
    case True
    then have "take (Suc j) (an_bytes a) = take (Suc j) (an_bytes b)"
      using Suc.prems(2) j by (simp add: take_Suc_conv_app_nth)
    then show ?thesis
      using Suc.IH [of "Suc j"] Suc.prems True by simp
  next
    case False
    have nth: "nib a ! (2 * j) = hi (an_bytes a ! j)" "nib b ! (2 * j) = hi (an_bytes b ! j)"
      using ok m j(1) by (simp_all add: nib_nth)
    have get: "an_get a (j * 2) = Some (nib a ! (2 * j))" "an_get b (j * 2) = Some (nib b ! (2 * j))"
      using ok m j(1) by (simp_all add: an_get_nib mult.commute)
    have pre: "take (2 * j) (nib a) = take (2 * j) (nib b)"
      using Suc.prems(2) ok m j(1) by (simp add: take_nib take_flat_inject)
    show ?thesis
    proof (cases "hi (an_bytes a ! j) = hi (an_bytes b ! j)")
      case False
      with get nth pre j(1) Suc.prems(3) \<open>an_bytes a ! j \<noteq> an_bytes b ! j\<close> show ?thesis
        by (auto simp: mult.commute)
    next
      case True
      then have lo: "lo (an_bytes a ! j) \<noteq> lo (an_bytes b ! j)"
        using False hi_lo_inject by blast
      have r: "r = Suc (2 * j)"
        using Suc.prems(3) False get nth True by (simp add: mult.commute)
      have "take r (nib a) = take r (nib b)"
        using pre nth True j(1) m ok by (simp add: r take_Suc_conv_app_nth)
      moreover have "nib a ! r \<noteq> nib b ! r" if "r < m"
        using that lo ok m by (simp add: r nib_nth)
      ultimately show ?thesis
        using j(1) r by fastforce
    qed
  qed
qed

lemma an_common_prefix_nib:
  assumes "an_ok a" "an_ok b"
  shows "an_ok (an_common_prefix a b)" "nib (an_common_prefix a b) = longest_common_prefix (nib a) (nib b)"
proof -
  define m where "m = min (an_len a) (an_len b)"
  define r where "r = first_difference (m div 2 + m mod 2) 0 a b m"
  have "r \<le> m \<and> take r (nib a) = take r (nib b) \<and> (r = m \<or> nib a ! r \<noteq> nib b ! r)"
    using first_difference_nib [OF assms m_def _ _ r_def] by simp
  then have "longest_common_prefix (nib a) (nib b) = take r (nib a)"
    using assms by (intro longest_common_prefix_take) (auto simp: m_def min_def split: if_splits)
  then show "nib (an_common_prefix a b) = longest_common_prefix (nib a) (nib b)"
    using assms by (simp add: an_common_prefix_def Let_def an_slice_nib flip: m_def r_def)
  show "an_ok (an_common_prefix a b)"
    using assms by (simp add: an_common_prefix_def Let_def an_slice_nib)
qed


section \<open>Text form and codec\<close>

lemma hex_encode_flat: "hex_ok hx \<Longrightarrow> hex_encode hx bs = map hex_digit (flat bs)"
proof -
  assume "hex_ok hx"
  then have "hex_encode hx bs = concat (map (\<lambda>b. [hex_digit (unat b div 16), hex_digit (unat b mod 16)]) bs)"
    by (simp add: hex_ok_def)
  also have "\<dots> = map hex_digit (flat bs)"
    by (induction bs) (simp_all add: hi_div lo_mod)
  finally show ?thesis .
qed

lemma hex_decode_encode: "hex_ok hx \<Longrightarrow> hex_decode hx (hex_encode hx bs) = Inr bs"
  unfolding hex_ok_def by blast

lemma an_to_string_nib:
  assumes "hex_ok hx" "an_ok a"
  shows "an_to_string hx a = map hex_digit (nib a)"
  using assms by (simp add: an_to_string_def hex_encode_flat odd_length_iff an_ok_flat)

lemma push_bit_hi: "lo b = 0 \<Longrightarrow> push_bit 4 (of_nat (hi b)) = b"
proof (rule hi_lo_inject)
  have "hi b < 256"
    by (rule less_trans [OF hi_less]) simp
  then have "unat (of_nat (hi b) :: u8) = hi b"
    by (subst unsigned_of_nat) (simp add: take_bit_nat_eq_self)
  then show "hi (push_bit 4 (of_nat (hi b))) = hi b"
    by (simp add: nibble_ops(9) lo_mod)
  show "lo b = 0 \<Longrightarrow> lo (push_bit 4 (of_nat (hi b))) = lo b"
    by (simp add: nibble_ops(10))
qed

lemma hex_digits_boundary:
  assumes "\<And>x. x \<in> set xs \<Longrightarrow> x < 16"
  shows "is_char_boundary (map hex_digit xs) i \<longleftrightarrow> i \<le> length xs"
proof -
  have "\<not> is_continuation (hex_digit (xs ! i))" if "i < length xs"
    using hex_digit_ascii [OF assms [OF nth_mem [OF that]]] by (simp add: is_continuation_def not_le [symmetric])
  then show ?thesis
    by (auto simp: is_char_boundary_def)
qed

theorem an_from_str_to_string:
  assumes "hex_ok hx" "an_ok a"
  shows "an_from_str hx (an_to_string hx a) = Inr a"
proof (cases "odd (an_len a)")
  case False
  then have "flat (an_bytes a) = nib a"
    using an_ok_flat [OF assms(2)] by simp
  then have "an_to_string hx a = hex_encode hx (an_bytes a)"
    using assms by (simp add: an_to_string_nib hex_encode_flat)
  moreover have "length (an_to_string hx a) mod 2 = 0"
    using False assms by (simp add: an_to_string_nib even_iff_mod_2_eq_zero)
  moreover have "an_from_bytes (an_bytes a) = a"
    using False assms(2) by (cases a) (auto simp: an_from_bytes_def an_ok_def an_len_def elim!: evenE)
  ultimately show ?thesis
    using assms(1) by (simp add: an_from_str_def hex_decode_encode)
next
  case True
  then have ne: "an_bytes a \<noteq> []" and z: "lo (last (an_bytes a)) = 0"
    using assms(2) by (auto simp: an_ok_def)
  have "flat (butlast (an_bytes a)) @ [hi (last (an_bytes a))] @ [0] = nib a @ [0]"
    using an_ok_flat [OF assms(2)] True z flat_append [of "butlast (an_bytes a)" "[last (an_bytes a)]"] ne by simp
  then have na: "nib a = flat (butlast (an_bytes a)) @ [hi (last (an_bytes a))]"
    by simp
  define s where "s = an_to_string hx a"
  have s: "s = hex_encode hx (butlast (an_bytes a)) @ [hex_digit (hi (last (an_bytes a)))]"
    using assms by (simp add: s_def an_to_string_nib hex_encode_flat na)
  have len: "length s = an_len a"
    using assms by (simp add: s_def an_to_string_nib)
  have "is_char_boundary s (length s - 1)"
    using assms nib_range [OF assms(2)] by (simp add: s_def an_to_string_nib hex_digits_boundary)
  moreover have "push_bit 4 (of_nat (hi (last (an_bytes a)))) = last (an_bytes a)"
    by (rule push_bit_hi [OF z])
  moreover have "hex_decode hx (take (length s - 1) s) = Inr (butlast (an_bytes a))"
    using assms(1) by (simp add: s hex_decode_encode)
  moreover have "length s mod 2 \<noteq> 0"
    using True len by (simp add: odd_iff_mod_2_eq_one)
  moreover have "of_nat (length s) = an_length a"
    by (simp add: len an_len_def)
  ultimately have "an_from_str hx s = Inr a"
    using ne by (simp add: an_from_str_def s to_digit16_hex_digit ok_or_def)
  then show ?thesis
    by (simp add: s_def)
qed

interpretation nibbles: codec "ser_nibbles hx" "deser_nibbles hx" "\<lambda>a. 1 + an_len a" "\<lambda>a. hex_ok hx \<and> an_ok a" for hx
proof
  fix a
  assume ok: "hex_ok hx \<and> an_ok a"
  define s where "s = an_to_string hx a"
  have "utf8_valid s" "length s = an_len a"
    using ok nib_range by (auto simp: s_def an_to_string_nib intro!: utf8_valid_ascii hex_digit_ascii)
  moreover have "an_len a < 256"
    using unsigned_less [of "an_length a", where 'a = nat] by (simp add: an_len_def)
  ultimately have "encodes (ser_string 1 s) (deser_string 1) s (1 + an_len a)"
    using string8.encoded [of s] by simp
  then show "encodes (ser_nibbles hx a) (deser_nibbles hx) a (1 + an_len a)"
    using ok an_from_str_to_string [of hx a]
    by (auto simp: ser_nibbles_def deser_nibbles_def encodes_def dbind_def simp flip: s_def)
qed

end
