(* ===== verification/Tree_Node.thy ===== *)
theory Tree_Node
  imports Nibbles
begin

text \<open>
  Nodes of the accounts tree (\<open>accounts/tree-primitives/src/accounts_tree_node.rs\<close>): branches with sixteen optional children, each a
  suffix and a hash, and terminals that hold an account.  The leaf type is a parameter, as in the source: what the trait
  \<open>AccountsTreeLeave\<close> gives (\<open>is_initial\<close> and the codec) is part of the record \<open>tree_env\<close>, together with the primitives.
\<close>

section \<open>Nodes\<close>

record 'a tree_env =
  te_crypto :: crypto
  te_hex :: hex
  te_is_initial :: "'a \<Rightarrow> bool"
  te_ser :: "'a \<Rightarrow> written"
  te_deser :: "'a reader"

record tree_child =
  tc_suffix :: address_nibbles
  tc_hash :: blake2b_hash

datatype node_type = NT_BranchNode | NT_TerminalNode

datatype 'a tree_node =
    BranchNode address_nibbles "tree_child option list"
  | TerminalNode address_nibbles 'a

definition no_children :: "tree_child option list" where
  "no_children = replicate 16 None"

definition hash_default :: blake2b_hash where
  "hash_default = replicate 32 0"

fun is_terminal :: "'a tree_node \<Rightarrow> bool" where
  "is_terminal (TerminalNode _ _) = True"
| "is_terminal (BranchNode _ _) = False"

fun is_branch :: "'a tree_node \<Rightarrow> bool" where
  "is_branch (TerminalNode _ _) = False"
| "is_branch (BranchNode _ _) = True"

fun node_prefix :: "'a tree_node \<Rightarrow> address_nibbles" where
  "node_prefix (TerminalNode p _) = p"
| "node_prefix (BranchNode p _) = p"

fun node_kind :: "'a tree_node \<Rightarrow> node_type" where
  "node_kind (TerminalNode _ _) = NT_TerminalNode"
| "node_kind (BranchNode _ _) = NT_BranchNode"

text \<open>\<open>get_child_index\<close> asserts that the prefix extends the node's own.\<close>

definition get_child_index :: "'a tree_node \<Rightarrow> address_nibbles \<Rightarrow> (nat option, 'e) result" where
  "get_child_index node pfx =
    (if an_is_prefix_of (node_prefix node) pfx then Inr (an_get pfx (an_len (node_prefix node))) else Inl Panic)"

definition get_child_hash :: "'a tree_node \<Rightarrow> address_nibbles \<Rightarrow> (blake2b_hash option, 'e) result" where
  "get_child_hash node pfx =
    (case node of
       TerminalNode _ _ \<Rightarrow> Inr None
     | BranchNode _ children \<Rightarrow>
         rbind (get_child_index node pfx) (\<lambda>i.
         Inr (case i of None \<Rightarrow> None | Some i \<Rightarrow> map_option tc_hash (children ! i))))"

definition get_child_prefix :: "'a tree_node \<Rightarrow> address_nibbles \<Rightarrow> (address_nibbles option, 'e) result" where
  "get_child_prefix node pfx =
    (case node of
       TerminalNode _ _ \<Rightarrow> Inr None
     | BranchNode _ children \<Rightarrow>
         rbind (get_child_index node pfx) (\<lambda>i.
         Inr (case i of None \<Rightarrow> None | Some i \<Rightarrow> map_option (\<lambda>c. an_add (node_prefix node) (tc_suffix c)) (children ! i))))"

definition with_child :: "'a tree_node \<Rightarrow> address_nibbles \<Rightarrow> blake2b_hash \<Rightarrow> ('a tree_node option, 'e) result" where
  "with_child node pfx hash =
    rbind (get_child_index node pfx) (\<lambda>i.
    Inr (case i of
        None \<Rightarrow> None
      | Some child_index \<Rightarrow>
          let suffix = an_suffix pfx (of_nat (an_len (node_prefix node))) in
          case node of
            TerminalNode p a \<Rightarrow> None
          | BranchNode p children \<Rightarrow> Some (BranchNode p (children[child_index := Some \<lparr>tc_suffix = suffix, tc_hash = hash\<rparr>]))))"

definition without_child :: "'a tree_node \<Rightarrow> address_nibbles \<Rightarrow> ('a tree_node option, 'e) result" where
  "without_child node pfx =
    rbind (get_child_index node pfx) (\<lambda>i.
    Inr (case i of
        None \<Rightarrow> None
      | Some child_index \<Rightarrow>
          case node of
            TerminalNode p a \<Rightarrow> None
          | BranchNode p children \<Rightarrow> Some (BranchNode p (children[child_index := None]))))"

fun with_account :: "'a tree_node \<Rightarrow> 'a \<Rightarrow> 'a tree_node option" where
  "with_account (TerminalNode p a) new_account = Some (TerminalNode p new_account)"
| "with_account (BranchNode p children) new_account = None"

fun iter_children :: "'a tree_node \<Rightarrow> tree_child list" where
  "iter_children (TerminalNode p a) = []"
| "iter_children (BranchNode p children) = List.map_filter id children"

section \<open>Codec and hash\<close>

definition ser_child :: "hex \<Rightarrow> tree_child \<Rightarrow> written" where
  "ser_child hx c = wseqs [ser_nibbles hx (tc_suffix c), ser_hash (tc_hash c)]"

definition deser_child :: "hex \<Rightarrow> tree_child reader" where
  "deser_child hx = dbind (deser_nibbles hx) (\<lambda>s. dbind deser_hash (\<lambda>h. dret \<lparr>tc_suffix = s, tc_hash = h\<rparr>))"

fun node_type_u8 :: "node_type \<Rightarrow> u8" where
  "node_type_u8 NT_BranchNode = 0x00"
| "node_type_u8 NT_TerminalNode = 0xff"

definition ser_node :: "'a tree_env \<Rightarrow> 'a tree_node \<Rightarrow> written" where
  "ser_node env node =
    wseqs [ser_u8 (node_type_u8 (node_kind node)), ser_nibbles (te_hex env) (node_prefix node),
      case node of
        TerminalNode _ account \<Rightarrow> te_ser env account
      | BranchNode _ children \<Rightarrow>
          let child_count = foldl (\<lambda>acc child. acc + (if child = None then 0 else 1)) 0 children in
          wseqs (ser_u8 child_count # map (ser_child (te_hex env)) (iter_children node))]"

fun read_children :: "hex \<Rightarrow> nat \<Rightarrow> tree_child option list \<Rightarrow> tree_child option list reader" where
  "read_children hx 0 children = dret children"
| "read_children hx (Suc n) children =
    dbind (deser_child hx) (\<lambda>child.
      case an_get (tc_suffix child) 0 of
        Some i \<Rightarrow> read_children hx n (children[i := Some child])
      | None \<Rightarrow> dfail (IoError InvalidData))"

definition deser_node :: "'a tree_env \<Rightarrow> 'a tree_node reader" where
  "deser_node env =
    dbind (deser_enum [(0x00, NT_BranchNode), (0xff, NT_TerminalNode)]) (\<lambda>ty.
    dbind (deser_nibbles (te_hex env)) (\<lambda>prefix.
      case ty of
        NT_TerminalNode \<Rightarrow> dbind (te_deser env) (\<lambda>account. dret (TerminalNode prefix account))
      | NT_BranchNode \<Rightarrow>
          dbind deser_u8 (\<lambda>child_count.
          dbind (read_children (te_hex env) (unat child_count) no_children) (\<lambda>children.
          dret (BranchNode prefix children)))))"

definition size_child :: "tree_child \<Rightarrow> nat" where
  "size_child c = (1 + an_len (tc_suffix c)) + 32"

fun size_node :: "('a \<Rightarrow> nat) \<Rightarrow> 'a tree_node \<Rightarrow> nat" where
  "size_node sz (TerminalNode p a) = 1 + (1 + an_len p) + sz a"
| "size_node sz (BranchNode p children) = 1 + (1 + an_len p) + 1 + sum_list (map size_child (List.map_filter id children))"

text \<open>\<open>Hash::hash\<close> writes the node into the hasher and unwraps the result.\<close>

definition node_hash :: "'a tree_env \<Rightarrow> 'a tree_node \<Rightarrow> (blake2b_hash, 'e) result" where
  "node_hash env node = rbind (unwrap_result (ser_node env node)) (\<lambda>bs. Inr (blake2b (te_crypto env) bs))"

section \<open>Well-formed nodes are read back\<close>

definition child_wf :: "nat \<Rightarrow> tree_child \<Rightarrow> bool" where
  "child_wf i c \<longleftrightarrow> an_ok (tc_suffix c) \<and> nib (tc_suffix c) \<noteq> [] \<and> hd (nib (tc_suffix c)) = i \<and> hash_ok (tc_hash c)"

definition children_wf :: "tree_child option list \<Rightarrow> bool" where
  "children_wf cs \<longleftrightarrow> length cs = 16 \<and> (\<forall>i < 16. \<forall>c. cs ! i = Some c \<longrightarrow> child_wf i c)"

fun node_wf :: "('a \<Rightarrow> bool) \<Rightarrow> 'a tree_node \<Rightarrow> bool" where
  "node_wf ok (TerminalNode p a) \<longleftrightarrow> an_ok p \<and> ok a"
| "node_wf ok (BranchNode p cs) \<longleftrightarrow> an_ok p \<and> children_wf cs"

definition leaf_codec :: "'a tree_env \<Rightarrow> ('a \<Rightarrow> nat) \<Rightarrow> ('a \<Rightarrow> bool) \<Rightarrow> bool" where
  "leaf_codec env sz ok \<longleftrightarrow> hex_ok (te_hex env) \<and> (\<forall>a. ok a \<longrightarrow> encodes (te_ser env a) (te_deser env) a (sz a))"

lemma encodes_child:
  assumes "hex_ok hx" "child_wf i c"
  shows "encodes (ser_child hx c) (deser_child hx) c (size_child c)"
proof -
  have c: "\<lparr>tc_suffix = tc_suffix c, tc_hash = tc_hash c\<rparr> = c"
    by (cases c) simp
  have "encodes (ser_child hx c) (deser_child hx) c ((1 + an_len (tc_suffix c)) + (32 + 0))"
    unfolding ser_child_def deser_child_def using assms
    by (intro encodes_wseqs_Cons [OF nibbles.encoded] encodes_wseqs_Cons [OF hash.encoded])
       (auto simp: child_wf_def c encodes_ret)
  then show ?thesis
    by (simp add: size_child_def)
qed

lemma an_get_0: "an_ok a \<Longrightarrow> nib a \<noteq> [] \<Longrightarrow> an_get a 0 = Some (hd (nib a))"
  by (auto simp: an_get_nib hd_conv_nth simp flip: length_nib)

lemma encodes_read_children:
  assumes "hex_ok hx" "\<And>c. c \<in> set xs \<Longrightarrow> \<exists>i. child_wf i c"
  shows "encodes (wseqs (map (ser_child hx) xs)) (read_children hx (length xs) acc)
    (foldl (\<lambda>acc c. acc[hd (nib (tc_suffix c)) := Some c]) acc xs) (sum_list (map size_child xs))"
  using assms(2)
proof (induction xs arbitrary: acc)
  case Nil
  then show ?case by (simp add: encodes_ret)
next
  case (Cons c xs)
  then obtain i where i: "child_wf i c" by auto
  then have "an_get (tc_suffix c) 0 = Some (hd (nib (tc_suffix c)))"
    by (simp add: child_wf_def an_get_0)
  with Cons show ?case
    by (simp only: list.map length_Cons read_children.simps sum_list.Cons foldl_Cons)
       (intro encodes_wseqs_Cons [OF encodes_child [OF assms(1) i]], simp)
qed

lemma foldl_children:
  assumes "\<And>i c. i < length cs \<Longrightarrow> cs ! i = Some c \<Longrightarrow> hd (nib (tc_suffix c)) = length pre + i"
  shows "foldl (\<lambda>acc c. acc[hd (nib (tc_suffix c)) := Some c]) (pre @ replicate (length cs) None) (List.map_filter id cs) = pre @ cs"
  using assms
proof (induction cs arbitrary: pre)
  case (Cons x cs)
  have step: "hd (nib (tc_suffix c)) = length (pre @ [x]) + i" if "i < length cs" "cs ! i = Some c" for i c
    using Cons.prems [of "Suc i" c] that by simp
  show ?case
  proof (cases x)
    case None
    then show ?thesis
      using Cons.IH [of "pre @ [None]"] step by (simp add: List.map_filter_simps)
  next
    case (Some c)
    then have "hd (nib (tc_suffix c)) = length pre"
      using Cons.prems [of 0 c] by simp
    then show ?thesis
      using Cons.IH [of "pre @ [Some c]"] step Some by (simp add: List.map_filter_simps)
  qed
qed (simp add: List.map_filter_simps)


lemma length_map_filter_count: "foldl (\<lambda>acc child. acc + (if child = None then 0 else 1)) (of_nat n) cs = (of_nat (n + length (List.map_filter id cs)) :: u8)"
proof (induction cs arbitrary: n)
  case (Cons x cs)
  then show ?case
    using Cons.IH [of "Suc n"] by (cases x) (simp_all add: List.map_filter_simps add.commute)
qed (simp add: List.map_filter_simps)

lemma length_map_filter_le: "length (List.map_filter f xs) \<le> length xs"
  by (simp add: List.map_filter_def)

lemma set_map_filter_id: "c \<in> set (List.map_filter id cs) \<longleftrightarrow> (\<exists>i < length cs. cs ! i = Some c)"
  by (force simp: List.map_filter_def in_set_conv_nth)

lemma encodes_wseqs_single: "encodes w r x n \<Longrightarrow> encodes (wseqs [w]) r x n"
  by (auto simp: encodes_def wseq_def)

lemma encodes_node:
  assumes env: "leaf_codec env sz ok" and wf: "node_wf ok n"
  shows "encodes (ser_node env n) (deser_node env) n (size_node sz n)"
proof (cases n)
  case (TerminalNode p a)
  have "encodes (ser_node env n) (deser_node env) n (1 + ((1 + an_len p) + (sz a + 0)))"
    unfolding ser_node_def deser_node_def TerminalNode using assms TerminalNode
    apply (intro encodes_wseqs_Cons [OF encodes_enum [where x = NT_TerminalNode]])
     apply simp
    apply (simp only: node_type.case node_prefix.simps tree_node.case)
    apply (intro encodes_wseqs_Cons [OF nibbles.encoded] encodes_wseqs_Cons encodes_wseqs_Nil)
     apply (auto simp: leaf_codec_def)
    done
  with TerminalNode show ?thesis
    by simp
next
  case (BranchNode p cs)
  define xs where "xs = List.map_filter id cs"
  have cs: "children_wf cs" "an_ok p" and hx: "hex_ok (te_hex env)"
    using assms BranchNode by (auto simp: leaf_codec_def)
  then have len: "length xs \<le> 16"
    using length_map_filter_le [of id cs] by (simp add: xs_def children_wf_def)
  have count: "foldl (\<lambda>acc child. acc + (if child = None then 0 else 1)) 0 cs = (of_nat (length xs) :: u8)"
    using length_map_filter_count [of 0 cs] by (simp add: xs_def)
  have unat: "unat (of_nat (length xs) :: u8) = length xs"
    using len by (subst unsigned_of_nat) (simp add: take_bit_nat_eq_self)
  have restored: "foldl (\<lambda>acc c. acc[hd (nib (tc_suffix c)) := Some c]) no_children xs = cs"
    using foldl_children [of cs "[]"] cs(1) by (auto simp: xs_def no_children_def children_wf_def child_wf_def)
  have "\<exists>i. child_wf i c" if "c \<in> set xs" for c
    using that cs(1) by (auto simp: xs_def set_map_filter_id children_wf_def)
  with encodes_read_children [OF hx, of xs no_children]
  have "encodes (wseqs (map (ser_child (te_hex env)) xs)) (read_children (te_hex env) (length xs) no_children) cs (sum_list (map size_child xs))"
    by (simp only: restored)
  then have kids: "encodes (wseqs (ser_u8 (of_nat (length xs)) # map (ser_child (te_hex env)) xs))
    (dbind deser_u8 (\<lambda>child_count. dbind (read_children (te_hex env) (unat child_count) no_children) (\<lambda>children. dret (BranchNode p children))))
    (BranchNode p cs) (1 + sum_list (map size_child xs))"
    by (intro encodes_wseqs_Cons [OF u8.encoded]) (simp_all only: unat encodes_bind_ret)
  have "encodes (ser_node env n) (deser_node env) n (1 + ((1 + an_len p) + (1 + sum_list (map size_child xs) + 0)))"
    unfolding ser_node_def deser_node_def BranchNode using cs(2) hx kids
    apply (intro encodes_wseqs_Cons [OF encodes_enum [where x = NT_BranchNode]])
     apply simp
    apply (simp only: node_type.case node_prefix.simps tree_node.case iter_children.simps Let_def count flip: xs_def)
    apply (intro encodes_wseqs_Cons [OF nibbles.encoded] encodes_wseqs_single)
     apply simp_all
    done
  then show ?thesis
    by (simp add: BranchNode xs_def)
qed

end
