(* ===== verification/Accounts_Tree.thy ===== *)
theory Accounts_Tree
  imports Tree_Node
begin

text \<open>
  The accounts tree (\<open>accounts/src/tree/mod.rs\<close>): a radix tree over the nibbles of addresses, stored node by node in a key-value
  database.  The database is third-party code; the model uses what it is to its client, a map from prefixes to nodes.  A walk down the
  tree follows prefixes that grow, so 41 steps suffice for addresses of 40 nibbles; running out of them is \<open>OutOfFuel\<close>, which is shown
  never to happen in a tree that satisfies the invariant.
\<close>

section \<open>Operations\<close>

type_synonym 'a tree_db = "address_nibbles \<rightharpoonup> 'a tree_node"

datatype tree_error = OutOfFuel

type_synonym 'a tree_result = "('a, tree_error) result"

definition unwrap :: "'a option \<Rightarrow> ('a, 'e) result" where
  "unwrap x = (case x of None \<Rightarrow> Inl Panic | Some y \<Rightarrow> Inr y)"

definition get_root :: "'a tree_db \<Rightarrow> 'a tree_node option" where
  "get_root db = db an_empty"

definition tree_new :: "'a tree_db \<Rightarrow> 'a tree_db" where
  "tree_new db = (if get_root db = None then db(an_empty \<mapsto> BranchNode an_empty no_children) else db)"

definition tree_get :: "'a tree_db \<Rightarrow> address \<Rightarrow> 'a option" where
  "tree_get db address =
    (case db (an_from_bytes address) of Some (TerminalNode _ account) \<Rightarrow> Some account | _ \<Rightarrow> None)"

text \<open>The root path is a stack: its head is the node pushed last.\<close>

fun update_keys_batch :: "'a tree_db \<Rightarrow> address_nibbles \<Rightarrow> 'a tree_node list \<Rightarrow> 'a tree_db tree_result" where
  "update_keys_batch db tmp_prefix [] = Inr db"
| "update_keys_batch db tmp_prefix (path_node # root_path) =
    rbind (with_child path_node tmp_prefix hash_default) (\<lambda>n.
    rbind (unwrap n) (\<lambda>node.
    update_keys_batch (db(node_prefix node \<mapsto> node)) (node_prefix node) root_path))"

fun prune_batch :: "'a tree_db \<Rightarrow> address_nibbles \<Rightarrow> 'a tree_node list \<Rightarrow> 'a tree_db tree_result" where
  "prune_batch db tmp_prefix [] = Inr db"
| "prune_batch db tmp_prefix (path_node # root_path) =
    rbind (without_child path_node tmp_prefix) (\<lambda>n.
    rbind (unwrap n) (\<lambda>node.
    let num_children = length (iter_children node) in
    if num_children = 1 \<and> node_prefix node \<noteq> an_empty then
      rbind (unwrap (case iter_children node of [] \<Rightarrow> None | c # _ \<Rightarrow> Some c)) (\<lambda>first_child.
      update_keys_batch (db(node_prefix node := None)) (an_add (node_prefix node) (tc_suffix first_child)) root_path)
    else if num_children > 0 \<or> node_prefix node = an_empty then
      update_keys_batch (db(node_prefix node \<mapsto> node)) (node_prefix node) root_path
    else prune_batch db (node_prefix node) root_path))"

fun insert_batch :: "'a tree_env \<Rightarrow> nat \<Rightarrow> 'a tree_db \<Rightarrow> address_nibbles \<Rightarrow> address_nibbles \<Rightarrow> 'a \<Rightarrow> 'a tree_node list \<Rightarrow> 'a tree_db tree_result" where
  "insert_batch env 0 db node_pfx pfx account root_path = Inl (Err OutOfFuel)"
| "insert_batch env (Suc fuel) db node_pfx pfx account root_path =
    (if \<not> an_is_prefix_of node_pfx pfx then
       let new_child = TerminalNode pfx account; db = db(node_prefix new_child \<mapsto> new_child) in
       rbind (with_child (BranchNode (an_common_prefix node_pfx pfx) no_children) node_pfx hash_default) (\<lambda>n.
       rbind (unwrap n) (\<lambda>new_parent.
       rbind (with_child new_parent (node_prefix new_child) hash_default) (\<lambda>n.
       rbind (unwrap n) (\<lambda>new_parent.
       update_keys_batch (db(node_prefix new_parent \<mapsto> new_parent)) (node_prefix new_parent) root_path))))
     else if node_pfx = pfx then
       if te_is_initial env account then prune_batch (db(node_pfx := None)) node_pfx root_path
       else
         rbind (unwrap (db node_pfx)) (\<lambda>node.
         rbind (unwrap (with_account node account)) (\<lambda>node.
         update_keys_batch (db(node_prefix node \<mapsto> node)) node_pfx root_path))
     else
       rbind (unwrap (db node_pfx)) (\<lambda>node.
       rbind (get_child_prefix node pfx) (\<lambda>child.
       case child of
         Some child_prefix \<Rightarrow> insert_batch env fuel db child_prefix pfx account (node # root_path)
       | None \<Rightarrow>
           let child = TerminalNode pfx account; db = db(node_prefix child \<mapsto> child) in
           rbind (with_child node (node_prefix child) hash_default) (\<lambda>n.
           rbind (unwrap n) (\<lambda>node.
           update_keys_batch (db(node_prefix node \<mapsto> node)) node_pfx root_path)))))"

definition put_batch :: "'a tree_env \<Rightarrow> 'a tree_db \<Rightarrow> address \<Rightarrow> 'a \<Rightarrow> 'a tree_db tree_result" where
  "put_batch env db address account =
    (if te_is_initial env account \<and> tree_get db address = None then Inr db
     else insert_batch env 41 db an_empty (an_from_bytes address) account [])"

fun update_hashes :: "'a tree_env \<Rightarrow> nat \<Rightarrow> 'a tree_db \<Rightarrow> address_nibbles \<Rightarrow> (blake2b_hash \<times> 'a tree_db) tree_result"
  and update_children :: "'a tree_env \<Rightarrow> nat \<Rightarrow> 'a tree_db \<Rightarrow> address_nibbles \<Rightarrow> tree_child option list \<Rightarrow>
    (tree_child option list \<times> 'a tree_db) tree_result" where
  "update_hashes env 0 db node_key = Inl (Err OutOfFuel)"
| "update_hashes env (Suc fuel) db node_key =
    rbind (unwrap (db node_key)) (\<lambda>node.
    case node of
      TerminalNode _ _ \<Rightarrow> rbind (node_hash env node) (\<lambda>h. Inr (h, db))
    | BranchNode p children \<Rightarrow>
        rbind (update_children env fuel db node_key children) (\<lambda>(children, db).
        let node = BranchNode p children in
        rbind (node_hash env node) (\<lambda>h. Inr (h, db(node_prefix node \<mapsto> node)))))"
| "update_children env fuel db node_key [] = Inr ([], db)"
| "update_children env fuel db node_key (None # children) =
    rbind (update_children env fuel db node_key children) (\<lambda>(children, db). Inr (None # children, db))"
| "update_children env fuel db node_key (Some child # children) =
    (if tc_hash child = hash_default then
       rbind (update_hashes env fuel db (an_add node_key (tc_suffix child))) (\<lambda>(h, db).
       rbind (update_children env fuel db node_key children) (\<lambda>(children, db).
       Inr (Some (child\<lparr>tc_hash := h\<rparr>) # children, db)))
     else
       rbind (update_children env fuel db node_key children) (\<lambda>(children, db).
       Inr (Some child # children, db)))"

definition finalize_batch :: "'a tree_env \<Rightarrow> 'a tree_db \<Rightarrow> 'a tree_db tree_result" where
  "finalize_batch env db = rbind (update_hashes env 41 db an_empty) (\<lambda>(h, db). Inr db)"

definition tree_put :: "'a tree_env \<Rightarrow> 'a tree_db \<Rightarrow> address \<Rightarrow> 'a \<Rightarrow> 'a tree_db tree_result" where
  "tree_put env db address account = rbind (put_batch env db address account) (\<lambda>db. finalize_batch env db)"

definition tree_root_hash :: "'a tree_env \<Rightarrow> 'a tree_db \<Rightarrow> blake2b_hash tree_result" where
  "tree_root_hash env db = rbind (unwrap (get_root db)) (\<lambda>node. node_hash env node)"

section \<open>The invariant\<close>

text \<open>
  The structure: a terminal is a full address with an account that is not initial; the child of a branch in direction \<open>i\<close> is the shortest
  key below it in that direction, if there is any; only the root may have fewer than two children.
\<close>

definition child_str :: "address_nibbles set \<Rightarrow> address_nibbles \<Rightarrow> nat \<Rightarrow> tree_child option \<Rightarrow> bool" where
  "child_str K p i co =
    (case co of
       None \<Rightarrow> \<forall>k \<in> K. \<not> prefix (nib p @ [i]) (nib k)
     | Some c \<Rightarrow>
         child_wf i c \<and> an_len p + an_len (tc_suffix c) \<le> 40 \<and> an_add p (tc_suffix c) \<in> K \<and>
         (\<forall>k \<in> K. prefix (nib p @ [i]) (nib k) \<longrightarrow> prefix (nib (an_add p (tc_suffix c))) (nib k)))"

fun node_str :: "'a tree_env \<Rightarrow> ('a \<Rightarrow> bool) \<Rightarrow> address_nibbles set \<Rightarrow> address_nibbles \<Rightarrow> 'a tree_node \<Rightarrow> bool" where
  "node_str env ok K p (TerminalNode q a) \<longleftrightarrow> q = p \<and> an_ok p \<and> an_len p = 40 \<and> ok a \<and> \<not> te_is_initial env a"
| "node_str env ok K p (BranchNode q cs) \<longleftrightarrow>
    q = p \<and> an_ok p \<and> an_len p < 40 \<and> length cs = 16 \<and> (\<forall>i < 16. child_str K p i (cs ! i)) \<and>
    (p \<noteq> an_empty \<longrightarrow> 2 \<le> length (List.map_filter id cs))"

definition tree_str :: "'a tree_env \<Rightarrow> ('a \<Rightarrow> bool) \<Rightarrow> 'a tree_db \<Rightarrow> bool" where
  "tree_str env ok db \<longleftrightarrow>
    (\<exists>cs. db an_empty = Some (BranchNode an_empty cs)) \<and> (\<forall>p n. db p = Some n \<longrightarrow> node_str env ok (dom db) p n)"

text \<open>The hashes: a node is clean when the hashes in it are those of its children and these are clean; a hash that is not the default
  one is the hash of a clean child.\<close>

inductive clean :: "'a tree_env \<Rightarrow> 'a tree_db \<Rightarrow> address_nibbles \<Rightarrow> bool" for env db where
  clean_terminal: "db p = Some (TerminalNode q a) \<Longrightarrow> clean env db p"
| clean_branch: "db p = Some (BranchNode q cs) \<Longrightarrow>
    (\<And>c. Some c \<in> set cs \<Longrightarrow> \<exists>n. db (an_add p (tc_suffix c)) = Some n \<and> node_hash env n = (Inr (tc_hash c) :: blake2b_hash tree_result)) \<Longrightarrow>
    (\<And>c. Some c \<in> set cs \<Longrightarrow> clean env db (an_add p (tc_suffix c))) \<Longrightarrow> clean env db p"

definition link_clean :: "'a tree_env \<Rightarrow> 'a tree_db \<Rightarrow> address_nibbles \<Rightarrow> blake2b_hash \<Rightarrow> bool" where
  "link_clean env db q h \<longleftrightarrow> (\<exists>n. db q = Some n \<and> node_hash env n = (Inr h :: blake2b_hash tree_result)) \<and> clean env db q"

definition hash_inv :: "'a tree_env \<Rightarrow> 'a tree_db \<Rightarrow> bool" where
  "hash_inv env db \<longleftrightarrow>
    (\<forall>p q cs c. db p = Some (BranchNode q cs) \<longrightarrow> Some c \<in> set cs \<longrightarrow> tc_hash c \<noteq> hash_default \<longrightarrow>
      link_clean env db (an_add p (tc_suffix c)) (tc_hash c))"

definition tree_inv :: "'a tree_env \<Rightarrow> ('a \<Rightarrow> bool) \<Rightarrow> 'a tree_db \<Rightarrow> bool" where
  "tree_inv env ok db \<longleftrightarrow> tree_str env ok db \<and> hash_inv env db"


section \<open>Keys and children\<close>

lemma unwrap_simps [simp]: "unwrap None = Inl Panic" "unwrap (Some x) = Inr x"
  by (simp_all add: unwrap_def)

lemma an_len_empty [simp]: "an_len an_empty = 0"
  by (simp add: an_len_def an_empty_def)

lemma node_str_prefix: "node_str env ok K p n \<Longrightarrow> node_prefix n = p \<and> an_ok p \<and> an_len p \<le> 40"
  by (cases n) auto

lemma tree_str_node:
  assumes "tree_str env ok db" "db p = Some n"
  shows "node_str env ok (dom db) p n"
  using assms by (simp add: tree_str_def)

lemma tree_str_key:
  assumes "tree_str env ok db" "p \<in> dom db"
  shows "an_ok p" "an_len p \<le> 40"
  using assms node_str_prefix unfolding tree_str_def by blast+

lemma tree_str_branch:
  assumes "tree_str env ok db" "db p = Some (BranchNode q cs)"
  shows "q = p" "an_ok p" "an_len p < 40" "length cs = 16" "i < 16 \<Longrightarrow> child_str (dom db) p i (cs ! i)"
    "p \<noteq> an_empty \<Longrightarrow> 2 \<le> length (List.map_filter id cs)"
  using tree_str_node [OF assms] by simp_all

lemma tree_str_terminal:
  assumes "tree_str env ok db" "db p = Some (TerminalNode q a)"
  shows "q = p" "an_ok p" "an_len p = 40" "ok a" "\<not> te_is_initial env a"
  using tree_str_node [OF assms] by simp_all

lemma child_target:
  assumes "child_str K p i (Some c)" "an_ok p"
  shows "an_ok (an_add p (tc_suffix c))" "nib (an_add p (tc_suffix c)) = nib p @ nib (tc_suffix c)"
    "prefix (nib p @ [i]) (nib (an_add p (tc_suffix c)))" "an_add p (tc_suffix c) \<in> K"
    "prefix (nib p) (nib (an_add p (tc_suffix c)))" "an_add p (tc_suffix c) \<noteq> p"
proof -
  have c: "child_wf i c" "an_len p + an_len (tc_suffix c) \<le> 40"
    using assms(1) by (simp_all add: child_str_def)
  then show "an_ok (an_add p (tc_suffix c))" and eq: "nib (an_add p (tc_suffix c)) = nib p @ nib (tc_suffix c)"
    using assms(2) an_add_nib [of p "tc_suffix c"] by (simp_all add: child_wf_def)
  obtain xs where "nib (tc_suffix c) = i # xs"
    using c(1) by (cases "nib (tc_suffix c)") (auto simp: child_wf_def)
  with eq show "prefix (nib p @ [i]) (nib (an_add p (tc_suffix c)))" "prefix (nib p) (nib (an_add p (tc_suffix c)))"
    "an_add p (tc_suffix c) \<noteq> p"
    by auto
  show "an_add p (tc_suffix c) \<in> K"
    using assms(1) by (simp add: child_str_def)
qed

lemma child_str_transfer:
  assumes "an_ok p" "child_str K p i co" "\<And>k. prefix (nib p @ [i]) (nib k) \<Longrightarrow> k \<in> K \<longleftrightarrow> k \<in> K'"
  shows "child_str K' p i co"
proof (cases co)
  case None
  then show ?thesis
    using assms(2,3) by (auto simp: child_str_def)
next
  case (Some c)
  define q where "q = an_add p (tc_suffix c)"
  have "prefix (nib p @ [i]) (nib q)"
    using child_target(3) assms(1,2) Some by (simp add: q_def)
  moreover have "child_wf i c" "an_len p + an_len (tc_suffix c) \<le> 40" "q \<in> K"
    "\<forall>k \<in> K. prefix (nib p @ [i]) (nib k) \<longrightarrow> prefix (nib q) (nib k)"
    using assms(2) Some by (simp_all add: child_str_def q_def)
  ultimately have "child_wf i c \<and> an_len p + an_len (tc_suffix c) \<le> 40 \<and> q \<in> K' \<and>
    (\<forall>k \<in> K'. prefix (nib p @ [i]) (nib k) \<longrightarrow> prefix (nib q) (nib k))"
    using assms(3) by blast
  then show ?thesis
    by (simp add: Some child_str_def q_def)
qed

lemma child_str_cong:
  assumes "an_ok p" "\<And>k. prefix (nib p @ [i]) (nib k) \<Longrightarrow> k \<in> K \<longleftrightarrow> k \<in> K'"
  shows "child_str K p i co = child_str K' p i co"
  using assms(2) child_str_transfer [OF assms(1), where i = i] by blast

text \<open>Two databases that differ only on the path to an address \<open>t\<close>.\<close>

definition agree :: "address_nibbles \<Rightarrow> 'a tree_db \<Rightarrow> 'a tree_db \<Rightarrow> bool" where
  "agree t db db' \<longleftrightarrow> (\<forall>k. \<not> prefix (nib k) (nib t) \<longrightarrow> db' k = db k)"

lemma agreeD: "agree t db db' \<Longrightarrow> \<not> prefix (nib k) (nib t) \<Longrightarrow> db' k = db k"
  by (simp add: agree_def)

lemma agree_dom: "agree t db db' \<Longrightarrow> \<not> prefix (nib k) (nib t) \<Longrightarrow> k \<in> dom db' \<longleftrightarrow> k \<in> dom db"
  by (simp add: agree_def domIff)

lemma child_str_agree:
  assumes "agree t db db'" "an_ok p" "\<not> prefix (nib p @ [i]) (nib t)"
  shows "child_str (dom db') p i co = child_str (dom db) p i co"
proof (rule child_str_cong [OF assms(2)])
  fix k
  assume "prefix (nib p @ [i]) (nib k)"
  with assms(3) have "\<not> prefix (nib k) (nib t)"
    using prefix_order.trans by blast
  then show "k \<in> dom db' \<longleftrightarrow> k \<in> dom db"
    by (rule agree_dom [OF assms(1)])
qed

lemma clean_dom: "clean env db p \<Longrightarrow> p \<in> dom db"
  by (induction rule: clean.induct) auto

lemma in_set_children:
  assumes "tree_str env ok db" "db p = Some (BranchNode q cs)" "Some c \<in> set cs"
  shows "\<exists>i < 16. cs ! i = Some c \<and> child_str (dom db) p i (Some c)"
  using assms(3) tree_str_branch [OF assms(1,2)] by (metis in_set_conv_nth)

text \<open>What is clean stays clean when nothing changes below it.\<close>

lemma clean_frame:
  assumes "tree_str env ok db"
  shows "clean env db p \<Longrightarrow> (\<And>k. k \<in> dom db \<Longrightarrow> prefix (nib p) (nib k) \<Longrightarrow> db' k = db k) \<Longrightarrow> clean env db' p"
proof (induction rule: clean.induct)
  case (clean_terminal p q a)
  then show ?case
    by (metis clean.clean_terminal domI prefix_order.refl)
next
  case (clean_branch p q cs)
  have p: "an_ok p"
    using tree_str_branch [OF assms(1) clean_branch(1)] by simp
  have below: "an_add p (tc_suffix c) \<in> dom db" "prefix (nib p) (nib (an_add p (tc_suffix c)))" if "Some c \<in> set cs" for c
    using in_set_children [OF assms(1) clean_branch(1) that] child_target(4,5) [OF _ p] by blast+
  show ?case
  proof (rule clean.clean_branch)
    show "db' p = Some (BranchNode q cs)"
      using clean_branch(5) [of p] clean_branch(1) by auto
    fix c
    assume c: "Some c \<in> set cs"
    show "clean env db' (an_add p (tc_suffix c))"
      using clean_branch(4) [OF c] clean_branch(5) below(2) [OF c] prefix_order.trans by blast
    show "\<exists>n. db' (an_add p (tc_suffix c)) = Some n \<and> node_hash env n = (Inr (tc_hash c) :: blake2b_hash tree_result)"
      using clean_branch(2) [OF c] clean_branch(5) [OF below [OF c]] by simp
  qed
qed

lemma link_clean_frame:
  assumes "tree_str env ok db" "link_clean env db p h" "\<And>k. k \<in> dom db \<Longrightarrow> prefix (nib p) (nib k) \<Longrightarrow> db' k = db k"
  shows "link_clean env db' p h"
proof -
  have "p \<in> dom db"
    using assms(2) by (auto simp: link_clean_def)
  then have "db' p = db p"
    using assms(3) by simp
  then show ?thesis
    using assms(2) clean_frame [OF assms(1) _ assms(3)] by (simp add: link_clean_def)
qed

lemma link_clean_agree:
  assumes "tree_str env ok db" "agree t db db'" "link_clean env db p h" "\<not> prefix (nib p) (nib t)"
  shows "link_clean env db' p h"
  using link_clean_frame [OF assms(1,3)] agreeD [OF assms(2)] assms(4) prefix_order.trans by metis

section \<open>Changing the nodes on one path\<close>

text \<open>A node on the path to \<open>t\<close> whose hashes, if they are not reset, are those it had and lead away from \<open>t\<close>.\<close>

definition links_kept :: "address_nibbles \<Rightarrow> 'a tree_db \<Rightarrow> 'a tree_node \<Rightarrow> bool" where
  "links_kept t db n \<longleftrightarrow>
    (\<forall>k cs c. n = BranchNode k cs \<longrightarrow> Some c \<in> set cs \<longrightarrow> tc_hash c \<noteq> hash_default \<longrightarrow>
      (\<exists>cs0. db k = Some (BranchNode k cs0) \<and> Some c \<in> set cs0) \<and> \<not> prefix (nib (an_add k (tc_suffix c))) (nib t))"

lemma tree_inv_change:
  assumes inv: "tree_inv env ok db" and agree: "agree t db db'"
    and root: "\<exists>cs. db' an_empty = Some (BranchNode an_empty cs)"
    and path: "\<And>k n. db' k = Some n \<Longrightarrow> prefix (nib k) (nib t) \<Longrightarrow> node_str env ok (dom db') k n \<and> links_kept t db n"
  shows "tree_inv env ok db'"
proof -
  have str: "tree_str env ok db" and hash: "hash_inv env db"
    using inv by (simp_all add: tree_inv_def)
  have off: "node_str env ok (dom db') k n" if "db' k = Some n" "\<not> prefix (nib k) (nib t)" for k n
  proof -
    have n: "node_str env ok (dom db) k n"
      using that agreeD [OF agree] tree_str_node [OF str] by metis
    show ?thesis
    proof (cases n)
      case (BranchNode q cs)
      then have "child_str (dom db') k i (cs ! i)" if "i < 16" for i
        using n child_str_agree [OF agree, of k i] \<open>\<not> prefix (nib k) (nib t)\<close> that
        by (auto dest: append_prefixD)
      then show ?thesis
        using n BranchNode by simp
    qed (use n in simp)
  qed
  then have "tree_str env ok db'"
    using root path by (auto simp: tree_str_def)
  moreover have "hash_inv env db'"
    unfolding hash_inv_def
  proof (intro allI impI)
    fix k q cs c
    assume k: "db' k = Some (BranchNode q cs)" and c: "Some c \<in> set cs" and h: "tc_hash c \<noteq> hash_default"
    have q: "q = k" "an_ok k"
      using off [OF k] path [OF k] by auto
    have "link_clean env db (an_add k (tc_suffix c)) (tc_hash c) \<and> \<not> prefix (nib (an_add k (tc_suffix c))) (nib t)"
    proof (cases "prefix (nib k) (nib t)")
      case True
      then obtain cs0 where "db k = Some (BranchNode k cs0)" "Some c \<in> set cs0" "\<not> prefix (nib (an_add k (tc_suffix c))) (nib t)"
        using path [OF k] c h q by (auto simp: links_kept_def)
      then show ?thesis
        using hash h by (auto simp: hash_inv_def)
    next
      case False
      then have db: "db k = Some (BranchNode q cs)"
        using k agreeD [OF agree] by simp
      then have "prefix (nib k) (nib (an_add k (tc_suffix c)))"
        using in_set_children [OF str db c] child_target(5) q(2) by blast
      with False have "\<not> prefix (nib (an_add k (tc_suffix c))) (nib t)"
        using prefix_order.trans by blast
      then show ?thesis
        using hash h db c by (auto simp: hash_inv_def)
    qed
    then show "link_clean env db' (an_add k (tc_suffix c)) (tc_hash c)"
      using link_clean_agree [OF str agree] by blast
  qed
  ultimately show ?thesis
    by (simp add: tree_inv_def)
qed

text \<open>The link from a node to a key below it, with the hash reset.\<close>

definition reset_link :: "address_nibbles \<Rightarrow> address_nibbles \<Rightarrow> tree_child" where
  "reset_link q x = \<lparr>tc_suffix = an_suffix x (of_nat (an_len q)), tc_hash = hash_default\<rparr>"

definition below :: "address_nibbles \<Rightarrow> nat \<Rightarrow> address_nibbles \<Rightarrow> bool" where
  "below q i x \<longleftrightarrow> an_ok q \<and> an_ok x \<and> an_len x \<le> 40 \<and> prefix (nib q @ [i]) (nib x)"

lemma belowD:
  assumes "below q i x"
  shows "an_len q < an_len x" "nib x ! an_len q = i" "i < 16" "an_is_prefix_of q x" "an_len q < 40"
    "an_get x (an_len q) = Some i" "prefix (nib q) (nib x)" "q \<noteq> x"
proof -
  from assms obtain ys where ys: "nib x = nib q @ i # ys" and ok: "an_ok q" "an_ok x" "an_len x \<le> 40"
    by (auto simp: below_def prefix_def)
  then have "length (nib x) = length (nib q) + Suc (length ys)"
    by simp
  with ok show less: "an_len q < an_len x"
    by simp
  with ok show "an_len q < 40"
    by simp
  show i: "nib x ! an_len q = i"
    using ok by (simp add: ys nth_append flip: length_nib)
  show "i < 16"
    using nib_range [OF ok(2), of i] ys by simp
  show "an_is_prefix_of q x" "prefix (nib q) (nib x)"
    using ok ys by (simp_all add: an_is_prefix_of_nib)
  show "an_get x (an_len q) = Some i"
    using ok less i by (simp add: an_get_nib)
  show "q \<noteq> x"
    using ys by auto
qed

lemma reset_link_props:
  assumes "below q i x"
  shows "an_add q (tc_suffix (reset_link q x)) = x" "child_wf i (reset_link q x)"
    "an_len q + an_len (tc_suffix (reset_link q x)) = an_len x" "tc_hash (reset_link q x) = hash_default"
proof -
  note b = belowD [OF assms]
  have ok: "an_ok q" "an_ok x" "an_len x \<le> 40" and pre: "prefix (nib q @ [i]) (nib x)"
    using assms by (simp_all add: below_def)
  define s where "s = an_suffix x (of_nat (an_len q))"
  have "unat (of_nat (an_len q) :: u8) = an_len q"
    by (simp add: an_len_def)
  then have s: "an_ok s" "nib s = drop (an_len q) (nib x)"
    using ok by (simp_all add: s_def an_suffix_nib)
  then have len: "an_len s = an_len x - an_len q"
    using ok by (simp flip: length_nib)
  have "nib (an_add q s) = nib q @ nib s" "an_ok (an_add q s)"
    using an_add_nib [of q s] ok s b len by simp_all
  moreover have "nib q @ nib s = nib x"
    using b(7) s(2) ok(1) by (auto simp: prefix_def)
  ultimately have "an_add q s = x"
    using nib_inject ok(2) by simp
  then show "an_add q (tc_suffix (reset_link q x)) = x"
    by (simp add: reset_link_def s_def)
  show "child_wf i (reset_link q x)"
    using s b(1,2) ok by (simp add: child_wf_def reset_link_def hash_ok_def hash_default_def hd_drop_conv_nth flip: s_def)
  show "an_len q + an_len (tc_suffix (reset_link q x)) = an_len x" "tc_hash (reset_link q x) = hash_default"
    using len b(1) by (simp_all add: reset_link_def flip: s_def)
qed

lemma with_child_below:
  assumes "below q i x"
  shows "with_child (BranchNode q cs) x hash_default = Inr (Some (BranchNode q (cs[i := Some (reset_link q x)])))"
  using belowD [OF assms] by (simp add: with_child_def get_child_index_def reset_link_def Let_def)

lemma child_str_reset:
  assumes "below q i x" "x \<in> K" "\<And>k. k \<in> K \<Longrightarrow> prefix (nib q @ [i]) (nib k) \<Longrightarrow> prefix (nib x) (nib k)"
  shows "child_str K q i (Some (reset_link q x))"
  using assms reset_link_props [OF assms(1)] by (simp add: child_str_def below_def)


section \<open>The path from the root\<close>

inductive root_path :: "'a tree_db \<Rightarrow> address_nibbles \<Rightarrow> address_nibbles \<Rightarrow> 'a tree_node list \<Rightarrow> bool" for db t where
  root_path_Nil: "root_path db t an_empty []"
| root_path_Cons: "root_path db t q ns \<Longrightarrow> db q = Some (BranchNode q cs) \<Longrightarrow> prefix (nib q @ [i]) (nib t) \<Longrightarrow> i < 16 \<Longrightarrow>
    cs ! i = Some c \<Longrightarrow> root_path db t (an_add q (tc_suffix c)) (BranchNode q cs # ns)"

inductive_cases root_path_ConsE: "root_path db t p (n # ns)"
inductive_cases root_path_NilE: "root_path db t p []"

lemma root_path_node:
  assumes "root_path db t p ns" "n \<in> set ns"
  shows "\<exists>q cs. n = BranchNode q cs \<and> db q = Some n \<and> prefix (nib q) (nib t)"
  using assms by (induction rule: root_path.induct) (auto dest: append_prefixD)

lemma root_path_step:
  assumes "tree_str env ok db" "db q = Some (BranchNode q cs)" "i < 16" "cs ! i = Some c"
  shows "below q i (an_add q (tc_suffix c))" "an_add q (tc_suffix c) \<in> dom db"
    "\<And>k. k \<in> dom db \<Longrightarrow> prefix (nib q @ [i]) (nib k) \<Longrightarrow> prefix (nib (an_add q (tc_suffix c))) (nib k)"
proof -
  have c: "child_str (dom db) q i (Some c)" and q: "an_ok q"
    using tree_str_branch [OF assms(1,2)] assms(3,4) by metis+
  show "an_add q (tc_suffix c) \<in> dom db"
    by (rule child_target(4) [OF c q])
  with child_target(1,3) [OF c q] q tree_str_key [OF assms(1)] show "below q i (an_add q (tc_suffix c))"
    by (simp add: below_def)
  show "\<And>k. k \<in> dom db \<Longrightarrow> prefix (nib q @ [i]) (nib k) \<Longrightarrow> prefix (nib (an_add q (tc_suffix c))) (nib k)"
    using c by (simp add: child_str_def)
qed

lemma root_path_end:
  assumes "tree_str env ok db" "root_path db t p ns"
  shows "p \<in> dom db" "n \<in> set ns \<Longrightarrow> prefix (nib (node_prefix n)) (nib p) \<and> node_prefix n \<noteq> p"
proof -
  have "p \<in> dom db \<and> (\<forall>n \<in> set ns. prefix (nib (node_prefix n)) (nib p) \<and> an_len (node_prefix n) < an_len p)"
    using assms(2)
  proof (induction rule: root_path.induct)
    case root_path_Nil
    then show ?case
      using assms(1) by (auto simp: tree_str_def)
  next
    case (root_path_Cons q ns cs i c)
    note step = root_path_step [OF assms(1) root_path_Cons(2,4,5)]
    with belowD [OF step(1)] root_path_Cons(6) show ?case
      by (force intro: prefix_order.trans less_trans)
  qed
  then show "p \<in> dom db" "n \<in> set ns \<Longrightarrow> prefix (nib (node_prefix n)) (nib p) \<and> node_prefix n \<noteq> p"
    by auto
qed

text \<open>Every key on the way to \<open>t\<close> is on the path or below its end.\<close>

lemma root_path_cover:
  assumes "tree_str env ok db" "root_path db t p ns" "an_ok t" "k \<in> dom db" "prefix (nib k) (nib t)"
  shows "k \<in> node_prefix ` set ns \<or> prefix (nib p) (nib k)"
  using assms(2)
proof (induction rule: root_path.induct)
  case (root_path_Cons q ns cs i c)
  show ?case
  proof (cases "prefix (nib q) (nib k) \<and> k \<noteq> q")
    case True
    then have ne: "nib k \<noteq> nib q"
      using nib_inject tree_str_key(1) [OF assms(1)] assms(4) root_path_Cons(2) by blast
    have "prefix (nib q @ [i]) (nib k)"
      using True ne assms(5) root_path_Cons(3) prefix_same_cases [OF assms(5) root_path_Cons(3)]
      by (auto simp: prefix_append prefix_Cons dest: prefix_order.antisym)
    then show ?thesis
      using root_path_step(3) [OF assms(1) root_path_Cons(2,4,5) assms(4)] by blast
  next
    case False
    then show ?thesis
      using root_path_Cons.IH by auto
  qed
qed simp


text \<open>What \<open>update_keys_batch\<close> writes: each node of the path with the link towards the node below it reset.\<close>

fun reset_nodes :: "address_nibbles \<Rightarrow> 'a tree_node list \<Rightarrow> 'a tree_node list" where
  "reset_nodes x [] = []"
| "reset_nodes x (n # ns) =
    (case n of
       BranchNode q cs \<Rightarrow> BranchNode q (cs[nib x ! an_len q := Some (reset_link q x)])
     | TerminalNode q a \<Rightarrow> n) # reset_nodes (node_prefix n) ns"

fun put_nodes :: "'a tree_db \<Rightarrow> 'a tree_node list \<Rightarrow> 'a tree_db" where
  "put_nodes db [] = db"
| "put_nodes db (n # ns) = put_nodes (db(node_prefix n \<mapsto> n)) ns"

lemma reset_nodes_prefix [simp]: "map node_prefix (reset_nodes x ns) = map node_prefix ns"
  by (induction x ns rule: reset_nodes.induct) (auto split: tree_node.splits)

lemma put_nodes_other: "k \<notin> node_prefix ` set ns \<Longrightarrow> put_nodes db ns k = db k"
  by (induction ns arbitrary: db) auto

lemma put_nodes_in: "k \<in> node_prefix ` set ns \<Longrightarrow> \<exists>n \<in> set ns. put_nodes db ns k = Some n \<and> node_prefix n = k"
proof (induction ns arbitrary: db)
  case (Cons n ns)
  define d where "d = db(node_prefix n \<mapsto> n)"
  have d: "put_nodes db (n # ns) = put_nodes d ns"
    by (simp add: d_def)
  show ?case
  proof (cases "k \<in> node_prefix ` set ns")
    case True
    then show ?thesis
      unfolding d using Cons.IH [of d] by auto
  next
    case False
    then have "put_nodes d ns k = Some n" "node_prefix n = k"
      using Cons.prems put_nodes_other [of k ns d] by (auto simp: d_def)
    then show ?thesis
      unfolding d by simp
  qed
qed simp

lemma put_nodes_dom: "dom (put_nodes db ns) = dom db \<union> node_prefix ` set ns"
proof (induction ns arbitrary: db)
  case (Cons n ns)
  define d where "d = db(node_prefix n \<mapsto> n)"
  have "put_nodes db (n # ns) = put_nodes d ns" "dom d = insert (node_prefix n) (dom db)"
    by (simp_all add: d_def)
  with Cons.IH [of d] show ?case
    by auto
qed simp

lemma update_keys_batch_root_path:
  assumes "tree_str env ok db" "root_path db t p ns" "\<And>q cs ns'. ns = BranchNode q cs # ns' \<Longrightarrow> \<exists>i. below q i x"
  shows "update_keys_batch db1 x ns = Inr (put_nodes db1 (reset_nodes x ns))"
  using assms(2,3)
proof (induction arbitrary: db1 x rule: root_path.induct)
  case (root_path_Cons q ns cs i c)
  obtain j where j: "below q j x"
    using root_path_Cons(7) by blast
  have "\<exists>i. below r i q" if "ns = BranchNode r ds # ns'" for r ds ns'
    using root_path_Cons(1) that root_path_step(1) [OF assms(1), of r ds] by (blast elim: root_path_ConsE)
  with root_path_Cons.IH belowD(2) [OF j] show ?case
    by (simp add: with_child_below [OF j] fun_upd_def)
qed simp

lemma length_map_filter_update:
  assumes "i < length cs" "cs ! i = Some c"
  shows "length (List.map_filter id (cs[i := Some d])) = length (List.map_filter id cs)"
    "length (List.map_filter id (cs[i := None])) = length (List.map_filter id cs) - 1"
proof -
  have cs: "cs = take i cs @ Some c # drop (Suc i) cs"
    using assms by (metis id_take_nth_drop)
  have "cs[i := y] = take i cs @ y # drop (Suc i) cs" for y
    using assms(1) by (metis upd_conv_take_nth_drop)
  then show "length (List.map_filter id (cs[i := Some d])) = length (List.map_filter id cs)"
    "length (List.map_filter id (cs[i := None])) = length (List.map_filter id cs) - 1"
    by (subst (2) cs, simp add: List.map_filter_def)+
qed

text \<open>A node of the path whose link towards \<open>t\<close> is replaced by a reset link satisfies the structure again.\<close>

lemma node_str_reset:
  assumes str: "tree_str env ok db" and agree: "agree t db db'" and t: "an_ok t"
    and q: "db q = Some (BranchNode q cs)" "prefix (nib q @ [i]) (nib t)"
    and x: "below q i x" "x \<in> dom db'" "\<And>k. k \<in> dom db' \<Longrightarrow> prefix (nib q @ [i]) (nib k) \<Longrightarrow> prefix (nib x) (nib k)"
    and count: "q = an_empty \<or> 2 \<le> length (List.map_filter id (cs[i := Some (reset_link q x)]))"
  shows "node_str env ok (dom db') q (BranchNode q (cs[i := Some (reset_link q x)]))"
    "links_kept t db (BranchNode q (cs[i := Some (reset_link q x)]))"
proof -
  note b = tree_str_branch [OF str q(1)]
  have other: "\<not> prefix (nib q @ [j]) (nib t)" if "j \<noteq> i" for j
    using q(2) that by (auto simp: prefix_def)
  have "child_str (dom db') q j (cs[i := Some (reset_link q x)] ! j)" if "j < 16" for j
  proof (cases "j = i")
    case True
    then show ?thesis
      using child_str_reset [OF x] b(4) that by simp
  next
    case False
    then show ?thesis
      using child_str_agree [OF agree b(2) other] b(5) that by simp
  qed
  then show "node_str env ok (dom db') q (BranchNode q (cs[i := Some (reset_link q x)]))"
    using b count by auto
  have "Some c \<in> set cs \<and> \<not> prefix (nib (an_add q (tc_suffix c))) (nib t)"
    if c: "Some c \<in> set (cs[i := Some (reset_link q x)])" "tc_hash c \<noteq> hash_default" for c
  proof -
    obtain j where j: "j < length cs" "cs[i := Some (reset_link q x)] ! j = Some c"
      using c(1) unfolding in_set_conv_nth by auto
    then have "j \<noteq> i"
      using c(2) by (auto simp: reset_link_def)
    then have j': "cs ! j = Some c"
      using j by simp
    then have "child_str (dom db) q j (Some c)"
      using b(4,5) j by metis
    from child_target(3) [OF this b(2)] other [OF \<open>j \<noteq> i\<close>] have "\<not> prefix (nib (an_add q (tc_suffix c))) (nib t)"
      using prefix_order.trans by blast
    then show ?thesis
      using j' j(1) by (metis nth_mem)
  qed
  then show "links_kept t db (BranchNode q (cs[i := Some (reset_link q x)]))"
    using q(1) by (auto simp: links_kept_def)
qed


text \<open>\<open>x\<close> is the key to which the lowest node of the path is to be linked in the new set of keys \<open>K'\<close>.\<close>

definition link_target :: "address_nibbles \<Rightarrow> address_nibbles set \<Rightarrow> address_nibbles set \<Rightarrow> address_nibbles \<Rightarrow> 'a tree_node list \<Rightarrow> bool" where
  "link_target t K K' x ns \<longleftrightarrow>
    x \<in> K' \<and>
    (\<forall>q cs ns'. ns = BranchNode q cs # ns' \<longrightarrow>
      (\<exists>i. prefix (nib q @ [i]) (nib t) \<and> below q i x \<and> (\<forall>k \<in> K'. prefix (nib q @ [i]) (nib k) \<longrightarrow> prefix (nib x) (nib k)) \<and>
        (\<forall>k \<in> K' - K. prefix (nib q @ [i]) (nib k))))"

lemma prefix_snoc_unique: "prefix (xs @ [i]) zs \<Longrightarrow> prefix (xs @ [j]) zs \<Longrightarrow> i = j"
  by (auto simp: prefix_def)

lemma link_target_up:
  assumes str: "tree_str env ok db" and path: "root_path db t q ns" and new: "\<forall>k \<in> K' - dom db. prefix (nib q) (nib k)" and q: "q \<in> K'"
  shows "link_target t (dom db) K' q ns"
  unfolding link_target_def
proof (intro conjI allI impI)
  fix r ds ns'
  assume ns: "ns = BranchNode r ds # ns'"
  with path obtain i c where r: "db r = Some (BranchNode r ds)" "i < 16" "ds ! i = Some c" and i: "prefix (nib r @ [i]) (nib t)"
    and q: "q = an_add r (tc_suffix c)"
    by (auto elim: root_path_ConsE)
  note step = root_path_step [OF str r]
  have "prefix (nib r @ [i]) (nib q)"
    using step(1) by (simp add: below_def q)
  then have below_new: "\<forall>k \<in> K' - dom db. prefix (nib r @ [i]) (nib k)"
    using new prefix_order.trans by blast
  moreover have "\<forall>k \<in> K'. prefix (nib r @ [i]) (nib k) \<longrightarrow> prefix (nib q) (nib k)"
    using step(3) new q by blast
  ultimately show "\<exists>i. prefix (nib r @ [i]) (nib t) \<and> below r i q \<and> (\<forall>k \<in> K'. prefix (nib r @ [i]) (nib k) \<longrightarrow> prefix (nib q) (nib k)) \<and>
        (\<forall>k \<in> K' - dom db. prefix (nib r @ [i]) (nib k))"
    using i step(1) q by blast
qed (rule q)

lemma reset_nodes_ok:
  assumes str: "tree_str env ok db" and agree: "agree t db db'" and t: "an_ok t" and path: "root_path db t p ns"
  shows "link_target t (dom db) (dom db') x ns \<Longrightarrow> node_prefix ` set ns \<subseteq> dom db' \<Longrightarrow> n \<in> set (reset_nodes x ns) \<Longrightarrow>
    node_str env ok (dom db') (node_prefix n) n \<and> links_kept t db n"
  using path
proof (induction arbitrary: x rule: root_path.induct)
  case (root_path_Cons q ns cs i c)
  have x: "x \<in> dom db'" "below q i x" "\<And>k. k \<in> dom db' \<Longrightarrow> prefix (nib q @ [i]) (nib k) \<Longrightarrow> prefix (nib x) (nib k)"
    "\<forall>k \<in> dom db' - dom db. prefix (nib q @ [i]) (nib k)"
    using root_path_Cons.prems(1) prefix_snoc_unique [OF root_path_Cons(3)] unfolding link_target_def by blast+
  show ?case
  proof (cases "n \<in> set (reset_nodes q ns)")
    case True
    have "\<forall>k \<in> dom db' - dom db. prefix (nib q) (nib k)"
      using x(4) by (blast dest: append_prefixD)
    then have "link_target t (dom db) (dom db') q ns"
      using link_target_up [OF str root_path_Cons(1)] root_path_Cons.prems(2) by simp
    then show ?thesis
      using root_path_Cons.IH root_path_Cons.prems(2) True by simp
  next
    case False
    then have n: "n = BranchNode q (cs[i := Some (reset_link q x)])"
      using root_path_Cons.prems(3) belowD(2) [OF x(2)] by simp
    have "q = an_empty \<or> 2 \<le> length (List.map_filter id (cs[i := Some (reset_link q x)]))"
      using tree_str_branch [OF str root_path_Cons(2)] length_map_filter_update(1) [of i cs c] root_path_Cons(4,5) by auto
    from node_str_reset [OF str agree t root_path_Cons(2,3) x(2,1,3) this] show ?thesis
      by (simp add: n)
  qed
qed simp

text \<open>The common end of all updates: the nodes off the path are in place, the path is relinked upwards.\<close>

lemma path_commit:
  assumes inv: "tree_inv env ok db" and t: "an_ok t" and path: "root_path db t p ns" and agree: "agree t db db1"
    and target: "link_target t (dom db) (dom db1) x ns" and keys: "node_prefix ` set ns \<subseteq> dom db1" "an_empty \<in> dom db1"
    and rest: "\<And>k n. db1 k = Some n \<Longrightarrow> prefix (nib k) (nib t) \<Longrightarrow> k \<notin> node_prefix ` set ns \<Longrightarrow>
      node_str env ok (dom db1) k n \<and> links_kept t db n"
  shows "\<exists>db'. update_keys_batch db1 x ns = Inr db' \<and> tree_inv env ok db' \<and> (\<forall>k. an_len k = 40 \<longrightarrow> db' k = db1 k)"
proof -
  have str: "tree_str env ok db"
    using inv by (simp add: tree_inv_def)
  define db' where "db' = put_nodes db1 (reset_nodes x ns)"
  have prefixes: "node_prefix ` set (reset_nodes x ns) = node_prefix ` set ns"
    by (metis list.set_map reset_nodes_prefix)
  have "update_keys_batch db1 x ns = Inr db'"
    unfolding db'_def using target by (intro update_keys_batch_root_path [OF str path]) (auto simp: link_target_def)
  moreover have dom: "dom db' = dom db1"
    using keys(1) prefixes by (auto simp: db'_def put_nodes_dom)
  moreover have other: "db' k = db1 k" if "k \<notin> node_prefix ` set ns" for k
    unfolding db'_def using that prefixes by (intro put_nodes_other) simp
  moreover have on_path: "prefix (nib k) (nib t) \<and> an_len k < 40" if "k \<in> node_prefix ` set ns" for k
  proof -
    from that obtain n where "n \<in> set ns" "k = node_prefix n" by auto
    with root_path_node [OF path] obtain q cs where "n = BranchNode q cs" "db q = Some n" "prefix (nib q) (nib t)" "k = q"
      by fastforce
    then show ?thesis
      using tree_str_branch [OF str] by simp
  qed
  moreover have agree': "agree t db db'"
    using agree other on_path unfolding agree_def by metis
  moreover have nodes: "node_str env ok (dom db') k n \<and> links_kept t db n" if "db' k = Some n" "prefix (nib k) (nib t)" for k n
  proof (cases "k \<in> node_prefix ` set ns")
    case True
    then obtain m where "m \<in> set (reset_nodes x ns)" "db' k = Some m" "node_prefix m = k"
      using put_nodes_in [of k "reset_nodes x ns" db1] prefixes by (auto simp: db'_def)
    then show ?thesis
      using reset_nodes_ok [OF str agree' t path, of x m] target keys(1) dom that(1) by auto
  next
    case False
    then show ?thesis
      using rest [of k n] other that dom by simp
  qed
  moreover have "\<exists>cs. db' an_empty = Some (BranchNode an_empty cs)"
  proof -
    obtain n where n: "db' an_empty = Some n"
      using keys(2) dom by blast
    with nodes [OF n] show ?thesis
      by (cases n) auto
  qed
  ultimately show ?thesis
    using tree_inv_change [OF inv agree'] by (metis less_irrefl)
qed

end
