(* ===== verification/Accounts_Tree_Update.thy ===== *)
theory Accounts_Tree_Update
  imports Accounts_Tree
begin

text \<open>
  Updates of the accounts tree keep its invariant and store or remove exactly one account: the four ways in which \<open>insert_batch\<close> ends
  (an existing account is replaced or removed, a branch gets a new child, an edge is split), and the walk that leads there.
\<close>

section \<open>Addresses and accounts\<close>

definition full_key :: "address_nibbles \<Rightarrow> bool" where
  "full_key t \<longleftrightarrow> an_ok t \<and> an_len t = 40"

lemma full_key_address: "address_ok a \<Longrightarrow> full_key (an_from_bytes a)"
proof -
  assume "address_ok a"
  then have len: "length a = 20"
    by (simp add: address_ok_def)
  then have "an_ok (an_from_bytes a)" "nib (an_from_bytes a) = flat a"
    using an_from_bytes_nib [of a] by simp_all
  moreover have "an_len (an_from_bytes a) = 40"
    by (simp add: an_from_bytes_def an_len_def len)
  ultimately show ?thesis
    by (simp add: full_key_def)
qed

text \<open>What an update of the account at \<open>t\<close> leaves behind.\<close>

definition updated :: "'a tree_env \<Rightarrow> ('a \<Rightarrow> bool) \<Rightarrow> 'a tree_db \<Rightarrow> address_nibbles \<Rightarrow> 'a option \<Rightarrow> 'a tree_db tree_result \<Rightarrow> bool" where
  "updated env ok db t account r \<longleftrightarrow>
    (\<exists>db'. r = Inr db' \<and> tree_inv env ok db' \<and>
      (\<forall>k. an_len k = 40 \<longrightarrow> db' k = (if k = t then map_option (TerminalNode t) account else db k)))"

lemma updatedI:
  assumes "\<exists>db'. r = Inr db' \<and> tree_inv env ok db' \<and> (\<forall>k. an_len k = 40 \<longrightarrow> db' k = db1 k)"
    "\<And>k. an_len k = 40 \<Longrightarrow> db1 k = (if k = t then map_option (TerminalNode t) account else db k)"
  shows "updated env ok db t account r"
  using assms unfolding updated_def by metis

lemma full_key_prefix:
  assumes "full_key t" "an_ok k" "an_len k \<le> 40" "prefix (nib t) (nib k)"
  shows "k = t"
proof -
  have "length (nib t) = 40" "length (nib k) \<le> 40"
    using assms by (simp_all add: full_key_def)
  with assms(4) have "nib t = nib k"
    by (metis prefix_length_prefix prefix_order.antisym prefix_order.refl)
  then show ?thesis
    using nib_inject assms(1,2) by (simp add: full_key_def)
qed

lemma link_targetI:
  assumes "ns = BranchNode q cs # ns'" "x \<in> K'" "prefix (nib q @ [i]) (nib t)" "below q i x"
    "\<And>k. k \<in> K' \<Longrightarrow> prefix (nib q @ [i]) (nib k) \<Longrightarrow> prefix (nib x) (nib k)" "\<And>k. k \<in> K' - K \<Longrightarrow> prefix (nib q @ [i]) (nib k)"
  shows "link_target t K K' x ns"
proof -
  have "\<exists>i. prefix (nib q @ [i]) (nib t) \<and> below q i x \<and> (\<forall>k \<in> K'. prefix (nib q @ [i]) (nib k) \<longrightarrow> prefix (nib x) (nib k)) \<and>
        (\<forall>k \<in> K' - K. prefix (nib q @ [i]) (nib k))"
    using assms(3-6) by blast
  with assms(1,2) show ?thesis
    by (simp add: link_target_def)
qed

lemma root_path_keys:
  assumes "tree_str env ok db" "root_path db t p ns" "n \<in> set ns"
  shows "node_prefix n \<in> dom db" "an_len (node_prefix n) < 40" "prefix (nib (node_prefix n)) (nib t)"
proof -
  obtain q cs where "n = BranchNode q cs" "db q = Some n" "prefix (nib q) (nib t)"
    using root_path_node [OF assms(2,3)] by blast
  then show "node_prefix n \<in> dom db" "an_len (node_prefix n) < 40" "prefix (nib (node_prefix n)) (nib t)"
    using tree_str_branch [OF assms(1)] by auto
qed

lemma root_path_dom:
  assumes "tree_str env ok db" "root_path db t p ns" "an_len t = 40"
  shows "node_prefix ` set ns \<subseteq> dom db - {t}" "an_empty \<in> dom db - {t}"
proof -
  have "node_prefix n \<in> dom db \<and> node_prefix n \<noteq> t" if "n \<in> set ns" for n
    using root_path_keys(1,2) [OF assms(1,2) that] assms(3) by auto
  then show "node_prefix ` set ns \<subseteq> dom db - {t}"
    by blast
  show "an_empty \<in> dom db - {t}"
    using assms(1,3) by (auto simp: tree_str_def)
qed

lemma next_nibble:
  assumes "an_ok p" "full_key t" "prefix (nib p) (nib t)" "p \<noteq> t"
  shows "prefix (nib p @ [nib t ! an_len p]) (nib t)" "nib t ! an_len p < 16" "below p (nib t ! an_len p) t" "an_get t (an_len p) = Some (nib t ! an_len p)"
proof -
  obtain ys where ys: "nib t = nib p @ ys"
    using assms(3) by (auto simp: prefix_def)
  moreover have "ys \<noteq> []"
    using assms ys nib_inject by (auto simp: full_key_def)
  ultimately obtain y zs where y: "nib t = nib p @ y # zs"
    by (metis neq_Nil_conv)
  then have n: "nib t ! an_len p = y"
    using assms(1) by (simp flip: length_nib)
  with y show "prefix (nib p @ [nib t ! an_len p]) (nib t)"
    by simp
  with assms show b: "below p (nib t ! an_len p) t"
    by (simp add: below_def full_key_def)
  show "nib t ! an_len p < 16" "an_get t (an_len p) = Some (nib t ! an_len p)"
    using belowD [OF b] by simp_all
qed

section \<open>The four ends of an update\<close>

lemma update_existing:
  assumes inv: "tree_inv env ok db" and t: "full_key t" and path: "root_path db t t ns" and acc: "ok acc" "\<not> te_is_initial env acc"
  shows "updated env ok db t (Some acc) (update_keys_batch (db(t \<mapsto> TerminalNode t acc)) t ns)"
proof -
  have str: "tree_str env ok db"
    using inv by (simp add: tree_inv_def)
  define db1 where "db1 = db(t \<mapsto> TerminalNode t acc)"
  have ok: "an_ok t" "an_len t = 40"
    using t by (simp_all add: full_key_def)
  have dom: "dom db1 = dom db"
    using root_path_end(1) [OF str path] by (auto simp: db1_def)
  have "\<exists>db'. update_keys_batch db1 t ns = Inr db' \<and> tree_inv env ok db' \<and> (\<forall>k. an_len k = 40 \<longrightarrow> db' k = db1 k)"
  proof (rule path_commit [OF inv ok(1) path])
    show "agree t db db1"
      by (auto simp: agree_def db1_def)
    show "link_target t (dom db) (dom db1) t ns"
      using link_target_up [OF str path] root_path_end(1) [OF str path] dom by simp
    show "node_prefix ` set ns \<subseteq> dom db1" "an_empty \<in> dom db1"
      using root_path_keys(1) [OF str path] str dom by (auto simp: tree_str_def)
    fix k n
    assume k: "db1 k = Some n" "prefix (nib k) (nib t)" "k \<notin> node_prefix ` set ns"
    then have "k \<in> dom db"
      using dom by blast
    with k have "k = t"
      using root_path_cover [OF str path ok(1)] full_key_prefix [OF t] tree_str_key [OF str] by blast
    with k acc ok show "node_str env ok (dom db1) k n \<and> links_kept t db n"
      by (auto simp: db1_def links_kept_def)
  qed
  then show ?thesis
    unfolding db1_def [symmetric] by (rule updatedI) (simp add: db1_def)
qed

lemma length_map_filter_add:
  assumes "i < length cs"
  shows "length (List.map_filter id cs) \<le> length (List.map_filter id (cs[i := Some d]))"
proof -
  have "cs = take i cs @ cs ! i # drop (Suc i) cs" "cs[i := Some d] = take i cs @ Some d # drop (Suc i) cs"
    using assms by (metis id_take_nth_drop, metis upd_conv_take_nth_drop)
  then have "length (List.map_filter id cs) = length (List.map_filter id (take i cs @ cs ! i # drop (Suc i) cs))"
    "length (List.map_filter id (cs[i := Some d])) = length (List.map_filter id (take i cs @ Some d # drop (Suc i) cs))"
    by simp_all
  then show ?thesis
    by (simp add: List.map_filter_def)
qed

lemma extend_branch:
  assumes inv: "tree_inv env ok db" and t: "full_key t" and path: "root_path db t p ns" and acc: "ok acc" "\<not> te_is_initial env acc"
    and p: "db p = Some (BranchNode p cs)" "prefix (nib p) (nib t)" "cs ! (nib t ! an_len p) = None"
  shows "updated env ok db t (Some acc)
    (update_keys_batch (db(t \<mapsto> TerminalNode t acc, p \<mapsto> BranchNode p (cs[nib t ! an_len p := Some (reset_link p t)]))) p ns)"
proof -
  have str: "tree_str env ok db"
    using inv by (simp add: tree_inv_def)
  have ok: "an_ok t" "an_len t = 40"
    using t by (simp_all add: full_key_def)
  note b = tree_str_branch [OF str p(1)]
  define i where "i = nib t ! an_len p"
  have ne: "p \<noteq> t"
    using b ok by auto
  note i = next_nibble [OF b(2) t p(2) ne, folded i_def]
  have none: "\<not> prefix (nib p @ [i]) (nib k)" if "k \<in> dom db" for k
    using b(5) [OF i(2)] p(3) that by (simp add: child_str_def i_def)
  define db1 where "db1 = db(t \<mapsto> TerminalNode t acc, p \<mapsto> BranchNode p (cs[i := Some (reset_link p t)]))"
  have dom: "dom db1 = insert t (dom db)"
    using p(1) by (auto simp: db1_def)
  have agree: "agree t db db1"
    using p(2) by (auto simp: agree_def db1_def)
  have "\<exists>db'. update_keys_batch db1 p ns = Inr db' \<and> tree_inv env ok db' \<and> (\<forall>k. an_len k = 40 \<longrightarrow> db' k = db1 k)"
  proof (rule path_commit [OF inv ok(1) path agree])
    show "link_target t (dom db) (dom db1) p ns"
      using link_target_up [OF str path] p dom by auto
    show "node_prefix ` set ns \<subseteq> dom db1" "an_empty \<in> dom db1"
      using root_path_keys(1) [OF str path] str dom by (auto simp: tree_str_def)
    fix k n
    assume k: "db1 k = Some n" "prefix (nib k) (nib t)" "k \<notin> node_prefix ` set ns"
    have "k = t \<or> k = p"
    proof (rule ccontr)
      assume "\<not> (k = t \<or> k = p)"
      then have "k \<in> dom db" "k \<noteq> p"
        using k(1) dom by auto
      then have "prefix (nib p) (nib k)" "nib k \<noteq> nib p"
        using root_path_cover [OF str path ok(1) _ k(2)] k(3) nib_inject b(2) tree_str_key [OF str] by blast+
      then have "prefix (nib p @ [i]) (nib k)"
        using prefix_same_cases [OF k(2) i(1)] by (auto simp: prefix_append prefix_Cons dest: prefix_order.antisym)
      with none \<open>k \<in> dom db\<close> show False by blast
    qed
    moreover have "node_str env ok (dom db1) p (BranchNode p (cs[i := Some (reset_link p t)]))"
      "links_kept t db (BranchNode p (cs[i := Some (reset_link p t)]))"
    proof -
      have count: "p = an_empty \<or> 2 \<le> length (List.map_filter id (cs[i := Some (reset_link p t)]))"
        using b(4,6) i(2) length_map_filter_add [of i cs "reset_link p t"] by force
      have "prefix (nib t) (nib k)" if "k \<in> dom db1" "prefix (nib p @ [i]) (nib k)" for k
        using that none dom by auto
      with node_str_reset [OF str agree ok(1) p(1) i(1,3) _ _ count] dom
      show "node_str env ok (dom db1) p (BranchNode p (cs[i := Some (reset_link p t)]))"
        "links_kept t db (BranchNode p (cs[i := Some (reset_link p t)]))" by blast+
    qed
    ultimately show "node_str env ok (dom db1) k n \<and> links_kept t db n"
      using k(1) ne acc ok by (auto simp: db1_def links_kept_def)
  qed
  then show ?thesis
    unfolding db1_def [unfolded i_def, symmetric] by (rule updatedI) (use b(3) in \<open>auto simp: db1_def\<close>)
qed


lemma common_prefix_below:
  assumes "an_ok p" "full_key t" "an_len p \<le> 40" "\<not> prefix (nib p) (nib t)"
  defines "m \<equiv> an_common_prefix p t"
  obtains a b where "below m a p" "below m b t" "a \<noteq> b" "prefix (nib m @ [b]) (nib t)"
    "\<And>q i. prefix (nib q @ [i]) (nib p) \<Longrightarrow> prefix (nib q @ [i]) (nib t) \<Longrightarrow> prefix (nib q @ [i]) (nib m)"
proof -
  have t: "an_ok t" "an_len t = 40"
    using assms(2) by (simp_all add: full_key_def)
  have m: "an_ok m" "nib m = longest_common_prefix (nib p) (nib t)"
    using an_common_prefix_nib [OF assms(1) t(1)] by (simp_all add: m_def)
  have "prefix (nib m) (nib p)" "prefix (nib m) (nib t)"
    unfolding m(2) by (rule longest_common_prefix_prefix1, rule longest_common_prefix_prefix2)
  then obtain ps ts where split: "nib p = nib m @ ps" "nib t = nib m @ ts"
    by (blast elim: prefixE)
  have max: "prefix zs (nib p) \<Longrightarrow> prefix zs (nib t) \<Longrightarrow> prefix zs (nib m)" for zs
    unfolding m(2) by (rule longest_common_prefix_max_prefix)
  have "ps \<noteq> []"
    using assms(4) split by auto
  moreover have "ts \<noteq> []"
  proof
    assume "ts = []"
    then have "length (nib t) + length ps = length (nib p)"
      using split by simp
    then have "ps = []"
      using assms(1,3) t by (cases ps) simp_all
    with \<open>ps \<noteq> []\<close> show False by simp
  qed
  ultimately obtain a b ps' ts' where ab: "nib p = nib m @ a # ps'" "nib t = nib m @ b # ts'"
    using split by (metis neq_Nil_conv)
  have "a \<noteq> b"
  proof
    assume "a = b"
    then have "prefix (nib m @ [a]) (nib m)"
      using ab by (intro max) simp_all
    then show False
      by (simp add: prefix_def)
  qed
  moreover have "below m a p" "below m b t"
    using ab m(1) assms(1,3) t by (simp_all add: below_def)
  ultimately show thesis
    using that ab(2) max by auto
qed


lemma map_filter_two:
  assumes "a \<noteq> b" "a < 16" "b < 16"
  shows "length (List.map_filter id (no_children[a := Some c, b := Some d])) = 2"
proof -
  have "length (List.map_filter id xs) = card {i. i < length xs \<and> xs ! i \<noteq> None}" for xs :: "'b option list"
    by (simp add: List.map_filter_def length_filter_conv_card)
  from this [of "no_children[a := Some c, b := Some d]"]
  have "length (List.map_filter id (no_children[a := Some c, b := Some d])) = card {i. i < 16 \<and> no_children[a := Some c, b := Some d] ! i \<noteq> None}"
    by (simp add: no_children_def)
  also have "{i. i < 16 \<and> no_children[a := Some c, b := Some d] ! i \<noteq> None} = {a, b}"
    using assms by (auto simp: no_children_def nth_list_update)
  finally show ?thesis
    using assms by (simp add: id_def)
qed

lemma split_node_str:
  assumes m: "below m a p" "below m b t" "a \<noteq> b" and K: "m \<in> K" "p \<in> K" "t \<in> K"
    and via: "\<And>k. k \<in> K \<Longrightarrow> k \<noteq> m \<Longrightarrow> k \<noteq> t \<Longrightarrow> prefix (nib m) (nib k) \<Longrightarrow> prefix (nib p) (nib k)"
  shows "node_str env ok K m (BranchNode m (no_children[a := Some (reset_link m p), b := Some (reset_link m t)]))"
proof -
  have ma: "prefix (nib m @ [a]) (nib p)" and mb: "prefix (nib m @ [b]) (nib t)"
    using m by (simp_all add: below_def)
  note lt = belowD [OF m(1)] belowD [OF m(2)]
  have child: "k = t \<and> j = b \<or> prefix (nib p) (nib k) \<and> j = a" if "k \<in> K" "prefix (nib m @ [j]) (nib k)" for k j
  proof (cases "k = t")
    case True
    then show ?thesis
      using prefix_snoc_unique [OF _ mb, of j] that(2) by simp
  next
    case False
    moreover have "k \<noteq> m"
      using that(2) by (auto simp: prefix_def)
    ultimately have "prefix (nib p) (nib k)"
      using via that append_prefixD by blast
    then show ?thesis
      using prefix_snoc_unique [OF that(2) prefix_order.trans [OF ma]] by simp
  qed
  have "child_str K m j (no_children[a := Some (reset_link m p), b := Some (reset_link m t)] ! j)" if "j < 16" for j
  proof -
    consider "j = b" | "j = a" "j \<noteq> b" | "j \<noteq> a" "j \<noteq> b" by blast
    then show ?thesis
    proof cases
      case 1
      then show ?thesis
        using child_str_reset [OF m(2) K(3)] child m(3) that by (auto simp: no_children_def)
    next
      case 2
      then show ?thesis
        using child_str_reset [OF m(1) K(2)] child that by (auto simp: no_children_def)
    next
      case 3
      then have "\<not> prefix (nib m @ [j]) (nib k)" if "k \<in> K" for k
        using child that by blast
      then show ?thesis
        using 3 that by (simp add: child_str_def no_children_def)
    qed
  qed
  then show ?thesis
    using map_filter_two [OF m(3) lt(3,11)] m(1) lt(5) by (simp add: below_def no_children_def)
qed

lemma reset_links_kept:
  "links_kept t db (BranchNode m (no_children[a := Some (reset_link m p), b := Some (reset_link m t)]))"
proof -
  have "tc_hash c = hash_default" if "Some c \<in> set (no_children[a := Some (reset_link m p), b := Some (reset_link m t)])" for c
  proof -
    have "Some c \<in> insert (Some (reset_link m t)) (insert (Some (reset_link m p)) (set no_children))"
      using that set_update_subset_insert [of "no_children[a := Some (reset_link m p)]" b "Some (reset_link m t)"]
        set_update_subset_insert [of no_children a "Some (reset_link m p)"] by blast
    then show ?thesis
      by (auto simp: reset_link_def no_children_def)
  qed
  then show ?thesis
    by (simp add: links_kept_def)
qed

lemma split_edge:
  fixes db :: "'a tree_db"
  assumes inv: "tree_inv env ok db" and t: "full_key t" and path: "root_path db t p ns" and acc: "ok acc" "\<not> te_is_initial env acc"
    and p: "\<not> prefix (nib p) (nib t)"
    and m: "m = an_common_prefix p t" "below m a p" "below m b t" "a \<noteq> b"
      "\<And>q i. prefix (nib q @ [i]) (nib p) \<Longrightarrow> prefix (nib q @ [i]) (nib t) \<Longrightarrow> prefix (nib q @ [i]) (nib m)"
  shows "updated env ok db t (Some acc)
    (update_keys_batch (db(t \<mapsto> TerminalNode t acc, m \<mapsto> BranchNode m (no_children[a := Some (reset_link m p), b := Some (reset_link m t)]))) m ns)"
proof -
  have str: "tree_str env ok db"
    using inv by (simp add: tree_inv_def)
  have ok: "an_ok t" "an_len t = 40"
    using t by (simp_all add: full_key_def)
  obtain q cs ns' i c where ns: "ns = BranchNode q cs # ns'" and q: "db q = Some (BranchNode q cs)" "i < 16" "cs ! i = Some c"
    and i: "prefix (nib q @ [i]) (nib t)" and pq: "p = an_add q (tc_suffix c)"
    using path p by (cases rule: root_path.cases) auto
  note step = root_path_step [OF str q, folded pq]
  have qm: "prefix (nib q @ [i]) (nib m)"
    using m(5) i step(1) by (simp add: below_def)
  have via_p: "prefix (nib p) (nib k)" if "k \<in> dom db" "prefix (nib m) (nib k)" for k
    using step(3) that qm prefix_order.trans by blast
  have ma: "prefix (nib m @ [a]) (nib p)" and mb: "prefix (nib m @ [b]) (nib t)"
    using m by (simp_all add: below_def)
  note len = belowD [OF m(2)] belowD [OF m(3)]
  have m_new: "m \<notin> dom db" and t_new: "t \<notin> dom db"
    using via_p [of m] via_p [of t] p len(8,15,7) m(2) nib_inject [of m p]
    by (auto simp: below_def dest: prefix_order.antisym)
  define node :: "'a tree_node" where "node = BranchNode m (no_children[a := Some (reset_link m p), b := Some (reset_link m t)])"
  define db1 where "db1 = db(t \<mapsto> TerminalNode t acc, m \<mapsto> node)"
  have dom: "dom db1 = insert m (insert t (dom db))"
    by (auto simp: db1_def)
  have "\<exists>db'. update_keys_batch db1 m ns = Inr db' \<and> tree_inv env ok db' \<and> (\<forall>k. an_len k = 40 \<longrightarrow> db' k = db1 k)"
  proof (rule path_commit [OF inv ok(1) path])
    show "agree t db db1"
      using len(15) by (auto simp: agree_def db1_def)
    have "prefix (nib m) (nib k)" if "k \<in> dom db1" "prefix (nib q @ [i]) (nib k)" for k
      using that len(15) prefix_order.trans [OF len(7) step(3)] by (auto simp: dom)
    moreover have "below q i m"
      using step(1) m(2) qm len(5) by (simp add: below_def)
    ultimately show "link_target t (dom db) (dom db1) m ns"
      using qm i dom by (intro link_targetI [OF ns]) auto
    show "node_prefix ` set ns \<subseteq> dom db1" "an_empty \<in> dom db1"
      using root_path_keys(1) [OF str path] str dom by (auto simp: tree_str_def)
    fix k n
    assume k: "db1 k = Some n" "prefix (nib k) (nib t)" "k \<notin> node_prefix ` set ns"
    have "k = t \<or> k = m"
      using root_path_cover [OF str path ok(1) _ k(2)] k(1,3) dom p prefix_order.trans [OF _ k(2)] by blast
    moreover have "node_str env ok (dom db1) m node"
      unfolding node_def using dom step(2) via_p by (intro split_node_str [OF m(2,3,4)]) auto
    moreover have "links_kept t db node"
      unfolding node_def by (rule reset_links_kept)
    ultimately show "node_str env ok (dom db1) k n \<and> links_kept t db n"
      using k(1) acc ok by (auto simp: db1_def links_kept_def split: if_splits)
  qed
  then show ?thesis
    unfolding db1_def [unfolded node_def, symmetric] by (rule updatedI) (use len(13) ok in \<open>auto simp: db1_def\<close>)
qed


lemma without_child_below:
  assumes "below q i x"
  shows "without_child (BranchNode q cs) x = Inr (Some (BranchNode q (cs[i := None])))"
  using belowD [OF assms] by (simp add: without_child_def get_child_index_def)

text \<open>A key below a branch is below one of its children.\<close>

lemma below_child:
  assumes str: "tree_str env ok db" and q: "db q = Some (BranchNode q cs)" and k: "k \<in> dom db" "prefix (nib q) (nib k)" "k \<noteq> q"
  obtains m c where "m < 16" "cs ! m = Some c" "prefix (nib q @ [m]) (nib k)" "prefix (nib (an_add q (tc_suffix c))) (nib k)"
proof -
  have ok: "an_ok q" "an_ok k"
    using tree_str_branch(2) [OF str q] tree_str_key [OF str k(1)] by simp_all
  obtain ys where "nib k = nib q @ ys" "ys \<noteq> []"
    using k ok nib_inject by (fastforce simp: prefix_def)
  then obtain m zs where m: "nib k = nib q @ m # zs"
    by (metis neq_Nil_conv)
  then have "m < 16" "prefix (nib q @ [m]) (nib k)"
    using nib_range [OF ok(2), of m] by simp_all
  moreover from this have "cs ! m \<noteq> None"
    using tree_str_branch(5) [OF str q, of m] k(1) by (cases "cs ! m") (auto simp: child_str_def)
  ultimately show thesis
    using that root_path_step(3) [OF str q] k(1) by blast
qed

lemma keep_branch:
  assumes inv: "tree_inv env ok db" and t: "full_key t" and path: "root_path db t q ns"
    and q: "db q = Some (BranchNode q cs)" "i < 16" "cs ! i = Some c" "prefix (nib q @ [i]) (nib t)" "t = an_add q (tc_suffix c)"
    and count: "q = an_empty \<or> 2 \<le> length (List.map_filter id (cs[i := None]))"
  shows "updated env ok db t None (update_keys_batch (db(t := None, q \<mapsto> BranchNode q (cs[i := None]))) q ns)"
proof -
  have str: "tree_str env ok db"
    using inv by (simp add: tree_inv_def)
  have ok: "an_ok t" "an_len t = 40"
    using t by (simp_all add: full_key_def)
  note b = tree_str_branch [OF str q(1)] and step = root_path_step [OF str q(1-3), folded q(5)]
  define db1 where "db1 = db(t := None, q \<mapsto> BranchNode q (cs[i := None]))"
  have qt: "q \<noteq> t"
    using b(3) ok by auto
  then have dom: "dom db1 = dom db - {t}"
    using q(1) by (auto simp: db1_def)
  have qpre: "prefix (nib q) (nib t)"
    using q(4) by (rule append_prefixD)
  have agree: "agree t db db1"
    using qpre by (auto simp: agree_def db1_def)
  have other: "\<not> prefix (nib q @ [j]) (nib t)" if "j \<noteq> i" for j
    using q(4) that by (auto simp: prefix_def)
  have "\<exists>db'. update_keys_batch db1 q ns = Inr db' \<and> tree_inv env ok db' \<and> (\<forall>k. an_len k = 40 \<longrightarrow> db' k = db1 k)"
  proof (rule path_commit [OF inv ok(1) path agree])
    show "link_target t (dom db) (dom db1) q ns"
      using link_target_up [OF str path] q(1) qt dom by auto
    show "node_prefix ` set ns \<subseteq> dom db1" "an_empty \<in> dom db1"
      using root_path_dom [OF str path ok(2)] dom by simp_all
    fix k n
    assume k: "db1 k = Some n" "prefix (nib k) (nib t)" "k \<notin> node_prefix ` set ns"
    have kd: "k \<in> dom db" "k \<noteq> t"
      using k(1) dom by auto
    have "k = q"
    proof (rule ccontr)
      assume "k \<noteq> q"
      moreover have "prefix (nib q) (nib k)"
        using root_path_cover [OF str path ok(1) kd(1) k(2)] k(3) by blast
      ultimately obtain m d where "prefix (nib q @ [m]) (nib k)" "prefix (nib (an_add q (tc_suffix d))) (nib k)" "cs ! m = Some d"
        using below_child [OF str q(1) kd(1)] by blast
      then have "prefix (nib t) (nib k)"
        using other [of m] prefix_order.trans [OF _ k(2)] q(3,5) by (cases "m = i") auto
      then show False
        using full_key_prefix [OF t] tree_str_key [OF str kd(1)] kd(2) by blast
    qed
    have "child_str (dom db1) q j (cs[i := None] ! j)" if "j < 16" for j
    proof (cases "j = i")
      case True
      have "\<not> prefix (nib q @ [i]) (nib k)" if "k \<in> dom db1" for k
      proof
        assume "prefix (nib q @ [i]) (nib k)"
        moreover have "k \<in> dom db" "k \<noteq> t"
          using that dom by auto
        ultimately show False
          using step(3) [of k] full_key_prefix [OF t, of k] tree_str_key [OF str, of k] by simp
      qed
      then show ?thesis
        using True b(4) that by (simp add: child_str_def)
    next
      case False
      then show ?thesis
        using child_str_agree [OF agree b(2) other] b(5) that by simp
    qed
    then have "node_str env ok (dom db1) q (BranchNode q (cs[i := None]))"
      using b count by auto
    moreover have "links_kept t db (BranchNode q (cs[i := None]))"
    proof -
      have "Some d \<in> set cs \<and> \<not> prefix (nib (an_add q (tc_suffix d))) (nib t)" if d: "Some d \<in> set (cs[i := None])" for d
      proof -
        obtain j where j: "j < 16" "cs[i := None] ! j = Some d"
          using d b(4) unfolding in_set_conv_nth by auto
        then have "j \<noteq> i"
          using b(4) by auto
        then have d': "cs ! j = Some d"
          using j by simp
        with b(5) [OF j(1)] child_target(3) [OF _ b(2), of "dom db" j d] other [OF \<open>j \<noteq> i\<close>]
        have "\<not> prefix (nib (an_add q (tc_suffix d))) (nib t)"
          using prefix_order.trans by auto
        then show ?thesis
          using d' j(1) b(4) by (metis nth_mem)
      qed
      then show ?thesis
        using q(1) by (auto simp: links_kept_def)
    qed
    moreover have "n = BranchNode q (cs[i := None])"
      using k(1) \<open>k = q\<close> by (simp add: db1_def)
    ultimately show "node_str env ok (dom db1) k n \<and> links_kept t db n"
      unfolding \<open>k = q\<close> by blast
  qed
  then show ?thesis
    unfolding db1_def [symmetric] by (rule updatedI) (use b(3) in \<open>auto simp: db1_def\<close>)
qed


lemma map_filter_single:
  assumes "length (List.map_filter id xs) = 1"
  obtains j c where "j < length xs" "xs ! j = Some c" "List.map_filter id xs = [c]" "\<And>m d. m < length xs \<Longrightarrow> xs ! m = Some d \<Longrightarrow> d = c"
proof -
  obtain c where c: "List.map_filter id xs = [c]"
    using assms by (cases "List.map_filter id xs") auto
  then have mem: "d = c \<longleftrightarrow> (\<exists>m < length xs. xs ! m = Some d)" for d
    using set_map_filter_id [of d xs] by simp
  then show thesis
    using that c by metis
qed

lemma merge_branch:
  assumes inv: "tree_inv env ok db" and t: "full_key t" and path: "root_path db t q ns" "q \<noteq> an_empty"
    and q: "db q = Some (BranchNode q cs)" "i < 16" "cs ! i = Some c" "prefix (nib q @ [i]) (nib t)" "t = an_add q (tc_suffix c)"
    and only: "j < 16" "cs ! j = Some d" "j \<noteq> i" "\<And>m. m < 16 \<Longrightarrow> m \<noteq> i \<Longrightarrow> m \<noteq> j \<Longrightarrow> cs ! m = None"
  shows "updated env ok db t None (update_keys_batch (db(t := None, q := None)) (an_add q (tc_suffix d)) ns)"
proof -
  have str: "tree_str env ok db"
    using inv by (simp add: tree_inv_def)
  have ok: "an_ok t" "an_len t = 40"
    using t by (simp_all add: full_key_def)
  note b = tree_str_branch [OF str q(1)] and step = root_path_step [OF str q(1-3), folded q(5)]
  define x where "x = an_add q (tc_suffix d)"
  note stepx = root_path_step [OF str q(1) only(1,2), folded x_def]
  have path_t: "root_path db t t (BranchNode q cs # ns)"
    using root_path_Cons [OF path(1) q(1,4,2,3)] q(5) by simp
  define db1 where "db1 = db(t := None, q := None)"
  have dom: "dom db1 = dom db - {t, q}"
    by (auto simp: db1_def)
  have qpre: "prefix (nib q) (nib t)"
    using q(4) by (rule append_prefixD)
  have xt: "x \<noteq> t" "x \<noteq> q"
    using stepx(1) only(3) prefix_snoc_unique [OF q(4), of j] belowD(8) [OF stepx(1)] by (auto simp: below_def)
  have under: "prefix (nib x) (nib k)" if kq: "k \<in> dom db1" "prefix (nib q) (nib k)" for k
  proof -
    have k: "k \<in> dom db" "k \<noteq> t" "k \<noteq> q"
      using kq dom by auto
    obtain m e where m: "m < 16" "cs ! m = Some e" "prefix (nib (an_add q (tc_suffix e))) (nib k)"
      using below_child [OF str q(1) k(1) kq(2) k(3)] by blast
    have "m \<noteq> i"
      using m(2,3) q(3,5) full_key_prefix [OF t, of k] tree_str_key [OF str k(1)] k(2) by auto
    then have "m = j"
      using only(4) [OF m(1)] m(2) by auto
    with m only(2) show ?thesis
      by (simp add: x_def)
  qed
  obtain r ds ns' i' c' where ns: "ns = BranchNode r ds # ns'" and r: "db r = Some (BranchNode r ds)" "i' < 16" "ds ! i' = Some c'"
    and i': "prefix (nib r @ [i']) (nib t)" and qr: "q = an_add r (tc_suffix c')"
    using path by (cases rule: root_path.cases) auto
  note stepr = root_path_step [OF str r, folded qr]
  have "\<exists>db'. update_keys_batch db1 x ns = Inr db' \<and> tree_inv env ok db' \<and> (\<forall>k. an_len k = 40 \<longrightarrow> db' k = db1 k)"
  proof (rule path_commit [OF inv ok(1) path(1)])
    show "agree t db db1"
      using qpre by (auto simp: agree_def db1_def)
    have "below r i' x"
      using stepr(1) stepx(1) belowD(7) [OF stepx(1)] prefix_order.trans by (auto simp: below_def)
    then show "link_target t (dom db) (dom db1) x ns"
      using i' xt stepx(2) stepr(3) under dom by (intro link_targetI [OF ns]) auto
    show "node_prefix ` set ns \<subseteq> dom db1" "an_empty \<in> dom db1"
      using root_path_dom [OF str path(1) ok(2)] root_path_end(2) [OF str path(1)] path(2) dom by auto
    fix k n
    assume k: "db1 k = Some n" "prefix (nib k) (nib t)" "k \<notin> node_prefix ` set ns"
    then have "k \<in> dom db" "k \<noteq> t" "k \<noteq> q"
      using dom by auto
    then have "prefix (nib t) (nib k)"
      using root_path_cover [OF str path_t ok(1) _ k(2)] k(3) by auto
    then have False
      using full_key_prefix [OF t, of k] tree_str_key [OF str \<open>k \<in> dom db\<close>] \<open>k \<noteq> t\<close> by simp
    then show "node_str env ok (dom db1) k n \<and> links_kept t db n" ..
  qed
  then show ?thesis
    unfolding x_def db1_def [symmetric] by (rule updatedI) (use b(3) in \<open>auto simp: db1_def\<close>)
qed


end
