(* ===== verification/Accounts_Tree_Put.thy ===== *)
theory Accounts_Tree_Put
  imports Accounts_Tree_Update
begin

text \<open>
  The operations of the accounts tree as a whole: removing an account, the walk of \<open>insert_batch\<close>, \<open>put_batch\<close> and \<open>finalize_batch\<close>.
  Together with \<open>get\<close> they implement a map from addresses to accounts that are not initial.
\<close>

lemma remove_account:
  assumes inv: "tree_inv env ok db" and t: "full_key t" and path: "root_path db t t ns"
  shows "updated env ok db t None (prune_batch (db(t := None)) t ns)"
  using path
proof (cases rule: root_path.cases)
  case root_path_Nil
  then show ?thesis
    using t by (auto simp: full_key_def)
next
  case (root_path_Cons q ns' cs i c)
  have str: "tree_str env ok db"
    using inv by (simp add: tree_inv_def)
  note b = tree_str_branch [OF str root_path_Cons(4)]
  define num where "num = length (List.map_filter id (cs[i := None]))"
  have "below q i t"
    using root_path_step(1) [OF str root_path_Cons(4,6,7)] root_path_Cons(1) by simp
  then have prune: "prune_batch (db(t := None)) t ns =
    (if num = 1 \<and> q \<noteq> an_empty then
       rbind (unwrap (case List.map_filter id (cs[i := None]) of [] \<Rightarrow> None | c # _ \<Rightarrow> Some c)) (\<lambda>first_child.
       update_keys_batch (db(t := None, q := None)) (an_add q (tc_suffix first_child)) ns')
     else if num > 0 \<or> q = an_empty then update_keys_batch (db(t := None, q \<mapsto> BranchNode q (cs[i := None]))) q ns'
     else prune_batch (db(t := None)) q ns')"
    by (simp only: root_path_Cons(2) prune_batch.simps without_child_below rbind_Inr unwrap_simps Let_def iter_children.simps node_prefix.simps
        num_def)
  have num: "num = length (List.map_filter id cs) - 1"
    using length_map_filter_update(2) [of i cs c] b(4) root_path_Cons(6,7) by (simp add: num_def)
  consider "num = 1" "q \<noteq> an_empty" | "q = an_empty \<or> 2 \<le> num"
    using b(6) num by fastforce
  then show ?thesis
  proof cases
    case 1
    from 1(1) [unfolded num_def] obtain j d where jd: "j < length (cs[i := None])" "cs[i := None] ! j = Some d"
      "List.map_filter id (cs[i := None]) = [d]" "\<And>m e. m < length (cs[i := None]) \<Longrightarrow> cs[i := None] ! m = Some e \<Longrightarrow> e = d"
      by (rule map_filter_single) blast
    note j = jd [unfolded length_list_update b(4)]
    have ji: "j \<noteq> i" "cs ! j = Some d"
      using j(2) b(4) root_path_Cons(6) by (auto simp: nth_list_update split: if_splits)
    have "cs ! m = None" if "m < 16" "m \<noteq> i" "m \<noteq> j" for m
    proof (rule ccontr)
      assume "cs ! m \<noteq> None"
      then have "cs ! m = Some d"
        using j(4) [OF that(1)] that(2) by auto
      then have "child_wf m d" "child_wf j d"
        using b(5) [OF that(1)] b(5) [OF j(1)] ji(2) by (simp_all add: child_str_def)
      then show False
        using that(3) by (simp add: child_wf_def)
    qed
    from merge_branch [OF inv t root_path_Cons(3) 1(2) root_path_Cons(4,6,7,5,1) j(1) ji(2,1) this] show ?thesis
      using prune 1 j(3) by simp
  next
    case 2
    then have "prune_batch (db(t := None)) t ns = update_keys_batch (db(t := None, q \<mapsto> BranchNode q (cs[i := None]))) q ns'"
      using prune by auto
    then show ?thesis
      using keep_branch [OF inv t root_path_Cons(3,4,6,7,5,1)] 2 by (simp add: num_def)
  qed
qed

section \<open>The walk to the account\<close>

lemma insert_batch_updates:
  assumes inv: "tree_inv env ok db" and t: "full_key t" and acc: "ok acc" "te_is_initial env acc \<Longrightarrow> t \<in> dom db"
  shows "root_path db t p ns \<Longrightarrow> 41 \<le> fuel + an_len p \<Longrightarrow>
    updated env ok db t (if te_is_initial env acc then None else Some acc) (insert_batch env fuel db p t acc ns)"
proof (induction fuel arbitrary: p ns)
  case 0
  have "tree_str env ok db"
    using inv by (simp add: tree_inv_def)
  from tree_str_key(2) [OF this root_path_end(1) [OF this "0.prems"(1)]] 0 show ?case
    by simp
next
  case (Suc fuel)
  have str: "tree_str env ok db"
    using inv by (simp add: tree_inv_def)
  have p: "p \<in> dom db" "an_ok p" "an_len p \<le> 40"
    using root_path_end(1) [OF str Suc.prems(1)] tree_str_key [OF str] by simp_all
  have ok: "an_ok t" "an_len t = 40"
    using t by (simp_all add: full_key_def)
  have pre: "an_is_prefix_of p t \<longleftrightarrow> prefix (nib p) (nib t)"
    by (rule an_is_prefix_of_nib [OF p(2) ok(1)])
  consider (split) "\<not> prefix (nib p) (nib t)" | (found) "p = t" | (walk) "prefix (nib p) (nib t)" "p \<noteq> t"
    by blast
  then show ?case
  proof cases
    case split
    then have fresh: "\<not> te_is_initial env acc"
      using acc(2) root_path_cover [OF str Suc.prems(1) ok(1), of t] root_path_dom(1) [OF str Suc.prems(1) ok(2)] by auto
    define m where "m = an_common_prefix p t"
    obtain a b where m: "below m a p" "below m b t" "a \<noteq> b"
      "\<And>q i. prefix (nib q @ [i]) (nib p) \<Longrightarrow> prefix (nib q @ [i]) (nib t) \<Longrightarrow> prefix (nib q @ [i]) (nib m)"
      using common_prefix_below [OF p(2) t p(3) split] unfolding m_def by metis
    from split_edge [OF inv t Suc.prems(1) acc(1) fresh split m_def m] show ?thesis
      using split pre fresh m(1,2) by (simp add: with_child_below Let_def flip: m_def)
  next
    case found
    then obtain a where "db t = Some (TerminalNode t a)"
      using p(1) ok tree_str_branch(3) [OF str, of t] tree_str_terminal(1) [OF str, of t] by (auto, metis less_irrefl tree_node.exhaust)
    then show ?thesis
      using found pre remove_account [OF inv t] update_existing [OF inv t _ acc(1)] Suc.prems(1) by simp
  next
    case walk
    define i where "i = nib t ! an_len p"
    note i = next_nibble [OF p(2) t walk, folded i_def]
    obtain cs where node: "db p = Some (BranchNode p cs)"
    proof -
      obtain n where "db p = Some n"
        using p(1) by blast
      moreover have "an_len p < 40"
        using belowD(5) [OF i(3)] .
      ultimately show thesis
        using that tree_str_branch(1) [OF str, of p] tree_str_terminal(3) [OF str, of p] by (cases n) auto
    qed
    have child: "get_child_prefix (BranchNode p cs) t = Inr (map_option (\<lambda>c. an_add p (tc_suffix c)) (cs ! i))"
      using walk pre i(4) by (simp add: get_child_prefix_def get_child_index_def split: option.splits)
    show ?thesis
    proof (cases "cs ! i")
      case None
      have "\<not> te_is_initial env acc"
        using acc(2) tree_str_branch(5) [OF str node i(2)] None i(1) by (auto simp: child_str_def)
      then show ?thesis
        using extend_branch [OF inv t Suc.prems(1) acc(1) _ node walk(1)] None walk pre node
        by (simp add: child with_child_below [OF i(3)] Let_def flip: i_def)
    next
      case (Some c)
      then have "root_path db t (an_add p (tc_suffix c)) (BranchNode p cs # ns)"
        using root_path_Cons [OF Suc.prems(1) node i(1,2)] by simp
      moreover have "41 \<le> fuel + an_len (an_add p (tc_suffix c))"
        using belowD(1) [OF root_path_step(1) [OF str node i(2) Some]] Suc.prems(2) by simp
      ultimately show ?thesis
        using Suc.IH walk pre node Some by (simp add: child)
    qed
  qed
qed


section \<open>The tree as a map from addresses to accounts\<close>

lemma an_from_bytes_inject: "an_from_bytes a = an_from_bytes b \<longleftrightarrow> a = b"
  by (auto simp: an_from_bytes_def)

lemma tree_get_key:
  assumes "tree_str env ok db" "address_ok a"
  shows "db (an_from_bytes a) = map_option (TerminalNode (an_from_bytes a)) (tree_get db a)"
proof -
  have "an_len (an_from_bytes a) = 40"
    using full_key_address [OF assms(2)] by (simp add: full_key_def)
  then show ?thesis
    using tree_str_branch(3) [OF assms(1), of "an_from_bytes a"] tree_str_terminal(1) [OF assms(1), of "an_from_bytes a"]
    by (auto simp: tree_get_def split: option.splits tree_node.splits)
qed

lemma put_batch_correct:
  assumes inv: "tree_inv env ok db" and a: "address_ok a" and acc: "ok acc"
  shows "\<exists>db'. put_batch env db a acc = Inr db' \<and> tree_inv env ok db' \<and>
    (\<forall>b. address_ok b \<longrightarrow> tree_get db' b = (if b = a then if te_is_initial env acc then None else Some acc else tree_get db b))"
proof (cases "te_is_initial env acc \<and> tree_get db a = None")
  case True
  then show ?thesis
    using inv by (auto simp: put_batch_def)
next
  case False
  have str: "tree_str env ok db"
    using inv by (simp add: tree_inv_def)
  have t: "full_key (an_from_bytes a)"
    by (rule full_key_address [OF a])
  have "te_is_initial env acc \<Longrightarrow> an_from_bytes a \<in> dom db"
    using False tree_get_key [OF str a] by auto
  from insert_batch_updates [OF inv t acc this root_path_Nil, where fuel = 41] False
  obtain db' where r: "put_batch env db a acc = Inr db'" "tree_inv env ok db'"
    "\<And>k. an_len k = 40 \<Longrightarrow> db' k = (if k = an_from_bytes a then map_option (TerminalNode (an_from_bytes a)) (if te_is_initial env acc then None else Some acc) else db k)"
    by (auto simp: put_batch_def updated_def)
  have "tree_get db' b = (if b = a then if te_is_initial env acc then None else Some acc else tree_get db b)" if "address_ok b" for b
    using r(3) [of "an_from_bytes b"] full_key_address [OF that] by (simp add: tree_get_def full_key_def an_from_bytes_inject)
  then show ?thesis
    using r by blast
qed

lemma tree_new_inv: "tree_inv env ok (tree_new Map.empty)"
proof -
  have db: "tree_new Map.empty = [an_empty \<mapsto> BranchNode an_empty no_children]"
    by (simp add: tree_new_def get_root_def)
  have "child_str {an_empty} an_empty i (no_children ! i)" if "i < 16" for i
    using that by (simp add: child_str_def no_children_def)
  then show ?thesis
    unfolding db by (auto simp: tree_inv_def tree_str_def hash_inv_def no_children_def)
qed

end
