(* ===== verification/Accounts_Tree_Finalize.thy ===== *)
theory Accounts_Tree_Finalize
  imports Accounts_Tree_Put
begin

text \<open>
  \<open>finalize_batch\<close> recomputes the hashes that were reset: it neither panics nor runs out of steps, keeps the structure and the accounts,
  and leaves a tree in which every hash is the hash of the child it belongs to.
\<close>

section \<open>Hashing well-formed nodes\<close>

definition env_ok :: "'a tree_env \<Rightarrow> ('a \<Rightarrow> nat) \<Rightarrow> ('a \<Rightarrow> bool) \<Rightarrow> bool" where
  "env_ok env sz ok \<longleftrightarrow> leaf_codec env sz ok \<and> (\<forall>bs. hash_ok (blake2b (te_crypto env) bs))"

lemma node_str_wf:
  assumes "node_str env ok K p n"
  shows "node_wf ok n"
proof (cases n)
  case (BranchNode q cs)
  have "child_wf i c" if "i < 16" "cs ! i = Some c" for i c
    using assms BranchNode that by (auto simp: child_str_def split: option.splits)
  then show ?thesis
    using assms BranchNode by (simp add: children_wf_def)
qed (use assms in auto)

lemma node_hash_wf:
  assumes "env_ok env sz ok" "node_wf ok n"
  obtains h where "node_hash env n = Inr h" "hash_ok h"
proof -
  obtain bs where "ser_node env n = Inr bs"
    using encodes_node [of env sz ok n] assms by (auto simp: env_ok_def encodes_def)
  then show thesis
    using that assms(1) by (simp add: node_hash_def env_ok_def)
qed

section \<open>Recomputing the hashes\<close>

definition hash_at :: "'a tree_env \<Rightarrow> 'a tree_db \<Rightarrow> address_nibbles \<Rightarrow> bool" where
  "hash_at env db p \<longleftrightarrow>
    (\<forall>q cs c. db p = Some (BranchNode q cs) \<longrightarrow> Some c \<in> set cs \<longrightarrow> tc_hash c \<noteq> hash_default \<longrightarrow>
      link_clean env db (an_add p (tc_suffix c)) (tc_hash c))"

lemma hash_inv_at: "hash_inv env db \<longleftrightarrow> (\<forall>p. hash_at env db p)"
  by (simp add: hash_inv_def hash_at_def)

lemma hash_at_frame:
  assumes "tree_str env ok db" "hash_at env db p" "p \<in> dom db" "\<And>k. k \<in> dom db \<Longrightarrow> prefix (nib p) (nib k) \<Longrightarrow> db' k = db k"
  shows "hash_at env db' p"
  unfolding hash_at_def
proof (intro allI impI)
  fix q cs c
  assume "db' p = Some (BranchNode q cs)" and c: "Some c \<in> set cs" "tc_hash c \<noteq> hash_default"
  then have p: "db p = Some (BranchNode q cs)"
    using assms(3,4) by simp
  then have "prefix (nib p) (nib (an_add p (tc_suffix c)))"
    using in_set_children [OF assms(1) p c(1)] child_target(5) tree_str_branch(2) [OF assms(1) p] by blast
  moreover have "link_clean env db (an_add p (tc_suffix c)) (tc_hash c)"
    using assms(2) p c by (simp add: hash_at_def)
  ultimately show "link_clean env db' (an_add p (tc_suffix c)) (tc_hash c)"
    using link_clean_frame [OF assms(1)] assms(4) prefix_order.trans by metis
qed

text \<open>What the two functions leave unchanged, and what they establish.\<close>

definition same_accounts :: "'a tree_env \<Rightarrow> ('a \<Rightarrow> bool) \<Rightarrow> 'a tree_db \<Rightarrow> 'a tree_db \<Rightarrow> bool" where
  "same_accounts env ok db db' \<longleftrightarrow> tree_str env ok db' \<and> dom db' = dom db \<and> (\<forall>k. an_len k = 40 \<longrightarrow> db' k = db k)"

lemma same_accounts_trans: "same_accounts env ok a b \<Longrightarrow> same_accounts env ok b c \<Longrightarrow> same_accounts env ok a c"
  by (simp add: same_accounts_def)

definition hashed :: "'a tree_env \<Rightarrow> ('a \<Rightarrow> bool) \<Rightarrow> 'a tree_db \<Rightarrow> address_nibbles \<Rightarrow> (blake2b_hash \<times> 'a tree_db) tree_result \<Rightarrow> bool" where
  "hashed env ok db p r \<longleftrightarrow>
    (\<exists>h db'. r = Inr (h, db') \<and> same_accounts env ok db db' \<and> (\<forall>k. \<not> prefix (nib p) (nib k) \<longrightarrow> db' k = db k) \<and>
      link_clean env db' p h \<and> hash_ok h)"

fun child_rehashed :: "'a tree_env \<Rightarrow> 'a tree_db \<Rightarrow> address_nibbles \<Rightarrow> tree_child option \<Rightarrow> tree_child option \<Rightarrow> bool" where
  "child_rehashed env db p None co \<longleftrightarrow> co = None"
| "child_rehashed env db p (Some c) co \<longleftrightarrow>
    (\<exists>h. co = Some (c\<lparr>tc_hash := h\<rparr>) \<and> hash_ok h \<and> link_clean env db (an_add p (tc_suffix c)) h)"

definition children_hashed :: "'a tree_env \<Rightarrow> ('a \<Rightarrow> bool) \<Rightarrow> 'a tree_db \<Rightarrow> address_nibbles \<Rightarrow> tree_child option list \<Rightarrow> nat \<Rightarrow>
    (tree_child option list \<times> 'a tree_db) tree_result \<Rightarrow> bool" where
  "children_hashed env ok db p cs j r \<longleftrightarrow>
    (\<exists>cs' db'. r = Inr (cs', db') \<and> same_accounts env ok db db' \<and>
      (\<forall>k. (\<forall>m \<ge> j. \<not> prefix (nib p @ [m]) (nib k)) \<longrightarrow> db' k = db k) \<and>
      list_all2 (child_rehashed env db' p) (drop j cs) cs')"


lemma child_rehashedI: "hash_ok h \<Longrightarrow> link_clean env db (an_add p (tc_suffix c)) h \<Longrightarrow> child_rehashed env db p (Some c) (Some (c\<lparr>tc_hash := h\<rparr>))"
  by auto

lemma child_rehashed_frame:
  assumes "tree_str env ok db" "child_rehashed env db p co co'" "an_ok p" "child_str (dom db) p i co"
    "\<And>k. k \<in> dom db \<Longrightarrow> prefix (nib p @ [i]) (nib k) \<Longrightarrow> db' k = db k"
  shows "child_rehashed env db' p co co'"
proof (cases co)
  case (Some c)
  then obtain h where h: "co' = Some (c\<lparr>tc_hash := h\<rparr>)" "hash_ok h" "link_clean env db (an_add p (tc_suffix c)) h"
    using assms(2) by auto
  have "prefix (nib p @ [i]) (nib (an_add p (tc_suffix c)))"
    using child_target(3) assms(3,4) Some by simp
  then have "link_clean env db' (an_add p (tc_suffix c)) h"
    using link_clean_frame [OF assms(1) h(3)] assms(5) prefix_order.trans by blast
  with Some h show ?thesis
    by (simp only: child_rehashedI)
qed (use assms(2) in simp)

text \<open>One child: its hash is recomputed when it was reset, and everything below the other children stays as it is.\<close>

lemma rehash_child:
  assumes rec: "\<And>db p. tree_str env ok db \<Longrightarrow> p \<in> dom db \<Longrightarrow> 41 \<le> fuel + an_len p \<Longrightarrow>
      (\<And>k. k \<in> dom db \<Longrightarrow> prefix (nib p) (nib k) \<Longrightarrow> hash_at env db k) \<Longrightarrow> hashed env ok db p (update_hashes env fuel db p)"
    and fuel: "40 \<le> fuel + an_len p" and str: "tree_str env ok db" and node: "db p = Some (BranchNode p cs)" and j: "j < 16" "cs ! j = Some c"
    and at: "\<And>k. k \<in> dom db \<Longrightarrow> prefix (nib p @ [j]) (nib k) \<Longrightarrow> hash_at env db k"
  shows "hashed env ok db (an_add p (tc_suffix c)) (update_hashes env fuel db (an_add p (tc_suffix c)))"
proof -
  note step = root_path_step [OF str node j]
  have pre: "prefix (nib p @ [j]) (nib (an_add p (tc_suffix c)))"
    using step(1) by (simp add: below_def)
  show ?thesis
    using belowD(1) [OF step(1)] fuel pre at prefix_order.trans [OF pre] by (intro rec [OF str step(2)]) auto
qed

lemma update_children_hashed:
  assumes rec: "\<And>db p. tree_str env ok db \<Longrightarrow> p \<in> dom db \<Longrightarrow> 41 \<le> fuel + an_len p \<Longrightarrow>
      (\<And>k. k \<in> dom db \<Longrightarrow> prefix (nib p) (nib k) \<Longrightarrow> hash_at env db k) \<Longrightarrow> hashed env ok db p (update_hashes env fuel db p)"
    and fuel: "40 \<le> fuel + an_len p"
  shows "n = 16 - j \<Longrightarrow> j \<le> 16 \<Longrightarrow> tree_str env ok db \<Longrightarrow> db p = Some (BranchNode p cs) \<Longrightarrow>
    (\<And>m k. j \<le> m \<Longrightarrow> k \<in> dom db \<Longrightarrow> prefix (nib p @ [m]) (nib k) \<Longrightarrow> hash_at env db k) \<Longrightarrow>
    (\<And>m c. j \<le> m \<Longrightarrow> m < 16 \<Longrightarrow> cs ! m = Some c \<Longrightarrow> tc_hash c \<noteq> hash_default \<Longrightarrow> link_clean env db (an_add p (tc_suffix c)) (tc_hash c)) \<Longrightarrow>
    children_hashed env ok db p cs j (update_children env fuel db p (drop j cs))"
proof (induction n arbitrary: j db)
  case 0
  then show ?case
    using tree_str_branch(4) [OF "0.prems"(3,4)] by (simp add: children_hashed_def same_accounts_def)
next
  case (Suc n)
  note b = tree_str_branch [OF Suc.prems(3,4)]
  have j: "j < 16"
    using Suc.prems(1) by simp
  then have drop: "drop j cs = cs ! j # drop (Suc j) cs"
    using b(4) by (simp add: Cons_nth_drop_Suc)
  text \<open>The rest of the children, from a database that differs below child \<open>j\<close> only.\<close>
  have rest: "\<exists>cs' db2. update_children env fuel db1 p (drop (Suc j) cs) = Inr (cs', db2) \<and> same_accounts env ok db db2 \<and>
      (\<forall>k. (\<forall>m \<ge> j. \<not> prefix (nib p @ [m]) (nib k)) \<longrightarrow> db2 k = db k) \<and>
      list_all2 (child_rehashed env db2 p) (drop j cs) (co' # cs')"
    if db1: "same_accounts env ok db db1" "\<And>k. \<not> prefix (nib p @ [j]) (nib k) \<Longrightarrow> db1 k = db k" "child_rehashed env db1 p (cs ! j) co'" for db1 co'
  proof -
    have str1: "tree_str env ok db1" and dom1: "dom db1 = dom db"
      using db1(1) by (simp_all add: same_accounts_def)
    have p1: "db1 p = Some (BranchNode p cs)"
      using db1(2) [of p] Suc.prems(4) by (simp add: prefix_def)
    have off: "db1 k' = db k'" if "Suc j \<le> m" "prefix (nib p @ [m]) (nib k)" "prefix (nib k) (nib k')" for m k k'
      using db1(2) [of k'] prefix_snoc_unique [OF prefix_order.trans [OF that(2,3)], of j] that(1) by auto
    have "children_hashed env ok db1 p cs (Suc j) (update_children env fuel db1 p (drop (Suc j) cs))"
    proof (rule Suc.IH [OF _ _ str1 p1])
      show "n = 16 - Suc j" "Suc j \<le> 16"
        using Suc.prems(1) j by simp_all
      fix m k
      assume mk: "Suc j \<le> m" "k \<in> dom db1" "prefix (nib p @ [m]) (nib k)"
      have "hash_at env db k" "k \<in> dom db"
        using Suc.prems(5) [of m k] mk dom1 by simp_all
      then show "hash_at env db1 k"
        by (rule hash_at_frame [OF Suc.prems(3)]) (rule off [OF mk(1,3)])
    next
      fix m c
      assume mc: "Suc j \<le> m" "m < 16" "cs ! m = Some c" "tc_hash c \<noteq> hash_default"
      have pre: "prefix (nib p @ [m]) (nib (an_add p (tc_suffix c)))"
        using root_path_step(1) [OF Suc.prems(3,4) mc(2,3)] by (simp add: below_def)
      have "link_clean env db (an_add p (tc_suffix c)) (tc_hash c)"
        using Suc.prems(6) [of m c] mc by simp
      then show "link_clean env db1 (an_add p (tc_suffix c)) (tc_hash c)"
        by (rule link_clean_frame [OF Suc.prems(3)]) (rule off [OF mc(1) pre])
    qed
    then obtain cs' db2 where r: "update_children env fuel db1 p (drop (Suc j) cs) = Inr (cs', db2)" "same_accounts env ok db1 db2"
      "\<And>k. (\<forall>m \<ge> Suc j. \<not> prefix (nib p @ [m]) (nib k)) \<Longrightarrow> db2 k = db1 k" "list_all2 (child_rehashed env db2 p) (drop (Suc j) cs) cs'"
      by (auto simp: children_hashed_def)
    have "child_rehashed env db2 p (cs ! j) co'"
    proof (rule child_rehashed_frame [OF str1 db1(3) b(2)])
      show "child_str (dom db1) p j (cs ! j)"
        using b(5) [OF j] dom1 by simp
      fix k
      assume "prefix (nib p @ [j]) (nib k)"
      then show "db2 k = db1 k"
        using r(3) [of k] prefix_snoc_unique [of "nib p" j "nib k"] by (metis Suc_n_not_le_n)
    qed
    moreover have "db2 k = db k" if "\<forall>m \<ge> j. \<not> prefix (nib p @ [m]) (nib k)" for k
      using that r(3) [of k] db1(2) [of k] by (metis Suc_leD le_refl)
    ultimately show ?thesis
      using r same_accounts_trans [OF db1(1) r(2)] by (simp add: drop)
  qed
  have same: "same_accounts env ok db db"
    using Suc.prems(3) by (simp add: same_accounts_def)
  show ?case
  proof (cases "cs ! j")
    case None
    then have "child_rehashed env db p (cs ! j) None"
      by simp
    from rest [OF same refl this] obtain cs' db2 where
      "update_children env fuel db p (drop (Suc j) cs) = Inr (cs', db2)" "same_accounts env ok db db2"
      "\<forall>k. (\<forall>m \<ge> j. \<not> prefix (nib p @ [m]) (nib k)) \<longrightarrow> db2 k = db k" "list_all2 (child_rehashed env db2 p) (drop j cs) (None # cs')"
      by blast
    then show ?thesis
      by (simp add: children_hashed_def drop None)
  next
    case (Some c)
    have wf: "child_wf j c"
      using b(5) [OF j] Some by (simp add: child_str_def)
    show ?thesis
    proof (cases "tc_hash c = hash_default")
      case True
      have "hashed env ok db (an_add p (tc_suffix c)) (update_hashes env fuel db (an_add p (tc_suffix c)))"
        by (rule rehash_child [OF rec fuel Suc.prems(3,4) j Some]) (simp_all add: Suc.prems(5) [of j])
      then obtain h db1 where h: "update_hashes env fuel db (an_add p (tc_suffix c)) = Inr (h, db1)" "same_accounts env ok db db1"
        "\<And>k. \<not> prefix (nib (an_add p (tc_suffix c))) (nib k) \<Longrightarrow> db1 k = db k" "link_clean env db1 (an_add p (tc_suffix c)) h" "hash_ok h"
        unfolding hashed_def by blast
      have pre: "prefix (nib p @ [j]) (nib (an_add p (tc_suffix c)))"
        using root_path_step(1) [OF Suc.prems(3,4) j Some] by (simp add: below_def)
      have off: "db1 k = db k" if "\<not> prefix (nib p @ [j]) (nib k)" for k
        using h(3) [of k] that prefix_order.trans [OF pre] by blast
      have "child_rehashed env db1 p (cs ! j) (Some (c\<lparr>tc_hash := h\<rparr>))"
        unfolding Some by (rule child_rehashedI [OF h(5,4)])
      from rest [OF h(2) off this] obtain cs' db2 where
        "update_children env fuel db1 p (drop (Suc j) cs) = Inr (cs', db2)" "same_accounts env ok db db2"
        "\<forall>k. (\<forall>m \<ge> j. \<not> prefix (nib p @ [m]) (nib k)) \<longrightarrow> db2 k = db k"
        "list_all2 (child_rehashed env db2 p) (drop j cs) (Some (c\<lparr>tc_hash := h\<rparr>) # cs')"
        by blast
      with h(1) True show ?thesis
        by (simp add: children_hashed_def drop Some)
    next
      case False
      have "child_rehashed env db p (Some c) (Some (c\<lparr>tc_hash := tc_hash c\<rparr>))"
        using Suc.prems(6) [of j c] j Some False wf by (intro child_rehashedI) (simp_all add: child_wf_def)
      then have "child_rehashed env db p (cs ! j) (Some c)"
        unfolding Some by simp
      from rest [OF same refl this] obtain cs' db2 where
        "update_children env fuel db p (drop (Suc j) cs) = Inr (cs', db2)" "same_accounts env ok db db2"
        "\<forall>k. (\<forall>m \<ge> j. \<not> prefix (nib p @ [m]) (nib k)) \<longrightarrow> db2 k = db k"
        "list_all2 (child_rehashed env db2 p) (drop j cs) (Some c # cs')"
        by blast
      with False show ?thesis
        by (simp add: children_hashed_def drop Some)
    qed
  qed
qed


lemma child_str_rehashed:
  assumes "child_str K p i co" "child_rehashed env db p co co'"
  shows "child_str K p i co'"
proof (cases co)
  case (Some c)
  then obtain h where "co' = Some (c\<lparr>tc_hash := h\<rparr>)" "hash_ok h"
    using assms(2) by auto
  then show ?thesis
    using assms(1) Some by (simp add: child_str_def child_wf_def)
qed (use assms in auto)

lemma count_rehashed:
  "list_all2 (child_rehashed env db p) cs cs' \<Longrightarrow> length (List.map_filter id cs') = length (List.map_filter id cs)"
proof (induction rule: list_all2_induct)
  case (Cons co cs co' cs')
  then show ?case
    by (cases co) (auto simp: List.map_filter_simps)
qed simp

lemma update_hashes_hashed:
  fixes env :: "'a tree_env"
  assumes env: "env_ok env sz ok"
  shows "tree_str env ok db \<Longrightarrow> p \<in> dom db \<Longrightarrow> 41 \<le> fuel + an_len p \<Longrightarrow>
    (\<And>k. k \<in> dom db \<Longrightarrow> prefix (nib p) (nib k) \<Longrightarrow> hash_at env db k) \<Longrightarrow> hashed env ok db p (update_hashes env fuel db p)"
proof (induction fuel arbitrary: db p)
  case 0
  then show ?case
    using tree_str_key(2) [OF "0.prems"(1,2)] by simp
next
  case (Suc fuel)
  obtain n where n: "db p = Some n"
    using Suc.prems(2) by blast
  note str = Suc.prems(1)
  show ?case
  proof (cases n)
    case (TerminalNode q a)
    obtain h where h: "node_hash env n = (Inr h :: blake2b_hash tree_result)" "hash_ok h"
      using node_hash_wf [OF env node_str_wf [OF tree_str_node [OF str n]]] .
    moreover have "link_clean env db p h"
      using h n TerminalNode by (auto simp: link_clean_def intro: clean_terminal)
    moreover have "update_hashes env (Suc fuel) db p = Inr (h, db)"
      using n h TerminalNode by simp
    ultimately show ?thesis
      using str by (auto simp: hashed_def same_accounts_def)
  next
    case (BranchNode q cs)
    with tree_str_branch(1) [OF str, of p q cs] n have p: "db p = Some (BranchNode p cs)" and n: "n = BranchNode p cs"
      by auto
    note b = tree_str_branch [OF str p]
    have "children_hashed env ok db p cs 0 (update_children env fuel db p (drop 0 cs))"
    proof (rule update_children_hashed [OF Suc.IH _ refl _ str p])
      show "hash_at env db k" if "k \<in> dom db" "prefix (nib p @ [m]) (nib k)" for m k
        using Suc.prems(4) [OF that(1)] append_prefixD [OF that(2)] by simp
      show "link_clean env db (an_add p (tc_suffix c)) (tc_hash c)" if "m < 16" "cs ! m = Some c" "tc_hash c \<noteq> hash_default" for m c
        using Suc.prems(4) [OF Suc.prems(2)] p that b(4) nth_mem [of m cs] by (simp add: hash_at_def)
    qed (use Suc.prems(3) in simp_all)
    then obtain cs' db1 where r: "update_children env fuel db p cs = Inr (cs', db1)" "same_accounts env ok db db1"
      "\<And>k. \<forall>m. \<not> prefix (nib p @ [m]) (nib k) \<Longrightarrow> db1 k = db k" "list_all2 (child_rehashed env db1 p) cs cs'"
      unfolding children_hashed_def by auto
    have str1: "tree_str env ok db1" and dom1: "dom db1 = dom db"
      using r(2) by (simp_all add: same_accounts_def)
    have len: "length cs' = 16"
      using list_all2_lengthD [OF r(4)] b(4) by simp
    have p1: "db1 p = Some (BranchNode p cs)"
      using r(3) [of p] p by (simp add: prefix_def)
    define node where "node = (BranchNode p cs' :: 'a tree_node)"
    define db2 where "db2 = db1(p \<mapsto> node)"
    have dom2: "dom db2 = dom db1"
      using p1 by (auto simp: db2_def)
    have node: "node_str env ok (dom db2) p node"
      using b len count_rehashed [OF r(4)] child_str_rehashed [OF _ list_all2_nthD [OF r(4)]] dom1 dom2 by (simp add: node_def)
    have str2: "tree_str env ok db2"
      using str1 node dom2 p1 unfolding tree_str_def db2_def node_def by (auto split: if_splits)
    obtain h where h: "node_hash env node = (Inr h :: blake2b_hash tree_result)" "hash_ok h"
      using node_hash_wf [OF env node_str_wf [OF node]] .
    have link: "link_clean env db2 (an_add p (tc_suffix c')) (tc_hash c')" if c': "Some c' \<in> set cs'" for c'
    proof -
      obtain i where i: "i < 16" "cs' ! i = Some c'"
        using c' len by (auto simp: in_set_conv_nth)
      then have "child_rehashed env db1 p (cs ! i) (Some c')"
        using list_all2_nthD [OF r(4), of i] b(4) by simp
      then obtain c where c: "cs ! i = Some c" "tc_suffix c' = tc_suffix c" "link_clean env db1 (an_add p (tc_suffix c')) (tc_hash c')"
        by (cases "cs ! i") auto
      have pre: "prefix (nib p @ [i]) (nib (an_add p (tc_suffix c')))"
        using root_path_step(1) [OF str p i(1) c(1)] by (simp add: below_def c(2))
      have "db2 k = db1 k" if "prefix (nib (an_add p (tc_suffix c'))) (nib k)" for k
        using prefix_order.trans [OF pre that] by (auto simp: db2_def prefix_def)
      then show ?thesis
        by (rule link_clean_frame [OF str1 c(3)])
    qed
    have "clean env db2 p"
      using link by (intro clean_branch [of db2 p p cs']) (auto simp: db2_def node_def link_clean_def)
    then have "link_clean env db2 p h"
      using h(1) by (simp add: link_clean_def db2_def)
    moreover have "same_accounts env ok db db2"
      using r(2) str2 dom2 b(3) by (auto simp: same_accounts_def db2_def)
    moreover have "db2 k = db k" if "\<not> prefix (nib p) (nib k)" for k
      using that r(3) [of k] append_prefixD [of "nib p" _ "nib k"] by (auto simp: db2_def)
    moreover have "update_hashes env (Suc fuel) db p = Inr (h, db2)"
      using p r(1) h(1) by (simp add: Let_def node_def db2_def)
    ultimately show ?thesis
      using h(2) unfolding hashed_def by blast
  qed
qed


section \<open>Finalizing a tree\<close>

lemma clean_below:
  assumes str: "tree_str env ok db" and k: "k \<in> dom db"
  shows "clean env db p \<Longrightarrow> prefix (nib p) (nib k) \<Longrightarrow> clean env db k"
proof (induction rule: clean.induct)
  case (clean_terminal p q a)
  then have "full_key p"
    using tree_str_terminal [OF str] by (simp add: full_key_def)
  then have "k = p"
    using full_key_prefix clean_terminal(2) tree_str_key [OF str k] by blast
  then show ?case
    using clean_terminal(1) by (auto intro: clean.clean_terminal)
next
  case (clean_branch p q cs)
  show ?case
  proof (cases "k = p")
    case True
    then show ?thesis
      using clean_branch by (auto intro: clean.clean_branch)
  next
    case False
    have "q = p"
      using tree_str_branch(1) [OF str clean_branch(1)] .
    then obtain m c where "m < 16" "cs ! m = Some c" "prefix (nib (an_add p (tc_suffix c))) (nib k)"
      using below_child [OF str _ k clean_branch(5) False] clean_branch(1) by blast
    then show ?thesis
      using clean_branch(4) [of c] tree_str_branch(4) [OF str clean_branch(1)] by (metis nth_mem)
  qed
qed

lemma clean_hash_at: "clean env db p \<Longrightarrow> hash_at env db p"
  by (induction rule: clean.induct) (auto simp: hash_at_def link_clean_def)

lemma clean_root_inv:
  assumes "tree_str env ok db" "clean env db an_empty"
  shows "tree_inv env ok db"
proof -
  have "hash_at env db k" for k
  proof (cases "k \<in> dom db")
    case True
    then show ?thesis
      using clean_below [OF assms(1) True assms(2)] clean_hash_at by simp
  qed (auto simp: hash_at_def)
  then show ?thesis
    using assms(1) by (simp add: tree_inv_def hash_inv_at)
qed

lemma finalize_batch_clean:
  assumes env: "env_ok env sz ok" and inv: "tree_inv env ok db"
  shows "\<exists>db'. finalize_batch env db = Inr db' \<and> tree_inv env ok db' \<and> clean env db' an_empty \<and> (\<forall>k. an_len k = 40 \<longrightarrow> db' k = db k)"
proof -
  have "an_empty \<in> dom db"
    using inv by (auto simp: tree_inv_def tree_str_def)
  then have "hashed env ok db an_empty (update_hashes env 41 db an_empty)"
    using inv by (intro update_hashes_hashed [OF env]) (auto simp: tree_inv_def hash_inv_at)
  then obtain h db' where r: "update_hashes env 41 db an_empty = Inr (h, db')" "same_accounts env ok db db'" "link_clean env db' an_empty h"
    unfolding hashed_def by blast
  then have "clean env db' an_empty" "tree_str env ok db'"
    by (simp_all add: link_clean_def same_accounts_def)
  then show ?thesis
    using r clean_root_inv by (auto simp: finalize_batch_def same_accounts_def)
qed

end
