(* ===== verification/Accounts_Tree_Canonical.thy ===== *)
theory Accounts_Tree_Canonical
  imports Accounts_Tree_Finalize
begin

text \<open>
  The accounts determine the tree: the keys of a tree are the root, the stored addresses and the prefixes at which two of them part, each
  child link is the shortest key in its direction, and in a finalized tree the hashes follow from the nodes below.  So the root hash does
  not depend on the order in which accounts were stored and removed.
\<close>

lemma leaf_below:
  assumes str: "tree_str env ok db"
  shows "k \<in> dom db \<Longrightarrow> k \<noteq> an_empty \<Longrightarrow> \<exists>t \<in> dom db. full_key t \<and> prefix (nib k) (nib t)"
proof (induction "40 - an_len k" arbitrary: k rule: less_induct)
  case less
  then obtain n where n: "db k = Some n" by blast
  show ?case
  proof (cases n)
    case (TerminalNode q a)
    then show ?thesis
      using tree_str_terminal [OF str, of k q a] n by (auto simp: full_key_def)
  next
    case (BranchNode q cs)
    with tree_str_branch(1) [OF str, of k q cs] n have k: "db k = Some (BranchNode k cs)"
      by simp
    note b = tree_str_branch [OF str k]
    have "List.map_filter id cs \<noteq> []"
      using b(6) less.prems(2) by auto
    then obtain c where "c \<in> set (List.map_filter id cs)"
      by (cases "List.map_filter id cs") auto
    then obtain i where i: "i < 16" "cs ! i = Some c"
      using b(4) by (auto simp: set_map_filter_id)
    note step = root_path_step [OF str k i]
    define x where "x = an_add k (tc_suffix c)"
    have x: "x \<in> dom db" "an_len k < an_len x" "prefix (nib k) (nib x)"
      using step(2) belowD [OF step(1)] by (simp_all add: x_def)
    then have "40 - an_len x < 40 - an_len k" "x \<noteq> an_empty"
      using b(3) by auto
    with less.hyps [of x] x show ?thesis
      using prefix_order.trans by blast
  qed
qed

lemma two_children:
  assumes "2 \<le> length (List.map_filter id cs)"
  obtains i j where "i < length cs" "j < length cs" "i \<noteq> j" "cs ! i \<noteq> None" "cs ! j \<noteq> None"
proof -
  have "length (List.map_filter id cs) = card {i. i < length cs \<and> cs ! i \<noteq> None}"
    by (simp add: List.map_filter_def length_filter_conv_card)
  then have "\<not> card {i. i < length cs \<and> cs ! i \<noteq> None} \<le> 1"
    using assms by simp
  then have "\<exists>i j. i \<in> {i. i < length cs \<and> cs ! i \<noteq> None} \<and> j \<in> {i. i < length cs \<and> cs ! i \<noteq> None} \<and> i \<noteq> j"
    using card_le_Suc0_iff_eq [of "{i. i < length cs \<and> cs ! i \<noteq> None}"] by auto
  then show thesis
    using that by blast
qed

lemma leaves_part:
  assumes str: "tree_str env ok db" and p: "db p = Some (BranchNode p cs)" "p \<noteq> an_empty"
  obtains i j s t where "i \<noteq> j" "s \<in> dom db" "full_key s" "prefix (nib p @ [i]) (nib s)" "t \<in> dom db" "full_key t" "prefix (nib p @ [j]) (nib t)"
proof -
  note b = tree_str_branch [OF str p(1)]
  have leaf: "\<exists>t \<in> dom db. full_key t \<and> prefix (nib p @ [i]) (nib t)" if i: "i < 16" "cs ! i \<noteq> None" for i
  proof -
    obtain c where c: "cs ! i = Some c"
      using i(2) by blast
    note step = root_path_step [OF str p(1) i(1) c]
    have "an_add p (tc_suffix c) \<noteq> an_empty"
      using belowD(1) [OF step(1)] by auto
    then obtain t where "t \<in> dom db" "full_key t" "prefix (nib (an_add p (tc_suffix c))) (nib t)"
      using leaf_below [OF str step(2)] by blast
    moreover have "prefix (nib p @ [i]) (nib (an_add p (tc_suffix c)))"
      using step(1) by (simp add: below_def)
    ultimately show ?thesis
      using prefix_order.trans by blast
  qed
  obtain i j where "i < 16" "j < 16" "i \<noteq> j" "cs ! i \<noteq> None" "cs ! j \<noteq> None"
    using two_children [of cs] b(6) [OF p(2)] b(4) by metis
  then show thesis
    using that leaf [of i] leaf [of j] by blast
qed

text \<open>Conversely, where two stored addresses part there is a node.\<close>

lemma parting_is_key:
  assumes str: "tree_str env ok db" and p: "an_ok p" and s: "s \<in> dom db" "prefix (nib p @ [i]) (nib s)"
    and t: "t \<in> dom db" "prefix (nib p @ [j]) (nib t)" and ij: "i \<noteq> j"
  shows "k \<in> dom db \<Longrightarrow> prefix (nib k) (nib p) \<Longrightarrow> p \<in> dom db"
proof (induction "an_len p - an_len k" arbitrary: k rule: less_induct)
  case less
  have k: "an_ok k" "an_len k \<le> 40"
    using tree_str_key [OF str less.prems(1)] .
  show ?case
  proof (cases "k = p")
    case False
    have ps: "prefix (nib p) (nib s)" "prefix (nib p) (nib t)"
      using s(2) t(2) by (auto dest: append_prefixD)
    have ks: "prefix (nib k) (nib s)" "prefix (nib k) (nib t)"
      using less.prems(2) ps prefix_order.trans by blast+
    have "k \<noteq> s"
    proof
      assume "k = s"
      then have "prefix (nib s) (nib p)"
        using less.prems(2) by simp
      with s(2) show False
        by (auto simp: prefix_def)
    qed
    have len: "an_len k < 40"
      using prefix_length_le [OF less.prems(2)] prefix_length_le [OF s(2)] k(1) p tree_str_key [OF str s(1)] by simp
    obtain n where "db k = Some n"
      using less.prems(1) by blast
    with len obtain cs where node: "db k = Some (BranchNode k cs)"
      using tree_str_branch(1) [OF str, of k] tree_str_terminal(3) [OF str, of k] by (cases n) auto
    obtain m c where m: "m < 16" "cs ! m = Some c" "prefix (nib k @ [m]) (nib s)" "prefix (nib (an_add k (tc_suffix c))) (nib s)"
      using below_child [OF str node s(1) ks(1)] \<open>k \<noteq> s\<close> by metis
    define x where "x = an_add k (tc_suffix c)"
    note step = root_path_step [OF str node m(1,2), folded x_def]
    have "nib k \<noteq> nib p"
      using False nib_inject [OF k(1) p] by simp
    then have kp: "prefix (nib k @ [m]) (nib p)"
      using prefix_same_cases [OF m(3) ps(1)] less.prems(2) by (auto simp: prefix_append prefix_Cons dest: prefix_order.antisym)
    then have "prefix (nib k @ [m]) (nib t)"
      using ps(2) prefix_order.trans by blast
    then have xt: "prefix (nib x) (nib t)"
      using step(3) t(1) by blast
    have xs: "prefix (nib x) (nib s)"
      using m(4) by (simp add: x_def)
    have "prefix (nib x) (nib p)"
    proof (rule ccontr)
      assume "\<not> prefix (nib x) (nib p)"
      then have "prefix (nib p @ [i]) (nib x)" "prefix (nib p @ [j]) (nib x)"
        using prefix_same_cases [OF xs s(2)] prefix_same_cases [OF xt t(2)] by auto
      then show False
        using prefix_snoc_unique [of "nib p" i "nib x" j] ij by simp
    qed
    moreover have "an_len p - an_len x < an_len p - an_len k"
      using belowD(1) [OF step(1)] prefix_length_le [OF kp] p k(1) by simp
    ultimately show ?thesis
      using less.hyps [of x] step(2) by blast
  qed (use less.prems in simp)
qed

section \<open>The accounts determine the tree\<close>

definition same_leaves :: "'a tree_db \<Rightarrow> 'a tree_db \<Rightarrow> bool" where
  "same_leaves db db' \<longleftrightarrow> (\<forall>t. full_key t \<longrightarrow> db t = db' t)"

lemma same_leaves_sym: "same_leaves db db' \<Longrightarrow> same_leaves db' db"
  by (simp add: same_leaves_def)

lemma keys_subset:
  assumes str: "tree_str env ok db" and str': "tree_str env ok db'" and leaves: "same_leaves db db'"
  shows "dom db \<subseteq> dom db'"
proof
  fix k
  assume "k \<in> dom db"
  then obtain n where n: "db k = Some n" by blast
  have leaf: "t \<in> dom db'" if "t \<in> dom db" "full_key t" for t
    using that leaves by (auto simp: same_leaves_def)
  have root: "an_empty \<in> dom db'"
    using str' by (auto simp: tree_str_def)
  show "k \<in> dom db'"
  proof (cases n)
    case (TerminalNode q a)
    then have "full_key k"
      using tree_str_terminal [OF str, of k q a] n by (simp add: full_key_def)
    then show ?thesis
      using leaf n by blast
  next
    case (BranchNode q cs)
    with tree_str_branch(1,2) [OF str, of k q cs] n have k: "db k = Some (BranchNode k cs)" "an_ok k"
      by simp_all
    show ?thesis
    proof (cases "k = an_empty")
      case False
      obtain i j s t where "i \<noteq> j" "s \<in> dom db'" "prefix (nib k @ [i]) (nib s)" "t \<in> dom db'" "prefix (nib k @ [j]) (nib t)"
        using leaves_part [OF str k(1) False] leaf by metis
      then show ?thesis
        using parting_is_key [OF str' k(2), of s i t j an_empty] root by simp
    qed (use root in simp)
  qed
qed

lemma keys_equal:
  assumes "tree_str env ok db" "tree_str env ok db'" "same_leaves db db'"
  shows "dom db = dom db'"
  using keys_subset [OF assms] keys_subset [OF assms(2,1) same_leaves_sym [OF assms(3)]] by blast

lemma child_present_unique:
  assumes "an_ok p" "child_str K p i None" "child_str K p i co"
  shows "co = None"
proof (cases co)
  case (Some c)
  then show ?thesis
    using child_target(3,4) [OF assms(3) [unfolded Some] assms(1)] assms(2) by (simp add: child_str_def)
qed

lemma child_target_unique:
  assumes "an_ok p" "child_str K p i (Some c)" "child_str K p i (Some c')"
  shows "tc_suffix c = tc_suffix c'"
proof -
  let ?x = "an_add p (tc_suffix c)" and ?y = "an_add p (tc_suffix c')"
  note x = child_target [OF assms(2,1)] and y = child_target [OF assms(3,1)]
  have "prefix (nib ?x) (nib ?y)" "prefix (nib ?y) (nib ?x)"
    using assms(2,3) x(3,4) y(3,4) by (simp_all add: child_str_def)
  then have "nib (tc_suffix c) = nib (tc_suffix c')"
    using x(2) y(2) by (metis prefix_order.antisym same_append_eq)
  then show ?thesis
    using nib_inject assms(2,3) by (simp add: child_str_def child_wf_def)
qed

lemma clean_child:
  assumes "clean env db p" "db p = Some (BranchNode q cs)" "Some c \<in> set cs"
  shows "\<exists>n. db (an_add p (tc_suffix c)) = Some n \<and> node_hash env n = (Inr (tc_hash c) :: blake2b_hash tree_result)"
    "clean env db (an_add p (tc_suffix c))"
  using assms by (auto elim: clean.cases)

lemma clean_node_determined:
  assumes str: "tree_str env ok db" "tree_str env ok db'" and leaves: "same_leaves db db'"
  shows "k \<in> dom db \<Longrightarrow> clean env db k \<Longrightarrow> clean env db' k \<Longrightarrow> db k = db' k"
proof (induction "40 - an_len k" arbitrary: k rule: less_induct)
  case less
  note dom = keys_equal [OF str leaves]
  obtain n where n: "db k = Some n"
    using less.prems(1) by blast
  obtain n' where n': "db' k = Some n'"
    using less.prems(1) dom by blast
  show ?case
  proof (cases "an_len k = 40")
    case True
    then show ?thesis
      using leaves tree_str_key [OF str(1) less.prems(1)] by (simp add: same_leaves_def full_key_def)
  next
    case False
    obtain cs where k: "db k = Some (BranchNode k cs)"
      using n False tree_str_branch(1) [OF str(1), of k] tree_str_terminal(3) [OF str(1), of k] by (cases n) auto
    obtain cs' where k': "db' k = Some (BranchNode k cs')"
      using n' False tree_str_branch(1) [OF str(2), of k] tree_str_terminal(3) [OF str(2), of k] by (cases n') auto
    note b = tree_str_branch [OF str(1) k] and b' = tree_str_branch [OF str(2) k', folded dom]
    have "cs ! i = cs' ! i" if i: "i < 16" for i
    proof (cases "cs ! i")
      case None
      then show ?thesis
        using child_present_unique [OF b(2), of "dom db" i "cs' ! i"] b(5) [OF i] b'(5) [OF i] by simp
    next
      case (Some c)
      then obtain c' where c': "cs' ! i = Some c'"
        using child_present_unique [OF b(2), of "dom db" i "cs ! i"] b(5) [OF i] b'(5) [OF i] by (cases "cs' ! i") simp_all
      have suffix: "tc_suffix c = tc_suffix c'"
        using child_target_unique [OF b(2), of "dom db" i c c'] b(5) [OF i] b'(5) [OF i] Some c' by simp
      have mem: "Some c \<in> set cs" "Some c' \<in> set cs'"
        using nth_mem [of i cs] nth_mem [of i cs'] Some c' i b(4) b'(4) by simp_all
      note cl = clean_child [OF less.prems(2) k mem(1)] and cl' = clean_child [OF less.prems(3) k' mem(2)]
      note step = root_path_step [OF str(1) k i Some]
      have "40 - an_len (an_add k (tc_suffix c)) < 40 - an_len k"
        using belowD(1) [OF step(1)] b(3) by simp
      then have "db (an_add k (tc_suffix c)) = db' (an_add k (tc_suffix c))"
        by (rule less.hyps) (use step(2) cl(2) cl'(2) suffix in simp_all)
      then have "tc_hash c = tc_hash c'"
        using cl(1) cl'(1) suffix by auto
      with c' Some suffix show ?thesis
        by (cases c; cases c') simp
    qed
    then have "cs = cs'"
      using b(4) b'(4) by (simp add: list_eq_iff_nth_eq)
    with k k' show ?thesis by simp
  qed
qed

lemma clean_tree_determined:
  assumes "tree_str env ok db" "tree_str env ok db'" "same_leaves db db'" "clean env db an_empty" "clean env db' an_empty"
  shows "db = db'"
proof
  fix k
  note dom = keys_equal [OF assms(1-3)]
  show "db k = db' k"
  proof (cases "k \<in> dom db")
    case True
    then have "clean env db k" "clean env db' k"
      using clean_below [OF assms(1) True assms(4)] clean_below [OF assms(2) _ assms(5), of k] dom by simp_all
    with True show ?thesis
      using clean_node_determined [OF assms(1-3)] by blast
  next
    case False
    then show ?thesis
      using dom by (metis domIff)
  qed
qed

end
