(* ===== verification/Accounts_Tree_Properties.thy ===== *)
theory Accounts_Tree_Properties
  imports Accounts_Tree_Canonical
begin

text \<open>
  The accounts tree as its clients see it: a sequence of updates and finalizations implements a map from addresses to accounts, the
  finalized database depends on that map only, and its root hash commits to the map.
\<close>

section \<open>The root hash commits to the accounts\<close>

definition node_bytes :: "'a tree_env \<Rightarrow> 'a tree_db \<Rightarrow> bytes set" where
  "node_bytes env db = {bs. \<exists>n \<in> ran db. ser_node env n = Inr bs}"

lemma node_hash_inject:
  assumes env: "env_ok env sz ok" and wf: "node_wf ok n" "node_wf ok n'"
    and inj: "inj_on (blake2b (te_crypto env)) B" "\<And>bs. ser_node env n = Inr bs \<Longrightarrow> bs \<in> B" "\<And>bs. ser_node env n' = Inr bs \<Longrightarrow> bs \<in> B"
    and eq: "node_hash env n = (Inr h :: blake2b_hash tree_result)" "node_hash env n' = (Inr h :: blake2b_hash tree_result)"
  shows "n = n'"
proof -
  have codec: "encodes (ser_node env n) (deser_node env) n (size_node sz n)" "encodes (ser_node env n') (deser_node env) n' (size_node sz n')"
    using encodes_node env wf by (auto simp: env_ok_def)
  then obtain bs bs' where bs: "ser_node env n = Inr bs" "ser_node env n' = Inr bs'"
    by (auto simp: encodes_def)
  with eq inj have "bs = bs'"
    by (auto simp: node_hash_def dest: inj_onD)
  with encodesD [OF codec(1) bs(1), of "[]"] encodesD [OF codec(2) bs(2), of "[]"] show ?thesis
    by simp
qed

lemma hash_determines_leaves:
  assumes env: "env_ok env sz ok" and str: "tree_str env ok db" "tree_str env ok db'"
    and inj: "inj_on (blake2b (te_crypto env)) (node_bytes env db \<union> node_bytes env db')"
    and t: "full_key t"
  shows "db k = Some n \<Longrightarrow> db' k = Some n' \<Longrightarrow> clean env db k \<Longrightarrow> clean env db' k \<Longrightarrow> prefix (nib k) (nib t) \<Longrightarrow>
    node_hash env n = (Inr h :: blake2b_hash tree_result) \<Longrightarrow> node_hash env n' = (Inr h :: blake2b_hash tree_result) \<Longrightarrow> db t = db' t"
proof (induction "40 - an_len k" arbitrary: k n n' h rule: less_induct)
  case less
  have wf: "node_wf ok n" "node_wf ok n'"
    using node_str_wf tree_str_node [OF str(1) less.prems(1)] tree_str_node [OF str(2) less.prems(2)] by blast+
  have bytes: "bs \<in> node_bytes env db \<union> node_bytes env db'" if "ser_node env n = Inr bs \<or> ser_node env n' = Inr bs" for bs
    using that less.prems(1,2) by (auto simp: node_bytes_def ran_def)
  have same: "n = n'"
    by (rule node_hash_inject [OF env wf inj _ _ less.prems(6,7)]) (use bytes in blast)+
  show ?case
  proof (cases "k = t")
    case True
    with less.prems(1,2) same show ?thesis by simp
  next
    case False
    have down: "db t = db' t" if mem_t: "t \<in> dom db \<or> t \<in> dom db'"
    proof (cases n)
      case (TerminalNode q a)
      then have "full_key k"
        using tree_str_terminal [OF str(1), of k q a] less.prems(1) by (simp add: full_key_def)
      then show ?thesis
        using full_key_prefix [of k t] t less.prems(5) False by (auto simp: full_key_def)
    next
      case (BranchNode q cs)
      with less.prems(1,2) same tree_str_branch(1) [OF str(1), of k q cs]
      have k: "db k = Some (BranchNode k cs)" "db' k = Some (BranchNode k cs)"
        by simp_all
      note b = tree_str_branch [OF str(1) k(1)]
      obtain m c where m: "m < 16" "cs ! m = Some c" "prefix (nib (an_add k (tc_suffix c))) (nib t)"
        using mem_t below_child [OF str(1) k(1), of t] below_child [OF str(2) k(2), of t] less.prems(5) False by metis
      then have mem: "Some c \<in> set cs"
        using nth_mem [of m cs] b(4) by simp
      note cl = clean_child [OF less.prems(3) k(1) mem] and cl' = clean_child [OF less.prems(4) k(2) mem]
      obtain x x' where x: "db (an_add k (tc_suffix c)) = Some x" "node_hash env x = (Inr (tc_hash c) :: blake2b_hash tree_result)"
        "db' (an_add k (tc_suffix c)) = Some x'" "node_hash env x' = (Inr (tc_hash c) :: blake2b_hash tree_result)"
        using cl(1) cl'(1) by blast
      have "40 - an_len (an_add k (tc_suffix c)) < 40 - an_len k"
        using belowD(1) [OF root_path_step(1) [OF str(1) k(1) m(1,2)]] b(3) by simp
      then show ?thesis
        using less.hyps [OF _ x(1,3) cl(2) cl'(2) m(3) x(2,4)] by blast
    qed
    show ?thesis
      using down by (metis domIff)
  qed
qed

section \<open>Runs of the tree\<close>

text \<open>A batch is a sequence of updates, with the hashes recomputed at any time between them.\<close>

datatype 'a tree_op = Put address 'a | Finalize

fun tree_apply :: "'a tree_env \<Rightarrow> 'a tree_op \<Rightarrow> 'a tree_db \<Rightarrow> 'a tree_db tree_result" where
  "tree_apply env (Put a acc) db = put_batch env db a acc"
| "tree_apply env Finalize db = finalize_batch env db"

fun tree_run :: "'a tree_env \<Rightarrow> 'a tree_op list \<Rightarrow> 'a tree_db \<Rightarrow> 'a tree_db tree_result" where
  "tree_run env [] db = Inr db"
| "tree_run env (e # es) db = rbind (tree_apply env e db) (tree_run env es)"

text \<open>The map that a batch leads to: storing an initial account removes the entry.\<close>

fun accounts_after :: "'a tree_env \<Rightarrow> 'a tree_op list \<Rightarrow> (address \<rightharpoonup> 'a) \<Rightarrow> (address \<rightharpoonup> 'a)" where
  "accounts_after env [] m = m"
| "accounts_after env (Put a acc # es) m = accounts_after env es (m(a := if te_is_initial env acc then None else Some acc))"
| "accounts_after env (Finalize # es) m = accounts_after env es m"

definition ops_ok :: "('a \<Rightarrow> bool) \<Rightarrow> 'a tree_op list \<Rightarrow> bool" where
  "ops_ok ok es \<longleftrightarrow> (\<forall>a acc. Put a acc \<in> set es \<longrightarrow> address_ok a \<and> ok acc)"

definition accounts_of :: "'a tree_db \<Rightarrow> (address \<rightharpoonup> 'a)" where
  "accounts_of db a = (if address_ok a then tree_get db a else None)"

lemma accounts_of_cong:
  assumes "\<forall>k. an_len k = 40 \<longrightarrow> db' k = db k"
  shows "accounts_of db' = accounts_of db"
proof
  fix a
  show "accounts_of db' a = accounts_of db a"
    using assms full_key_address [of a] by (simp add: accounts_of_def tree_get_def full_key_def)
qed

lemma tree_run_correct:
  assumes env: "env_ok env sz ok"
  shows "tree_inv env ok db \<Longrightarrow> ops_ok ok es \<Longrightarrow>
    \<exists>db'. tree_run env es db = Inr db' \<and> tree_inv env ok db' \<and> accounts_of db' = accounts_after env es (accounts_of db)"
proof (induction es arbitrary: db)
  case (Cons e es)
  have es: "ops_ok ok es"
    using Cons.prems(2) by (auto simp: ops_ok_def)
  show ?case
  proof (cases e)
    case (Put a acc)
    then have a: "address_ok a" "ok acc"
      using Cons.prems(2) by (auto simp: ops_ok_def)
    obtain db' where db': "put_batch env db a acc = Inr db'" "tree_inv env ok db'"
      "\<And>b. address_ok b \<Longrightarrow> tree_get db' b = (if b = a then if te_is_initial env acc then None else Some acc else tree_get db b)"
      using put_batch_correct [OF Cons.prems(1) a] by blast
    have "accounts_of db' = (accounts_of db)(a := if te_is_initial env acc then None else Some acc)"
      using a(1) db'(3) by (auto simp: accounts_of_def fun_eq_iff)
    with Cons.IH [OF db'(2) es] show ?thesis
      by (simp add: Put db'(1) fun_upd_def)
  next
    case Finalize
    obtain db' where db': "finalize_batch env db = Inr db'" "tree_inv env ok db'" "\<forall>k. an_len k = 40 \<longrightarrow> db' k = db k"
      using finalize_batch_clean [OF env Cons.prems(1)] by blast
    have "accounts_of db' = accounts_of db"
      by (rule accounts_of_cong [OF db'(3)])
    with Cons.IH [OF db'(2) es] show ?thesis
      by (simp add: Finalize db'(1))
  qed
qed simp

lemma tree_new_accounts: "accounts_of (tree_new Map.empty) = Map.empty"
proof
  fix a
  have "address_ok a \<Longrightarrow> an_from_bytes a \<noteq> an_empty"
    using full_key_address [of a] by (auto simp: full_key_def)
  then show "accounts_of (tree_new Map.empty) a = None"
    by (simp add: accounts_of_def tree_get_def tree_new_def get_root_def)
qed

lemma full_key_surj:
  assumes "full_key t"
  obtains a where "address_ok a" "t = an_from_bytes a"
proof
  have "length (an_bytes t) = 20" "unat (an_length t) = unat (40 :: u8)"
    using assms by (simp_all add: full_key_def an_ok_def an_len_def)
  then have "length (an_bytes t) = 20" "an_length t = 40"
    by (simp_all only: word_unat_eq_iff)
  then show "address_ok (an_bytes t)" "t = an_from_bytes (an_bytes t)"
    by (simp_all add: address_ok_def an_from_bytes_def)
qed

lemma accounts_of_leaves:
  assumes "tree_str env ok db" "tree_str env ok db'"
  shows "same_leaves db db' \<longleftrightarrow> accounts_of db = accounts_of db'"
proof
  assume leaves: "same_leaves db db'"
  show "accounts_of db = accounts_of db'"
  proof
    fix a
    show "accounts_of db a = accounts_of db' a"
      using leaves full_key_address [of a] by (simp add: same_leaves_def accounts_of_def tree_get_def)
  qed
next
  assume eq: "accounts_of db = accounts_of db'"
  show "same_leaves db db'"
    unfolding same_leaves_def
  proof (intro allI impI)
    fix t
    assume "full_key t"
    then obtain a where a: "address_ok a" "t = an_from_bytes a"
      by (rule full_key_surj)
    then have "tree_get db a = tree_get db' a"
      using fun_cong [OF eq, of a] by (simp add: accounts_of_def)
    then show "db t = db' t"
      using tree_get_key [OF assms(1) a(1)] tree_get_key [OF assms(2) a(1)] a(2) by simp
  qed
qed

definition tree_build :: "'a tree_env \<Rightarrow> 'a tree_op list \<Rightarrow> 'a tree_db tree_result" where
  "tree_build env es = rbind (tree_run env es (tree_new Map.empty)) (finalize_batch env)"

lemma tree_build_correct:
  assumes "env_ok env sz ok" "ops_ok ok es"
  obtains db where "tree_build env es = Inr db" "tree_str env ok db" "clean env db an_empty" "accounts_of db = accounts_after env es Map.empty"
proof -
  obtain db1 where db1: "tree_run env es (tree_new Map.empty) = Inr db1" "tree_inv env ok db1" "accounts_of db1 = accounts_after env es Map.empty"
    using tree_run_correct [OF assms(1) tree_new_inv assms(2), unfolded tree_new_accounts] by blast
  obtain db where db: "finalize_batch env db1 = Inr db" "tree_inv env ok db" "clean env db an_empty" "\<forall>k. an_len k = 40 \<longrightarrow> db k = db1 k"
    using finalize_batch_clean [OF assms(1) db1(2)] by blast
  have "accounts_of db = accounts_after env es Map.empty"
    using db1(3) accounts_of_cong [OF db(4)] by simp
  with db1(1) db show thesis
    by (intro that) (simp_all add: tree_build_def tree_inv_def)
qed

lemma root_hash_defined:
  assumes "env_ok env sz ok" "tree_str env ok db"
  obtains h where "tree_root_hash env db = Inr h" "\<exists>n. db an_empty = Some n \<and> node_hash env n = (Inr h :: blake2b_hash tree_result)"
proof -
  obtain cs where root: "db an_empty = Some (BranchNode an_empty cs)"
    using assms(2) by (auto simp: tree_str_def)
  obtain h where "node_hash env (BranchNode an_empty cs) = (Inr h :: blake2b_hash tree_result)"
    using node_hash_wf [OF assms(1) node_str_wf [OF tree_str_node [OF assms(2) root]]] .
  with root show thesis
    by (intro that) (simp_all add: tree_root_hash_def get_root_def)
qed

text \<open>C5: The accounts tree implements a map from addresses to accounts: any sequence of updates of accounts, with the hashes recomputed at
  any time in between, succeeds from the empty tree, and afterwards every address has the account that was stored last for it, or none
  if there was none or it was an initial account.\<close>

theorem accounts_tree_is_map:
  assumes "env_ok env sz ok" "ops_ok ok es"
  shows "\<exists>db. tree_run env es (tree_new Map.empty) = Inr db \<and>
    (\<forall>a. address_ok a \<longrightarrow> tree_get db a = accounts_after env es Map.empty a)"
proof -
  obtain db where db: "tree_run env es (tree_new Map.empty) = Inr db" "accounts_of db = accounts_after env es Map.empty"
    using tree_run_correct [OF assms(1) tree_new_inv assms(2), unfolded tree_new_accounts] by blast
  have "tree_get db a = accounts_after env es Map.empty a" if "address_ok a" for a
    using that by (simp add: accounts_of_def flip: db(2))
  with db(1) show ?thesis by blast
qed

text \<open>C6: The finalized tree depends on the accounts only, not on the history: two sequences of updates that leave the same accounts build
  the same database, node by node, and so the same root hash.  Conversely the root hash commits to the accounts: if the hash function
  does not collide on the nodes of the two trees, equal root hashes mean equal accounts.\<close>

theorem accounts_tree_root_hash:
  fixes env :: "'a tree_env"
  assumes "env_ok env sz ok" "ops_ok ok es" "ops_ok ok es'"
  shows "\<exists>db db' h h'. tree_build env es = Inr db \<and> tree_build env es' = Inr db' \<and>
    tree_root_hash env db = Inr h \<and> tree_root_hash env db' = Inr h' \<and>
    (accounts_after env es Map.empty = accounts_after env es' Map.empty \<longrightarrow> db = db') \<and>
    (inj_on (blake2b (te_crypto env)) (node_bytes env db \<union> node_bytes env db') \<longrightarrow> h = h' \<longrightarrow>
      accounts_after env es Map.empty = accounts_after env es' Map.empty)"
proof -
  obtain db where db: "tree_build env es = Inr db" "tree_str env ok db" "clean env db an_empty" "accounts_of db = accounts_after env es Map.empty"
    using tree_build_correct [OF assms(1,2)] .
  obtain db' where db': "tree_build env es' = Inr db'" "tree_str env ok db'" "clean env db' an_empty"
      "accounts_of db' = accounts_after env es' Map.empty"
    using tree_build_correct [OF assms(1,3)] .
  obtain h where h: "tree_root_hash env db = Inr h" "\<exists>n. db an_empty = Some n \<and> node_hash env n = (Inr h :: blake2b_hash tree_result)"
    using root_hash_defined [OF assms(1) db(2)] .
  obtain h' where h': "tree_root_hash env db' = Inr h'" "\<exists>n. db' an_empty = Some n \<and> node_hash env n = (Inr h' :: blake2b_hash tree_result)"
    using root_hash_defined [OF assms(1) db'(2)] .
  note leaves = accounts_of_leaves [OF db(2) db'(2), unfolded db(4) db'(4)]
  have "db = db'" if "accounts_after env es Map.empty = accounts_after env es' Map.empty"
    using clean_tree_determined [OF db(2) db'(2) _ db(3) db'(3)] leaves that by blast
  moreover have "same_leaves db db'" if inj: "inj_on (blake2b (te_crypto env)) (node_bytes env db \<union> node_bytes env db')" and "h = h'"
    unfolding same_leaves_def
    using hash_determines_leaves [OF assms(1) db(2) db'(2) inj _ _ _ db(3) db'(3)] h(2) h'(2) \<open>h = h'\<close> by auto
  ultimately show ?thesis
    using db(1) db'(1) h(1) h'(1) leaves by blast
qed

section \<open>An example\<close>

text \<open>Accounts are numbers, zero the initial one.\<close>

definition example_env :: "u64 tree_env" where
  "example_env = \<lparr>te_crypto = example_crypto, te_hex = example_hex, te_is_initial = (\<lambda>n. n = 0), te_ser = ser_u64, te_deser = deser_u64\<rparr>"

lemma example_env_ok: "env_ok example_env (\<lambda>_. 8) (\<lambda>_. True)"
  using u64.encoded by (auto simp: env_ok_def leaf_codec_def example_env_def example_hex_ok hash_ok_def example_crypto_def min_def)

definition example_ops :: "u64 tree_op list" where
  "example_ops = [Put (replicate 20 1) 5, Put (replicate 20 2) 6, Finalize, Put (replicate 20 1) 7, Put (replicate 20 2) 0]"

lemma example_ops_ok: "ops_ok (\<lambda>_. True) example_ops" "ops_ok (\<lambda>_. True) [Put (replicate 20 1) (7 :: u64)]" "ops_ok (\<lambda>_ :: u64. True) []"
  by (auto simp: ops_ok_def example_ops_def address_ok_def)

lemma example_accounts:
  "accounts_after example_env example_ops Map.empty = [replicate 20 1 \<mapsto> 7]"
  "accounts_after example_env [Put (replicate 20 1) 7] Map.empty = [replicate 20 1 \<mapsto> 7]"
proof -
  have "(replicate 20 1 :: bytes) \<noteq> replicate 20 2"
    by simp
  then show "accounts_after example_env example_ops Map.empty = [replicate 20 1 \<mapsto> 7]"
    by (auto simp: example_ops_def example_env_def)
qed (simp add: example_env_def)

theorem accounts_tree_is_map_witness:
  "\<exists>db. tree_run example_env example_ops (tree_new Map.empty) = Inr db \<and> tree_get db (replicate 20 1) = Some 7 \<and>
    tree_get db (replicate 20 2) = None"
proof -
  have "address_ok (replicate 20 1)" "address_ok (replicate 20 2)"
    by (simp_all add: address_ok_def)
  then show ?thesis
    using accounts_tree_is_map [OF example_env_ok example_ops_ok(1)] by (auto simp: example_accounts)
qed

lemma one_leaf_keys:
  assumes str: "tree_str env ok db" and leaf: "\<And>t. t \<in> dom db \<Longrightarrow> full_key t \<Longrightarrow> t = x"
  shows "dom db \<subseteq> {an_empty, x}"
proof
  fix k
  assume "k \<in> dom db"
  then obtain n where n: "db k = Some n" by blast
  show "k \<in> {an_empty, x}"
  proof (cases n)
    case (TerminalNode q a)
    then show ?thesis
      using tree_str_terminal [OF str, of k q a] n leaf by (auto simp: full_key_def)
  next
    case (BranchNode q cs)
    with tree_str_branch(1) [OF str, of k q cs] n have k: "db k = Some (BranchNode k cs)"
      by simp
    have "k = an_empty"
    proof (rule ccontr)
      assume "k \<noteq> an_empty"
      then obtain i j where "i \<noteq> j" "prefix (nib k @ [i]) (nib x)" "prefix (nib k @ [j]) (nib x)"
        using leaves_part [OF str k] leaf by metis
      then show False
        using prefix_snoc_unique [of "nib k" i "nib x" j] by simp
    qed
    then show ?thesis by simp
  qed
qed

lemma one_account_bytes:
  assumes "env_ok env sz ok" "ops_ok ok es" "tree_build env es = Inr db" "dom (accounts_after env es Map.empty) \<subseteq> {a}"
  shows "node_bytes env db \<subseteq> {bs. \<exists>k \<in> {an_empty, an_from_bytes a}. map_option (ser_node env) (db k) = Some (Inr bs)}"
proof -
  have db: "tree_str env ok db" "accounts_of db = accounts_after env es Map.empty"
    using tree_build_correct [OF assms(1,2)] assms(3) by (metis Inr_inject)+
  have leaf: "t = an_from_bytes a" if t: "t \<in> dom db" "full_key t" for t
  proof -
    obtain c where c: "address_ok c" "t = an_from_bytes c"
      using full_key_surj [OF t(2)] .
    then have "c \<in> dom (accounts_of db)"
      using t(1) tree_get_key [OF db(1) c(1)] by (cases "tree_get db c") (auto simp: accounts_of_def)
    with c(2) assms(4) show ?thesis
      by (auto simp: db(2))
  qed
  have "dom db \<subseteq> {an_empty, an_from_bytes a}"
    by (rule one_leaf_keys [OF db(1) leaf])
  then show ?thesis
    by (fastforce simp: node_bytes_def ran_def)
qed

lemma example_nodes:
  "(case tree_build example_env [] of Inr db \<Rightarrow>
      (map_option (ser_node example_env) (db an_empty), map_option (ser_node example_env) (db (an_from_bytes (replicate 20 1)))) | Inl _ \<Rightarrow> (None, None)) =
    (Some (Inr [0, 0, 0]), None)"
  "(case tree_build example_env [Put (replicate 20 1) 7] of Inr db \<Rightarrow>
      (map_option (ser_node example_env) (db an_empty), map_option (ser_node example_env) (db (an_from_bytes (replicate 20 1)))) | Inl _ \<Rightarrow> (None, None)) =
    (Some (Inr ([0, 0, 1, 40] @ concat (replicate 20 [48, 49]) @ [255, 40] @ concat (replicate 15 [48, 49]))),
     Some (Inr ([255, 40, 48, 49] @ concat (replicate 19 [48, 49]) @ [0, 0, 0, 0, 0, 0, 0, 7])))"
  by code_simp+

lemma example_hash_start: "length xs = 4 \<Longrightarrow> take 4 (blake2b (te_crypto example_env) (xs @ ys)) = xs"
  by (simp add: example_env_def example_crypto_def)

lemma example_no_collision:
  assumes "tree_build example_env [] = Inr db" "tree_build example_env [Put (replicate 20 1) 7] = Inr db'"
  shows "inj_on (blake2b (te_crypto example_env)) (node_bytes example_env db \<union> node_bytes example_env db')"
proof -
  let ?H = "blake2b (te_crypto example_env)"
  have d0: "dom (accounts_after example_env [] Map.empty) \<subseteq> {replicate 20 1}"
    and d1: "dom (accounts_after example_env [Put (replicate 20 1) 7] Map.empty) \<subseteq> {replicate 20 1}"
    by (simp_all only: example_accounts) auto
  have n: "map_option (ser_node example_env) (db an_empty) = Some (Inr [0, 0, 0])" "db (an_from_bytes (replicate 20 1)) = None"
    using example_nodes(1) assms(1) by simp_all
  define r l :: bytes where "r = [0, 0, 1, 40] @ concat (replicate 20 [48, 49]) @ [255, 40] @ concat (replicate 15 [48, 49])"
    and "l = [255, 40, 48, 49] @ concat (replicate 19 [48, 49]) @ [0, 0, 0, 0, 0, 0, 0, 7]"
  then have rl: "map_option (ser_node example_env) (db' an_empty) = Some (Inr r)"
    "map_option (ser_node example_env) (db' (an_from_bytes (replicate 20 1))) = Some (Inr l)"
    using example_nodes(2) assms(2) by (simp_all only: sum.case prod.inject)
  have sub: "node_bytes example_env db \<union> node_bytes example_env db' \<subseteq> {[0, 0, 0], r, l}"
    using one_account_bytes [OF example_env_ok example_ops_ok(3) assms(1) d0] one_account_bytes [OF example_env_ok example_ops_ok(2) assms(2) d1]
    unfolding bex_simps n rl option.map option.inject sum.inject by blast
  have start: "take 4 (?H r) = [0, 0, 1, 40]" "take 4 (?H l) = [255, 40, 48, 49]" "take 4 (?H [0, 0, 0]) = [0, 0, 0, 0]"
    unfolding r_def l_def by (rule example_hash_start, simp)+ (simp add: example_env_def example_crypto_def)
  have "?H r \<noteq> ?H l" "?H r \<noteq> ?H [0, 0, 0]" "?H l \<noteq> ?H [0, 0, 0]"
    using arg_cong [of "?H r" "?H l" "take 4"] arg_cong [of "?H r" "?H [0, 0, 0]" "take 4"] arg_cong [of "?H l" "?H [0, 0, 0]" "take 4"]
    unfolding start by auto
  then have "inj_on ?H {[0, 0, 0], r, l}"
    unfolding inj_on_def by (metis insertE singletonD)
  then show ?thesis
    by (rule inj_on_subset [OF _ sub])
qed

lemma example_distinct: "accounts_after example_env [] Map.empty \<noteq> [replicate 20 1 \<mapsto> 7]"
  by (simp add: fun_eq_iff)

theorem accounts_tree_root_hash_witness:
  "tree_build example_env example_ops = tree_build example_env [Put (replicate 20 1) 7] \<and>
   rbind (tree_build example_env []) (tree_root_hash example_env) \<noteq>
     rbind (tree_build example_env [Put (replicate 20 1) 7]) (tree_root_hash example_env)"
proof -
  let ?one = "[Put (replicate 20 1) (7 :: u64)]"
  have "tree_build example_env example_ops = tree_build example_env ?one"
    using accounts_tree_root_hash [OF example_env_ok example_ops_ok(1,2)] unfolding example_accounts by metis
  moreover obtain db db' h h' where b: "tree_build example_env [] = Inr db" "tree_build example_env ?one = Inr db'"
      "tree_root_hash example_env db = Inr h" "tree_root_hash example_env db' = Inr h'"
      "inj_on (blake2b (te_crypto example_env)) (node_bytes example_env db \<union> node_bytes example_env db') \<Longrightarrow> h \<noteq> h'"
    using accounts_tree_root_hash [OF example_env_ok example_ops_ok(3,2)] example_distinct unfolding example_accounts by metis
  moreover have "inj_on (blake2b (te_crypto example_env)) (node_bytes example_env db \<union> node_bytes example_env db')"
    using example_no_collision [OF b(1,2)] .
  ultimately show ?thesis
    by simp
qed

end
