(* ===== verification/Spec2Isabelle.thy ===== *)
theory Spec2Isabelle
  imports Prelude Std_Collections Beserial Uvar Coin Policy Comparators Float64 Primitives Merkle Transaction Staking_Data
    Transaction_Verify Account_Base Simple_Accounts Bitset Slots Staking_Contract Staking_Invariant Staking_Actions
    Staking_Drop Staking_Handlers Staking_Revert Staking_Epochs Staking_Properties Rust_String Nibbles Tree_Node Accounts_Tree
    Accounts_Tree_Update Accounts_Tree_Put Accounts_Tree_Finalize Accounts_Tree_Canonical Accounts_Tree_Properties
begin

text \<open>
  The ledger core of the Nimiq Albatross node.

  The node keeps an accounts tree whose leaves are accounts of four types.  Blocks carry transactions and inherents;
  a transaction is verified on its own, then committed to the accounts of its sender and recipient, and can
  be reverted from the receipts that committing produced.  The root hash of the tree stands in every block for all accounts.

  \<^bold>\<open>Theories.\<close>
  \<^item> \<open>Prelude\<close>, \<open>Std_Collections\<close>: machine integers, results with errors and panics, ordered maps and sets.
  \<^item> \<open>Beserial\<close>, \<open>Uvar\<close> (\<open>beserial/src\<close>): byte formats as a writer and a reader per type; the interface
    \<open>codec\<close> says that a value is read back from what is written of it.
  \<^item> \<open>Coin\<close>, \<open>Policy\<close>, \<open>Primitives\<close> (\<open>primitives/src\<close>, \<open>keys/src\<close>, \<open>bls/src\<close>): amounts, block numbers, types.
  \<^item> \<open>Comparators\<close>, \<open>Float64\<close>: orderings composed with \<open>then_with\<close>, and double-precision numbers.
  \<^item> \<open>Merkle\<close> (\<open>utils/src/merkle\<close>): roots, paths and proofs.
  \<^item> \<open>Transaction\<close>, \<open>Staking_Data\<close>, \<open>Transaction_Verify\<close> (\<open>primitives/transaction/src\<close>): transactions, the data of staking
    transactions, static verification.
  \<^item> \<open>Account_Base\<close>, \<open>Simple_Accounts\<close> (\<open>primitives/account/src\<close>): errors, inherents, balances; basic accounts,
    vesting contracts and hashed time-locked contracts.
  \<^item> \<open>Bitset\<close> (\<open>collections/src/bitset.rs\<close>): bit sets as an implementation of finite sets.
  \<^item> \<open>Slots\<close> (\<open>primitives/src/slot.rs\<close>): the slots of an epoch and their allocation to validators.
  \<^item> \<open>Staking_Contract\<close> (\<open>primitives/account/src/staking_contract\<close>): the validators, stakes and parking lists of the staking contract
    and the actions on them; \<open>Staking_Handlers\<close>: receipts, transactions and inherents.  \<open>Staking_Invariant\<close>,
    \<open>Staking_Actions\<close> and \<open>Staking_Drop\<close> prove that the actions keep the invariant and are undone,
    \<open>Staking_Revert\<close> and \<open>Staking_Epochs\<close> lift this to the handlers, and \<open>Staking_Properties\<close> states the results.
  \<^item> \<open>Rust_String\<close>, \<open>Nibbles\<close>, \<open>Tree_Node\<close> (\<open>accounts/tree-primitives/src\<close>): strings, packed prefixes of addresses, the nodes of the
    accounts tree with their byte format and hash.
  \<^item> \<open>Accounts_Tree\<close> (\<open>accounts/src/tree/mod.rs\<close>): the operations of the tree on a database of nodes and its invariant.
    \<open>Accounts_Tree_Update\<close> and \<open>Accounts_Tree_Put\<close> prove the updates, \<open>Accounts_Tree_Finalize\<close> the recomputation of the hashes,
    \<open>Accounts_Tree_Canonical\<close> that the accounts determine the tree, and \<open>Accounts_Tree_Properties\<close> states the results.

  \<^bold>\<open>Conventions.\<close>  Unsigned integers of the source are words of their width, so arithmetic wraps as in a release build; \<open>usize\<close>
  is a natural number.  An operation that can fail returns \<open>Inl (Err e)\<close> for an error value and \<open>Inl Panic\<close> for a panic (an unwrapped
  \<open>None\<close>, a failed assertion, a length that does not fit); one that changes a contract returns the result together with the new state, also
  when it fails.  B-trees are lists sorted by key.

  \<^bold>\<open>Parameters.\<close>  The record \<open>crypto\<close> holds the hash functions and the verification of signatures, \<open>hex\<close> the crate of that name,
  \<open>tree_env\<close> the leaf type of the accounts tree (\<open>is_initial\<close> and its codec), as the trait \<open>AccountsTreeLeave\<close> does.  What is
  assumed of them is a hypothesis of the theorem that needs it: that hashes have 32 bytes (\<open>blake2b_ok\<close>, \<open>env_ok\<close>), that decoding undoes
  encoding (\<open>hex_ok\<close>, \<open>leaf_codec\<close>).

  \<^bold>\<open>What is shown.\<close>
  \<^item> Staking: runs of the contract from its default state keep its structures and balances consistent under the stated conditions; committed
    transactions and slashes are undone from their receipts; refused ones change nothing; coins leave only after the recorded delay; the end
    of an epoch retires the parked validators; and two ways around these rules that the code leaves open.
  \<^item> Accounts tree: it implements a map from addresses to accounts, and its root hash depends on the map only and commits to it.
  \<^item> Transactions: static verification is sound and never panics, signatures cover the content, contract addresses are derived from the
    creating transaction, both orders are total, wire formats are read back.
  \<^item> Merkle trees: paths and proofs lead to the root, proofs of absence decide membership.
  \<^item> Vesting and time-locked contracts pay out only what their conditions allow.
  \<^item> Bit sets implement finite sets, except for their in-place operators, whose exact behaviour is given.
  \<^item> Slots, block numbers, coins and the variable-length integer: partition, inverse and round-trip properties.

  \<^bold>\<open>Bounds.\<close>  The walk down the accounts tree takes a fuel of 41 steps.  Every step extends the prefix of the current node and prefixes have at
  most 40 nibbles, so 41 steps suffice; that \<open>OutOfFuel\<close> never results is part of the theorems.  All other loops are structural or have a
  termination proof.

  \<^bold>\<open>Not modelled.\<close>  Networking, consensus, block production, the mempool, Tendermint, signature aggregation, the database, remote procedure
  calls, the client and its tools are asynchronous input and output; keys, hashes, BLS signatures, verifiable randomness, mnemonics and the
  zero-knowledge light client rest on third-party cryptography.  Of the modelled crates, the byte format of the staking contract, the
  selection of validators, the account enumeration with the commit of whole blocks, and the proofs and chunks of the accounts tree are left
  out.
\<close>

end
